(* ===== verification/Prelude.thy ===== *)
theory Prelude
  imports Main "HOL-Library.Word" "HOL-Library.Monad_Syntax"
begin

unbundle bit_operations_syntax

text \<open>
  What every component shares: bytes, heap blocks and the C library calls on them.

  A \<open>block\<close> is one heap allocation (or one fixed array of a struct), as the list of its bytes.
  Every access is checked: a load, a store or a \<open>memmove\<close> that leaves the block is \<open>None\<close>, the
  model of C's undefined behaviour, and the option monad carries it to the caller. A C string is
  the part of a block before its first NUL byte (\<open>cstr\<close>); the bytes after that NUL stay in the
  block, because the editor shortens lines in place and does read them again.
  Allocation is taken to succeed: the calls to \<open>die\<close> on a NULL result are not modelled.
\<close>

type_synonym byte = "8 word"
type_synonym block = "byte list"

named_theorems mem_simps \<open>checked memory accesses that are in range\<close>
named_theorems wf_intros \<open>well-formedness of the results of operations\<close>

definition bytes_of :: "string \<Rightarrow> byte list" where
  "bytes_of s = map of_char s"

section \<open>Lists\<close>

lemma take_append_len [simp]: "take (length xs) (xs @ ys) = xs"
  by simp

lemma takeWhile_notin [simp]: "x \<notin> set xs \<Longrightarrow> takeWhile (\<lambda>c. c \<noteq> x) (xs @ x # ys) = xs"
  by (induction xs) auto

lemma takeWhile_all_ne: "x \<notin> set xs \<Longrightarrow> takeWhile (\<lambda>c. c \<noteq> x) xs = xs"
  by (induction xs) auto

lemma takeWhile_not_mem: "x \<notin> set (takeWhile (\<lambda>c. c \<noteq> x) xs)"
  using set_takeWhileD by fastforce

lemma list_update_split:
  "i < length xs \<Longrightarrow> xs[i := v] = take i xs @ v # drop (Suc i) xs"
  by (simp add: upd_conv_take_nth_drop)

lemma take_Suc_update: "c < length s \<Longrightarrow> (take (Suc c) s)[c := x] = take c s @ [x]"
  by (simp add: take_Suc_conv_app_nth list_update_append)

lemma set_take_sub: "x \<notin> set xs \<Longrightarrow> x \<notin> set (take n xs)"
  by (auto dest: in_set_takeD)

lemma set_drop_sub: "x \<notin> set xs \<Longrightarrow> x \<notin> set (drop n xs)"
  by (auto dest: in_set_dropD)

section \<open>Blocks and strings\<close>

definition load :: "'a list \<Rightarrow> nat \<Rightarrow> 'a option" where
  "load b i = (if i < length b then Some (b ! i) else None)"

definition store :: "'a list \<Rightarrow> nat \<Rightarrow> 'a \<Rightarrow> 'a list option" where
  "store b i v = (if i < length b then Some (b[i := v]) else None)"

definition memmove :: "block \<Rightarrow> nat \<Rightarrow> nat \<Rightarrow> nat \<Rightarrow> block option" where
  "memmove b dst src n =
     (if dst + n \<le> length b \<and> src + n \<le> length b
      then Some (take dst b @ take n (drop src b) @ drop (dst + n) b) else None)"

definition memcpy :: "block \<Rightarrow> nat \<Rightarrow> block \<Rightarrow> nat \<Rightarrow> nat \<Rightarrow> block option" where
  "memcpy d dst s src n =
     (if dst + n \<le> length d \<and> src + n \<le> length s
      then Some (take dst d @ take n (drop src s) @ drop (dst + n) d) else None)"

text \<open>
  \<open>realloc\<close> keeps the bytes up to the smaller of the two sizes. The bytes a growing block gains are
  indeterminate; they are \<open>j\<close> here, and every caller overwrites them before it reads
  (the lemmas on callers are proved for every \<open>j\<close>).
\<close>

definition realloc_with :: "byte \<Rightarrow> block \<Rightarrow> nat \<Rightarrow> block" where
  "realloc_with j b n = take n b @ replicate (n - length b) j"

abbreviation realloc :: "block \<Rightarrow> nat \<Rightarrow> block" where
  "realloc \<equiv> realloc_with 0"

definition strlen :: "block \<Rightarrow> nat option" where
  "strlen b = (if 0 \<in> set b then Some (length (takeWhile (\<lambda>c. c \<noteq> 0) b)) else None)"

definition cstr :: "block \<Rightarrow> byte list" where
  "cstr b = takeWhile (\<lambda>c. c \<noteq> 0) b"

definition wf_block :: "block \<Rightarrow> bool" where
  "wf_block b \<longleftrightarrow> 0 \<in> set b"

text \<open>The string a \<open>char *\<close> argument points to, for the library calls that read it to its NUL.\<close>

definition c_string :: "block \<Rightarrow> byte list option" where
  "c_string b = (if 0 \<in> set b then Some (cstr b) else None)"

text \<open>\<open>strdup\<close> and \<open>strndup\<close> of the string that starts at an offset of a block.\<close>

definition strdup :: "block \<Rightarrow> nat \<Rightarrow> block option" where
  "strdup b off = (if 0 \<in> set (drop off b) then Some (cstr (drop off b) @ [0]) else None)"

definition strndup :: "block \<Rightarrow> nat \<Rightarrow> block option" where
  "strndup b n = (if 0 \<in> set b \<or> n \<le> length b then Some (take n (cstr b) @ [0]) else None)"

lemma load_eq [mem_simps]: "i < length b \<Longrightarrow> load b i = Some (b ! i)"
  by (simp add: load_def)

lemma load_None: "load b i = None \<longleftrightarrow> length b \<le> i"
  by (simp add: load_def)

lemma store_eq [mem_simps]: "i < length b \<Longrightarrow> store b i v = Some (b[i := v])"
  by (simp add: store_def)

lemma memmove_eq [mem_simps]:
  "dst + n \<le> length b \<Longrightarrow> src + n \<le> length b \<Longrightarrow>
   memmove b dst src n = Some (take dst b @ take n (drop src b) @ drop (dst + n) b)"
  by (simp add: memmove_def)

lemma memcpy_eq [mem_simps]:
  "dst + n \<le> length d \<Longrightarrow> src + n \<le> length s \<Longrightarrow>
   memcpy d dst s src n = Some (take dst d @ take n (drop src s) @ drop (dst + n) d)"
  by (simp add: memcpy_def)

lemma length_realloc [simp]: "length (realloc_with j b n) = n"
  by (simp add: realloc_with_def)

lemma wf_block_split:
  assumes "wf_block b"
  obtains s r where "b = s @ 0 # r" and "0 \<notin> set s" and "cstr b = s"
proof -
  from assms obtain s r where "b = s @ 0 # r" "0 \<notin> set s"
    unfolding wf_block_def by (meson split_list_first)
  with that show thesis by (simp add: cstr_def)
qed

lemma cstr_append_nul [simp]: "0 \<notin> set s \<Longrightarrow> cstr (s @ 0 # r) = s"
  by (simp add: cstr_def)

lemma cstr_no_nul [simp]: "0 \<notin> set (cstr b)"
  unfolding cstr_def by (rule takeWhile_not_mem)

lemma wf_block_append_nul [simp, wf_intros]: "wf_block (s @ 0 # r)"
  by (simp add: wf_block_def)

lemma strlen_eq [mem_simps]: "wf_block b \<Longrightarrow> strlen b = Some (length (cstr b))"
  by (simp add: strlen_def wf_block_def cstr_def)

lemma c_string_eq [mem_simps]: "wf_block b \<Longrightarrow> c_string b = Some (cstr b)"
  by (simp add: c_string_def wf_block_def)

lemma length_cstr_less: "wf_block b \<Longrightarrow> length (cstr b) < length b"
  by (erule wf_block_split) auto

lemma cstr_nth: "i < length (cstr b) \<Longrightarrow> b ! i = cstr b ! i"
  by (simp add: cstr_def takeWhile_nth)

lemma take_cstr: "n \<le> length (cstr b) \<Longrightarrow> take n b = take n (cstr b)"
  unfolding cstr_def by (metis min_absorb1 take_take takeWhile_eq_take)

lemma load_cstr [mem_simps]: "i < length (cstr b) \<Longrightarrow> load b i = Some (cstr b ! i)"
  by (metis cstr_def cstr_nth length_takeWhile_le load_eq order_less_le_trans)

lemma drop_wf_block:
  "wf_block b \<Longrightarrow> n \<le> length (cstr b) \<Longrightarrow> wf_block (drop n b) \<and> cstr (drop n b) = drop n (cstr b)"
  by (erule wf_block_split) (simp add: set_drop_sub)

lemma strdup_eq [mem_simps]:
  assumes "wf_block b" "n \<le> length (cstr b)"
  shows "strdup b n = Some (drop n (cstr b) @ [0])"
  using drop_wf_block [OF assms] by (simp add: strdup_def wf_block_def)

lemma strndup_eq [mem_simps]: "wf_block b \<Longrightarrow> strndup b n = Some (take n (cstr b) @ [0])"
  by (simp add: strndup_def wf_block_def)

section \<open>The option monad\<close>

lemma bind_SomeD: "Option.bind m f = Some y \<Longrightarrow> \<exists>x. m = Some x \<and> f x = Some y"
  by (auto simp: bind_eq_Some_conv)

lemma bind_Some_cases:
  assumes "Option.bind m f = Some y"
  obtains x where "m = Some x" and "f x = Some y"
  using assms by (auto simp: bind_eq_Some_conv)

text \<open>A partial operation that succeeds and whose result satisfies a predicate.\<close>

definition returns :: "'a option \<Rightarrow> ('a \<Rightarrow> bool) \<Rightarrow> bool" where
  "returns m Q \<longleftrightarrow> (\<exists>x. m = Some x \<and> Q x)"

lemma returns_Some [simp]: "returns (Some x) Q = Q x"
  by (simp add: returns_def)

lemma returns_None [simp]: "\<not> returns None Q"
  by (simp add: returns_def)

lemma returns_bind [simp]: "returns (Option.bind m f) Q = returns m (\<lambda>x. returns (f x) Q)"
  by (auto simp: returns_def bind_eq_Some_conv)

lemma returns_mono: "returns m P \<Longrightarrow> (\<And>x. P x \<Longrightarrow> Q x) \<Longrightarrow> returns m Q"
  by (auto simp: returns_def)

lemma returns_if [simp]:
  "returns (if c then a else b) Q = (if c then returns a Q else returns b Q)"
  by simp

lemma returnsD: "returns m Q \<Longrightarrow> m = Some x \<Longrightarrow> Q x"
  by (simp add: returns_def)

lemma returnsE:
  assumes "returns m Q"
  obtains x where "m = Some x" "Q x"
  using assms by (auto simp: returns_def)

end
