(* ===== verification/Growth.thy ===== *)
theory Growth
  imports Prelude
begin

text \<open>
  Arrays that grow by doubling: the ignore rules and the file list of \<open>src/finder.c\<close> and the span
  list and the output buffer of \<open>src/render.c\<close> all test whether the next element fits, double the
  capacity otherwise, and store behind the last one. The contract is stated once; each component
  interprets it for its own array.
\<close>

definition grown_cap :: "nat \<Rightarrow> nat \<Rightarrow> nat \<Rightarrow> nat" where
  "grown_cap first_cap cap needed =
     (if needed > cap then (if cap = 0 then first_cap else cap * 2) else cap)"

locale growing =
  fixes elems :: "'s \<Rightarrow> 'a list" and cap :: "'s \<Rightarrow> nat" and push :: "'s \<Rightarrow> 'a \<Rightarrow> 's" and first_cap :: nat
  assumes first_pos: "0 < first_cap"
    and elems_push: "elems (push s x) = elems s @ [x]"
    and cap_push: "cap (push s x) = grown_cap first_cap (cap s) (length (elems s) + 1)"
begin

definition fits_cap :: "'s \<Rightarrow> bool" where
  "fits_cap s \<longleftrightarrow> length (elems s) \<le> cap s"

lemma push_fits: "fits_cap s \<Longrightarrow> fits_cap (push s x)"
  using first_pos by (auto simp: fits_cap_def elems_push cap_push grown_cap_def)

text \<open>The store behind the last element is inside the array.\<close>

lemma push_in_bounds: "fits_cap s \<Longrightarrow> length (elems s) < cap (push s x)"
  using first_pos by (auto simp: fits_cap_def cap_push grown_cap_def)

lemma elems_foldl: "elems (foldl push s xs) = elems s @ xs"
  by (induction xs arbitrary: s) (simp_all add: elems_push)

lemma foldl_fits: "fits_cap s \<Longrightarrow> fits_cap (foldl push s xs)"
  by (induction xs arbitrary: s) (simp_all add: push_fits)

text \<open>The array never takes more than twice the room its elements need.\<close>

lemma push_tight:
  "cap s \<le> max first_cap (2 * length (elems s)) \<Longrightarrow>
   cap (push s x) \<le> max first_cap (2 * length (elems (push s x)))"
  by (auto simp: cap_push elems_push grown_cap_def)

end

end
