(* ===== verification/Utf8.thy ===== *)
theory Utf8
  imports Prelude
begin

text \<open>
  \<open>src/utf8.c\<close>: character boundaries of a UTF-8 line and the map between byte columns and
  screen columns. The C functions take a pointer and read it byte by byte, so the model's take a
  block and are \<open>None\<close> when a read leaves it; the lemmas relate them to functions on the text.
  A screen column counts bytes, with tab stops every eight columns, as the code does.
\<close>

section \<open>Boundaries\<close>

definition utf8_is_continuation :: "byte \<Rightarrow> bool" where
  "utf8_is_continuation ch \<longleftrightarrow> ch AND 0xc0 = 0x80"

function utf8_next_loop :: "block \<Rightarrow> nat \<Rightarrow> nat \<Rightarrow> nat option" where
  "utf8_next_loop line len col =
     (if col < len then do {
        ch \<leftarrow> load line col;
        if utf8_is_continuation ch then utf8_next_loop line len (col + 1) else Some col
      } else Some col)"
  by pat_completeness auto
termination
  by (relation "measure (\<lambda>(line, len, col). len - col)") auto

declare utf8_next_loop.simps [simp del]

definition utf8_next_boundary :: "block \<Rightarrow> nat \<Rightarrow> nat \<Rightarrow> nat option" where
  "utf8_next_boundary line len col =
     (if col \<ge> len then Some len else utf8_next_loop line len (col + 1))"

fun utf8_prev_loop :: "block \<Rightarrow> nat \<Rightarrow> nat option" where
  "utf8_prev_loop line 0 = Some 0"
| "utf8_prev_loop line (Suc c) = do {
     ch \<leftarrow> load line (Suc c);
     if utf8_is_continuation ch then utf8_prev_loop line c else Some (Suc c)
   }"

definition utf8_prev_boundary :: "block \<Rightarrow> nat \<Rightarrow> nat option" where
  "utf8_prev_boundary line col =
     (if col = 0 then Some 0 else utf8_prev_loop line (col - 1))"

definition utf8_clamp_col :: "block \<Rightarrow> nat \<Rightarrow> nat \<Rightarrow> nat option" where
  "utf8_clamp_col line len col = do {
     let col = (if col > len then len else col);
     if col > 0 \<and> col < len then do {
       ch \<leftarrow> load line col;
       if utf8_is_continuation ch then utf8_prev_boundary line col else Some col
     } else Some col
   }"

section \<open>Screen columns\<close>

definition tab_width_at :: "nat \<Rightarrow> nat" where
  "tab_width_at vis_col = 8 - (vis_col mod 8)"

text \<open>The loop of \<open>utf8_byte_to_vis_col\<close>: \<open>n\<close> is what is left of \<open>byte_col\<close>.\<close>

fun utf8_byte_to_vis_loop :: "block \<Rightarrow> nat \<Rightarrow> nat \<Rightarrow> nat \<Rightarrow> nat option" where
  "utf8_byte_to_vis_loop line 0 i vis_col = Some vis_col"
| "utf8_byte_to_vis_loop line (Suc n) i vis_col = do {
     ch \<leftarrow> load line i;
     if ch = 0 then Some vis_col
     else utf8_byte_to_vis_loop line n (i + 1)
            (if ch = 9 then vis_col + tab_width_at vis_col else vis_col + 1)
   }"

definition utf8_byte_to_vis_col :: "block \<Rightarrow> nat \<Rightarrow> nat option" where
  "utf8_byte_to_vis_col line byte_col = utf8_byte_to_vis_loop line byte_col 0 0"

function utf8_vis_to_byte_loop :: "block \<Rightarrow> nat \<Rightarrow> nat \<Rightarrow> nat \<Rightarrow> nat \<Rightarrow> nat option" where
  "utf8_vis_to_byte_loop line len vis_col current_vis byte_col =
     (if byte_col < len \<and> current_vis < vis_col then do {
        ch \<leftarrow> load line byte_col;
        if ch = 9 then
          (if current_vis + tab_width_at current_vis > vis_col then Some byte_col
           else utf8_vis_to_byte_loop line len vis_col
                  (current_vis + tab_width_at current_vis) (byte_col + 1))
        else utf8_vis_to_byte_loop line len vis_col (current_vis + 1) (byte_col + 1)
      } else Some byte_col)"
  by pat_completeness auto
termination
  by (relation "measure (\<lambda>(line, len, vis_col, current_vis, byte_col). len - byte_col)") auto

declare utf8_vis_to_byte_loop.simps [simp del]

definition utf8_vis_to_byte_col :: "block \<Rightarrow> nat \<Rightarrow> nat \<Rightarrow> nat option" where
  "utf8_vis_to_byte_col line len vis_col = utf8_vis_to_byte_loop line len vis_col 0 0"

section \<open>The same functions on a text\<close>

definition next_bnd :: "byte list \<Rightarrow> nat \<Rightarrow> nat" where
  "next_bnd s col =
     (if length s \<le> col then length s
      else Suc col + length (takeWhile utf8_is_continuation (drop (Suc col) s)))"

fun back_bnd :: "byte list \<Rightarrow> nat \<Rightarrow> nat" where
  "back_bnd s 0 = 0"
| "back_bnd s (Suc c) = (if utf8_is_continuation (s ! Suc c) then back_bnd s c else Suc c)"

definition prev_bnd :: "byte list \<Rightarrow> nat \<Rightarrow> nat" where
  "prev_bnd s col = (case col of 0 \<Rightarrow> 0 | Suc c \<Rightarrow> back_bnd s c)"

text \<open>A cursor position between two characters (or before or after a stray byte).\<close>

definition is_bnd :: "byte list \<Rightarrow> nat \<Rightarrow> bool" where
  "is_bnd s i \<longleftrightarrow> i = 0 \<or> i = length s \<or> (i < length s \<and> \<not> utf8_is_continuation (s ! i))"

lemma zero_not_continuation [simp]: "\<not> utf8_is_continuation 0"
  by (simp add: utf8_is_continuation_def)

lemma utf8_next_loop_eq:
  "len \<le> length b \<Longrightarrow> col \<le> len \<Longrightarrow>
   utf8_next_loop b len col =
     Some (col + length (takeWhile utf8_is_continuation (drop col (take len b))))"
proof (induction b len col rule: utf8_next_loop.induct)
  case (1 line len col)
  show ?case
  proof (cases "col < len")
    case True
    with 1(2) have "col < length (take len line)" by simp
    then have d: "drop col (take len line) = line ! col # drop (Suc col) (take len line)"
      by (metis Cons_nth_drop_Suc True nth_take)
    from True 1 show ?thesis
      by (subst utf8_next_loop.simps) (simp add: mem_simps d)
  qed (use 1 in \<open>simp add: utf8_next_loop.simps\<close>)
qed

lemma utf8_next_boundary_eq [mem_simps]:
  "len \<le> length b \<Longrightarrow> utf8_next_boundary b len col = Some (next_bnd (take len b) col)"
  by (simp add: utf8_next_boundary_def utf8_next_loop_eq next_bnd_def)

lemma utf8_prev_loop_eq: "c < length b \<or> c = 0 \<Longrightarrow> utf8_prev_loop b c = Some (back_bnd b c)"
  by (induction b c rule: utf8_prev_loop.induct) (auto simp: mem_simps)

lemma utf8_prev_boundary_eq [mem_simps]:
  "col \<le> length b \<Longrightarrow> utf8_prev_boundary b col = Some (prev_bnd b col)"
  by (cases col) (auto simp: utf8_prev_boundary_def prev_bnd_def utf8_prev_loop_eq)

lemma utf8_prev_boundary_None:
  "length b + 2 \<le> col \<Longrightarrow> utf8_prev_boundary b col = None"
  by (cases "col - 1") (auto simp: utf8_prev_boundary_def load_def)

lemma back_bnd_le: "back_bnd s c \<le> c"
  by (induction s c rule: back_bnd.induct) auto

lemma back_bnd_cong: "(\<And>i. i \<le> c \<Longrightarrow> s ! i = t ! i) \<Longrightarrow> back_bnd s c = back_bnd t c"
  by (induction s c rule: back_bnd.induct) auto

lemma back_bnd_stop: "back_bnd s c = 0 \<or> \<not> utf8_is_continuation (s ! back_bnd s c)"
  by (induction s c rule: back_bnd.induct) auto

lemma back_bnd_between: "back_bnd s c < i \<Longrightarrow> i \<le> c \<Longrightarrow> utf8_is_continuation (s ! i)"
  by (induction s c rule: back_bnd.induct) (auto split: if_splits simp: le_Suc_eq)

lemma prev_bnd_less: "0 < col \<Longrightarrow> prev_bnd s col < col"
  by (cases col) (auto simp: prev_bnd_def less_Suc_eq_le back_bnd_le)

lemma prev_bnd_le: "prev_bnd s col \<le> col"
  by (cases col) (auto simp: prev_bnd_def intro: le_SucI back_bnd_le)

lemma prev_bnd_cong: "(\<And>i. i < col \<Longrightarrow> s ! i = t ! i) \<Longrightarrow> prev_bnd s col = prev_bnd t col"
  by (cases col) (auto simp: prev_bnd_def intro: back_bnd_cong)

lemma prev_bnd_stop: "prev_bnd s col = 0 \<or> \<not> utf8_is_continuation (s ! prev_bnd s col)"
  using back_bnd_stop [of s "col - 1"] by (cases col) (auto simp: prev_bnd_def)

lemma prev_bnd_between: "prev_bnd s col < i \<Longrightarrow> i < col \<Longrightarrow> utf8_is_continuation (s ! i)"
  by (cases col) (auto simp: prev_bnd_def less_Suc_eq_le intro: back_bnd_between)

lemma prev_bnd_cstr: "col \<le> length (cstr b) \<Longrightarrow> prev_bnd b col = prev_bnd (cstr b) col"
  by (rule prev_bnd_cong) (simp add: cstr_nth)

lemma next_bnd_le: "next_bnd s col \<le> length s"
  using length_takeWhile_le [of utf8_is_continuation "drop (Suc col) s"]
  by (auto simp: next_bnd_def)

lemma next_bnd_greater: "col < length s \<Longrightarrow> col < next_bnd s col"
  by (simp add: next_bnd_def)

lemma next_bnd_between:
  assumes "col < i" "i < next_bnd s col"
  shows "utf8_is_continuation (s ! i)"
proof -
  let ?d = "drop (Suc col) s"
  have i: "i < length s" using assms(2) next_bnd_le [of s col] by simp
  with assms have "i - Suc col < length (takeWhile utf8_is_continuation ?d)"
    by (auto simp: next_bnd_def split: if_splits)
  then have "utf8_is_continuation (?d ! (i - Suc col))"
    by (metis nth_mem set_takeWhileD takeWhile_nth)
  with assms(1) i show ?thesis by (simp add: Suc_le_eq)
qed

lemma next_bnd_stop: "next_bnd s col < length s \<Longrightarrow> \<not> utf8_is_continuation (s ! next_bnd s col)"
proof -
  let ?d = "drop (Suc col) s" and ?n = "length (takeWhile utf8_is_continuation (drop (Suc col) s))"
  assume l: "next_bnd s col < length s"
  then have e: "next_bnd s col = Suc col + ?n" by (auto simp: next_bnd_def split: if_splits)
  with l have "?n < length ?d" by simp
  then have "\<not> utf8_is_continuation (?d ! ?n)" by (rule nth_length_takeWhile)
  with e l show ?thesis by simp
qed

section \<open>Stepping over characters\<close>

text \<open>
  What the editor relies on when it walks a line: the next position is the least stop to the
  right, the previous one the greatest stop to the left, so the two undo each other at a stop.
\<close>

locale char_steps =
  fixes nxt prv :: "nat \<Rightarrow> nat" and len :: nat and stop :: "nat \<Rightarrow> bool"
  assumes nxt_greater: "c < len \<Longrightarrow> c < nxt c"
    and nxt_le: "nxt c \<le> len"
    and nxt_stop: "stop (nxt c)"
    and nxt_least: "c < i \<Longrightarrow> i < nxt c \<Longrightarrow> \<not> stop i"
    and prv_less: "0 < c \<Longrightarrow> prv c < c"
    and prv_stop: "c \<le> len \<Longrightarrow> stop (prv c)"
    and prv_greatest: "c \<le> len \<Longrightarrow> prv c < i \<Longrightarrow> i < c \<Longrightarrow> \<not> stop i"
begin

lemma prv_nxt: "c < len \<Longrightarrow> stop c \<Longrightarrow> prv (nxt c) = c"
proof -
  assume a: "c < len" "stop c"
  have n: "c < nxt c" "nxt c \<le> len" using a nxt_greater nxt_le by auto
  have "\<not> prv (nxt c) < c" using prv_greatest [of "nxt c" c] a n by blast
  moreover have "\<not> c < prv (nxt c)"
    using nxt_least [of c "prv (nxt c)"] prv_stop [of "nxt c"] prv_less [of "nxt c"] n by auto
  ultimately show ?thesis by simp
qed

lemma nxt_prv: "0 < c \<Longrightarrow> c \<le> len \<Longrightarrow> stop c \<Longrightarrow> nxt (prv c) = c"
proof -
  assume a: "0 < c" "c \<le> len" "stop c"
  have p: "prv c < c" "prv c < len" using prv_less [of c] a by auto
  have "\<not> nxt (prv c) < c"
    using prv_greatest [of c "nxt (prv c)"] nxt_greater [of "prv c"] nxt_stop [of "prv c"] a p
    by blast
  moreover have "\<not> c < nxt (prv c)" using nxt_least [of "prv c" c] a p by blast
  ultimately show ?thesis by simp
qed

lemma nxt_mono: "c < len \<Longrightarrow> d \<le> c \<Longrightarrow> nxt d \<le> nxt c"
  using nxt_greater [of c] nxt_stop [of c] nxt_least [of d "nxt c"]
  by (metis le_less_trans not_le)

end

lemma next_bnd_is_bnd: "is_bnd s (next_bnd s c)"
  using next_bnd_le [of s c] next_bnd_stop [of s c] by (auto simp: is_bnd_def)

lemma prev_bnd_is_bnd: "c \<le> length s \<Longrightarrow> is_bnd s (prev_bnd s c)"
  using prev_bnd_le [of s c] prev_bnd_stop [of s c] by (auto simp: is_bnd_def)

interpretation utf8_steps: char_steps "next_bnd s" "prev_bnd s" "length s" "is_bnd s" for s
proof (unfold_locales, goal_cases)
  case (4 c i)
  then show ?case using next_bnd_between [of c i s] next_bnd_le [of s c] by (auto simp: is_bnd_def)
next
  case (7 c i)
  then show ?case using prev_bnd_between [of s c i] by (auto simp: is_bnd_def)
qed (auto intro: next_bnd_greater next_bnd_le next_bnd_is_bnd prev_bnd_less prev_bnd_is_bnd)

text \<open>\<open>utf8_clamp_col\<close> on the text of a line.\<close>

definition clamp_bnd :: "byte list \<Rightarrow> nat \<Rightarrow> nat" where
  "clamp_bnd s col =
     (if length s \<le> col then length s else if is_bnd s col then col else prev_bnd s col)"

lemma utf8_clamp_col_eq [mem_simps]:
  assumes "wf_block b"
  shows "utf8_clamp_col b (length (cstr b)) col = Some (clamp_bnd (cstr b) col)"
proof -
  let ?s = "cstr b" and ?c = "min (length (cstr b)) col"
  have c: "(if col > length ?s then length ?s else col) = ?c" by simp
  have p: "c \<le> length ?s \<Longrightarrow> utf8_prev_boundary b c = Some (prev_bnd ?s c)" for c
    using length_cstr_less [OF assms] by (simp add: mem_simps prev_bnd_cstr)
  show ?thesis
    unfolding utf8_clamp_col_def Let_def c
    by (auto simp: clamp_bnd_def is_bnd_def p load_cstr min_def)
qed

lemma clamp_bnd_le: "clamp_bnd s col \<le> length s"
  using prev_bnd_le [of s col] by (auto simp: clamp_bnd_def)

lemma clamp_bnd_is_bnd: "is_bnd s (clamp_bnd s col)"
  using prev_bnd_is_bnd [of col s] by (auto simp: clamp_bnd_def) (simp add: is_bnd_def)

text \<open>It is the last boundary up to the column.\<close>

lemma clamp_bnd_below: "clamp_bnd s col \<le> col"
  using prev_bnd_le [of s col] by (auto simp: clamp_bnd_def)

lemma clamp_bnd_greatest:
  assumes "is_bnd s i" "i \<le> col" "i \<le> length s"
  shows "i \<le> clamp_bnd s col"
proof (rule ccontr)
  assume n: "\<not> i \<le> clamp_bnd s col"
  then have c: "clamp_bnd s col = prev_bnd s col" "col < length s" "\<not> is_bnd s col"
    using assms by (auto simp: clamp_bnd_def split: if_splits)
  then have "i \<noteq> col" using assms(1) by auto
  then have "utf8_is_continuation (s ! i)"
    using prev_bnd_between [of s col i] n c(1) assms(2) by simp
  with assms(1,2) n c(2) show False by (simp add: is_bnd_def)
qed

section \<open>Screen columns of a text\<close>

definition vis_step :: "nat \<Rightarrow> byte \<Rightarrow> nat" where
  "vis_step v ch = (if ch = 9 then v + tab_width_at v else v + 1)"

definition vis_width :: "nat \<Rightarrow> byte list \<Rightarrow> nat" where
  "vis_width v s = foldl vis_step v s"

lemma tab_width_bounds: "1 \<le> tab_width_at v" "tab_width_at v \<le> 8"
  by (simp_all add: tab_width_at_def)

lemma tab_stop: "(v + tab_width_at v) mod 8 = 0"
  unfolding tab_width_at_def by presburger

lemma vis_step_greater: "v < vis_step v ch"
  using tab_width_bounds(1) [of v] by (simp add: vis_step_def)

lemma vis_width_Nil [simp]: "vis_width v [] = v"
  by (simp add: vis_width_def)

lemma vis_width_Cons [simp]: "vis_width v (ch # s) = vis_width (vis_step v ch) s"
  by (simp add: vis_width_def)

lemma vis_width_append [simp]: "vis_width v (s @ t) = vis_width (vis_width v s) t"
  by (simp add: vis_width_def)

lemma vis_width_ge: "v + length s \<le> vis_width v s"
proof (induction s arbitrary: v)
  case (Cons a s)
  show ?case using Cons [of "vis_step v a"] vis_step_greater [of v a] by simp
qed simp

lemma vis_width_take_add:
  "i \<le> j \<Longrightarrow> vis_width v (take j s) = vis_width (vis_width v (take i s)) (take (j - i) (drop i s))"
  by (metis le_add_diff_inverse take_add vis_width_append)

lemma vis_width_take_mono: "i \<le> j \<Longrightarrow> vis_width v (take i s) \<le> vis_width v (take j s)"
  using vis_width_ge [of "vis_width v (take i s)" "take (j - i) (drop i s)"]
  by (simp add: vis_width_take_add [of i j])

lemma vis_width_take_strict:
  "i < j \<Longrightarrow> j \<le> length s \<Longrightarrow> vis_width v (take i s) + (j - i) \<le> vis_width v (take j s)"
  using vis_width_ge [of "vis_width v (take i s)" "take (j - i) (drop i s)"]
  by (simp add: vis_width_take_add [of i j])

lemma utf8_byte_to_vis_loop_eq:
  assumes "wf_block b"
  shows "i \<le> length (cstr b) \<Longrightarrow>
    utf8_byte_to_vis_loop b n i v = Some (vis_width v (take n (drop i (cstr b))))"
proof (induction n arbitrary: i v)
  case (Suc n)
  show ?case
  proof (cases "i < length (cstr b)")
    case True
    then have "cstr b ! i \<noteq> 0" by (metis cstr_no_nul nth_mem)
    moreover have "drop i (cstr b) = cstr b ! i # drop (Suc i) (cstr b)"
      using True by (simp add: Cons_nth_drop_Suc)
    ultimately show ?thesis using Suc.IH [of "Suc i"] True
      by (simp add: mem_simps vis_step_def)
  next
    case False
    with Suc.prems have e: "i = length (cstr b)" by simp
    from assms have "load b i = Some 0" unfolding e
      by (elim wf_block_split) (simp add: load_def)
    with e show ?thesis by simp
  qed
qed simp

lemma utf8_byte_to_vis_col_eq [mem_simps]:
  "wf_block b \<Longrightarrow> utf8_byte_to_vis_col b col = Some (vis_width 0 (take col (cstr b)))"
  by (simp add: utf8_byte_to_vis_col_def utf8_byte_to_vis_loop_eq)

text \<open>
  \<open>fits s v k\<close>: \<open>k\<close> bytes of the text are the longest prefix that ends at or before screen
  column \<open>v\<close>. There is exactly one such \<open>k\<close>.
\<close>

definition fits :: "byte list \<Rightarrow> nat \<Rightarrow> nat \<Rightarrow> bool" where
  "fits s v k \<longleftrightarrow> k \<le> length s \<and> vis_width 0 (take k s) \<le> v \<and>
     (k < length s \<longrightarrow> v < vis_width 0 (take (Suc k) s))"

lemma fits_unique: "fits s v k \<Longrightarrow> fits s v l \<Longrightarrow> k = l"
proof (induction k l rule: linorder_wlog)
  case (le k l)
  show ?case
  proof (rule ccontr)
    assume "k \<noteq> l"
    with le have "Suc k \<le> l" by simp
    then have "vis_width 0 (take (Suc k) s) \<le> vis_width 0 (take l s)"
      by (rule vis_width_take_mono)
    with le \<open>k \<noteq> l\<close> show False by (simp add: fits_def)
  qed
qed (metis)

lemma utf8_vis_to_byte_loop_fits:
  assumes "wf_block b"
  shows "cur = vis_width 0 (take k (cstr b)) \<Longrightarrow> k \<le> length (cstr b) \<Longrightarrow> cur \<le> v \<Longrightarrow>
    returns (utf8_vis_to_byte_loop b (length (cstr b)) v cur k) (fits (cstr b) v)"
proof (induction b "length (cstr b)" v cur k rule: utf8_vis_to_byte_loop.induct)
  case (1 line v cur k)
  show ?case
  proof (cases "k < length (cstr line) \<and> cur < v")
    case True
    then have t: "take (Suc k) (cstr line) = take k (cstr line) @ [cstr line ! k]"
      by (simp add: take_Suc_conv_app_nth)
    show ?thesis
      using True 1 t
      by (subst utf8_vis_to_byte_loop.simps) (auto simp: mem_simps vis_step_def fits_def)
  next
    case False
    moreover have "k < length (cstr line) \<Longrightarrow> vis_width 0 (take k (cstr line)) < vis_width 0 (take (Suc k) (cstr line))"
      using vis_width_take_strict [of k "Suc k" "cstr line" 0] by simp
    ultimately show ?thesis
      using 1 by (subst utf8_vis_to_byte_loop.simps) (auto simp: fits_def)
  qed
qed

lemma utf8_vis_to_byte_col_fits:
  "wf_block b \<Longrightarrow> returns (utf8_vis_to_byte_col b (length (cstr b)) v) (fits (cstr b) v)"
  by (simp add: utf8_vis_to_byte_col_def utf8_vis_to_byte_loop_fits)

lemma utf8_vis_to_byte_colI:
  "wf_block b \<Longrightarrow> fits (cstr b) v k \<Longrightarrow> utf8_vis_to_byte_col b (length (cstr b)) v = Some k"
  using utf8_vis_to_byte_col_fits [of b v] by (auto simp: returns_def dest: fits_unique)

end
