(* ===== verification/Text.thy ===== *)
theory Text
  imports Prelude
begin

text \<open>
  The abstract view of a buffer: its text as a list of lines, and as one string with newlines
  between them. Every edit of \<open>src/buffer.c\<close> is one of two splices of that string, and the
  lemmas here say so for the lists of lines the C functions produce.
\<close>

section \<open>Lines and the string they make\<close>

definition nl :: byte where
  "nl = 10"

fun flat :: "byte list list \<Rightarrow> byte list" where
  "flat [] = []"
| "flat [l] = l"
| "flat (l # k # ls) = l @ nl # flat (k # ls)"

definition before :: "byte list list \<Rightarrow> byte list" where
  "before A = concat (map (\<lambda>l. l @ [nl]) A)"

definition after :: "byte list list \<Rightarrow> byte list" where
  "after B = concat (map (\<lambda>l. nl # l) B)"

lemma before_simps [simp]: "before [] = []" "before (l # A) = l @ nl # before A"
  "before (A @ B) = before A @ before B"
  by (simp_all add: before_def)

lemma after_simps [simp]: "after [] = []" "after (l # B) = nl # l @ after B"
  "after (A @ B) = after A @ after B"
  by (simp_all add: after_def)

lemma flat_split: "flat (A @ l # B) = before A @ l @ after B"
proof (induction A)
  case Nil
  show ?case by (induction B arbitrary: l) auto
next
  case (Cons k A)
  then show ?case by (cases A) auto
qed

lemma flat_inj:
  "T \<noteq> [] \<Longrightarrow> U \<noteq> [] \<Longrightarrow> \<forall>l\<in>set T. nl \<notin> set l \<Longrightarrow> \<forall>l\<in>set U. nl \<notin> set l \<Longrightarrow>
   flat T = flat U \<Longrightarrow> T = U"
proof (induction T arbitrary: U rule: flat.induct)
  case (2 l)
  then show ?case by (cases U rule: flat.cases) auto
next
  case (3 l k ls)
  show ?case
  proof (cases U rule: flat.cases)
    case (2 m)
    with "3.prems" show ?thesis by auto
  next
    case (3 m j ms)
    from "3.prems" 3 have e: "l @ nl # flat (k # ls) = m @ nl # flat (j # ms)"
      and n: "nl \<notin> set l" "nl \<notin> set m" by auto
    then have "l = m" by (metis takeWhile_notin)
    with e have "l = m \<and> flat (k # ls) = flat (j # ms)" by simp
    with "3.prems" 3 "3.IH" [of "j # ms"] show ?thesis by auto
  qed (use "3.prems" in auto)
qed simp

definition offset :: "byte list list \<Rightarrow> nat \<Rightarrow> nat \<Rightarrow> nat" where
  "offset T row col = length (before (take row T)) + col"

text \<open>A position of the text: a row that exists and a column within it.\<close>

definition in_text :: "byte list list \<Rightarrow> nat \<Rightarrow> nat \<Rightarrow> bool" where
  "in_text T row col \<longleftrightarrow> row < length T \<and> col \<le> length (T ! row)"

lemma split_at:
  assumes "row < length T"
  obtains A l B where "T = A @ l # B" "length A = row" "T ! row = l" "take row T = A"
    "drop (Suc row) T = B"
  using assms id_take_nth_drop [of row T] by fastforce

section \<open>Splices\<close>

definition ins :: "nat \<Rightarrow> byte list \<Rightarrow> byte list \<Rightarrow> byte list" where
  "ins i xs s = take i s @ xs @ drop i s"

definition del :: "nat \<Rightarrow> nat \<Rightarrow> byte list \<Rightarrow> byte list" where
  "del i j s = take i s @ drop j s"

definition slice :: "nat \<Rightarrow> nat \<Rightarrow> byte list \<Rightarrow> byte list" where
  "slice i j s = take (j - i) (drop i s)"

lemma ins_Nil [simp]: "ins i [] s = s"
  by (simp add: ins_def)

lemma ins_append: "i \<le> length s \<Longrightarrow> ins (i + length xs) ys (ins i xs s) = ins i (xs @ ys) s"
  by (simp add: ins_def)

lemma ins_slice_del: "i \<le> j \<Longrightarrow> j \<le> length s \<Longrightarrow> ins i (slice i j s) (del i j s) = s"
  by (simp add: ins_def slice_def del_def)
     (metis append_take_drop_id drop_drop le_add_diff_inverse2)

lemma del_ins: "i \<le> length s \<Longrightarrow> del i (i + length xs) (ins i xs s) = s"
  by (simp add: ins_def del_def)

text \<open>The two shapes of an edit: within one line, and over several.\<close>

lemma flat_ins:
  assumes "T = A @ l # B" "row = length A" "col \<le> length l"
  shows "flat (A @ (take col l @ xs @ drop col l) # B) = ins (offset T row col) xs (flat T)"
  using assms by (simp add: flat_split ins_def offset_def)

lemma flat_break:
  assumes "T = A @ l # B" "row = length A" "col \<le> length l"
  shows "flat (A @ take col l # drop col l # B) = ins (offset T row col) [nl] (flat T)"
  using assms flat_split [of "A @ [take col l]" "drop col l" B]
  by (simp add: flat_split ins_def offset_def)

lemma flat_cut:
  assumes "T = A @ l # B" "row = length A" "i \<le> j" "j \<le> length l"
  shows "flat (A @ (take i l @ drop j l) # B) =
    del (offset T row i) (offset T row j) (flat T)"
  using assms by (simp add: flat_split del_def offset_def)

lemma flat_cut_rows:
  assumes "T = A @ l # M @ k # B" "sr = length A" "er = length A + Suc (length M)"
    "i \<le> length l" "j \<le> length k"
  shows "flat (A @ (take i l @ drop j k) # B) = del (offset T sr i) (offset T er j) (flat T)"
proof -
  have "flat T = before A @ l @ nl # before M @ k @ after B"
    using assms(1) flat_split [of "A @ l # M" k B] by simp
  moreover have "offset T sr i = length (before A) + i"
    "offset T er j = length (before A) + length l + Suc (length (before M)) + j"
    using assms by (simp_all add: offset_def)
  moreover have "flat (A @ (take i l @ drop j k) # B) = before A @ take i l @ drop j k @ after B"
    by (simp add: flat_split)
  ultimately show ?thesis using assms(4,5) by (simp add: del_def)
qed

lemma offset_Suc_row:
  "Suc row < length T \<Longrightarrow> offset T (Suc row) 0 = offset T row (length (T ! row)) + 1"
  by (simp add: offset_def take_Suc_conv_app_nth)

lemma offset_le_length: "in_text T row col \<Longrightarrow> offset T row col \<le> length (flat T)"
proof -
  assume a: "in_text T row col"
  then have "row < length T" by (simp add: in_text_def)
  then obtain A l B where s: "T = A @ l # B" "length A = row" "T ! row = l" "take row T = A"
    by (rule split_at)
  with a show ?thesis by (simp add: flat_split offset_def in_text_def)
qed

end
