(* ===== verification/Buffer.thy ===== *)
theory Buffer
  imports Utf8 Text
begin

text \<open>
  \<open>src/buffer.h\<close> and the editing half of \<open>src/buffer.c\<close>: the buffer record and the operations
  that change its lines. A line is the heap block the C code holds for it, terminating NUL and
  whatever follows it included: deletions move bytes down inside the block and leave the tail
  behind. \<open>b_lines\<close> holds the first \<open>line_count\<close> entries of the array of line pointers and
  \<open>b_slots\<close> the number of entries that array has room for.
  The tree-sitter objects are kept as what the editor can observe of them: whether the parser and
  the query exist, and the text the current tree was parsed from.
\<close>

section \<open>The buffer and its operations\<close>

datatype buffer_mode = C_MODE | MAKEFILE_MODE

record buffer =
  b_lines :: "block list"
  b_slots :: nat
  b_file_path :: "byte list option"
  b_mode :: buffer_mode
  b_syntax_enabled :: bool
  b_syntax_dirty :: bool
  b_ts_parser :: bool
  b_ts_tree :: "byte list option"
  b_ts_query :: bool

abbreviation line_count :: "buffer \<Rightarrow> nat" where
  "line_count buf \<equiv> length (b_lines buf)"

definition load_line :: "buffer \<Rightarrow> nat \<Rightarrow> block option" where
  "load_line buf row = (if row < line_count buf then Some (b_lines buf ! row) else None)"

definition set_line :: "buffer \<Rightarrow> nat \<Rightarrow> block \<Rightarrow> buffer" where
  "set_line buf row b = buf\<lparr>b_lines := (b_lines buf)[row := b]\<rparr>"

definition buffer_init :: buffer where
  "buffer_init = \<lparr>b_lines = [[0]], b_slots = 1, b_file_path = None, b_mode = C_MODE,
     b_syntax_enabled = False, b_syntax_dirty = False,
     b_ts_parser = False, b_ts_tree = None, b_ts_query = False\<rparr>"

text \<open>A freed line, path, tree, query or parser is one that is not there any more.\<close>

definition buffer_free :: "buffer \<Rightarrow> buffer" where
  "buffer_free buf = buf\<lparr>b_lines := [], b_slots := 0, b_file_path := None,
     b_ts_parser := False, b_ts_tree := None, b_ts_query := False\<rparr>"

text \<open>\<open>buffer_init\<close> assigns every member, whatever \<open>buffer_free\<close> has left.\<close>

definition buffer_clear :: "buffer \<Rightarrow> buffer" where
  "buffer_clear buf = buffer_init"

definition line_length :: "buffer \<Rightarrow> nat \<Rightarrow> nat option" where
  "line_length buf row =
     (if row \<ge> line_count buf then Some 0
      else do { line \<leftarrow> load_line buf row; strlen line })"

definition buffer_append_line :: "buffer \<Rightarrow> block \<Rightarrow> buffer option" where
  "buffer_append_line buf line = do {
     copy \<leftarrow> strdup line 0;
     Some (buf\<lparr>b_lines := b_lines buf @ [copy], b_slots := line_count buf + 1\<rparr>)
   }"

definition buffer_insert_char :: "buffer \<Rightarrow> nat \<Rightarrow> nat \<Rightarrow> byte \<Rightarrow> buffer option" where
  "buffer_insert_char buf row col ch =
     (if row \<ge> line_count buf then Some buf
      else do {
        len \<leftarrow> line_length buf row;
        let col = (if col > len then len else col);
        line \<leftarrow> load_line buf row;
        let updated = realloc line (len + 2);
        updated \<leftarrow> memmove updated (col + 1) col (len - col + 1);
        updated \<leftarrow> store updated col ch;
        Some (set_line buf row updated)
      })"

definition buffer_insert_newline :: "buffer \<Rightarrow> nat \<Rightarrow> nat \<Rightarrow> buffer option" where
  "buffer_insert_newline buf row col =
     (if row \<ge> line_count buf then Some buf
      else do {
        len \<leftarrow> line_length buf row;
        let col = (if col > len then len else col);
        line \<leftarrow> load_line buf row;
        left \<leftarrow> strndup line col;
        right \<leftarrow> strdup line col;
        let rows = (b_lines buf)[row := left];
        Some (buf\<lparr>b_lines := take (row + 1) rows @ right # drop (row + 1) rows,
                  b_slots := line_count buf + 1\<rparr>)
      })"

definition buffer_insert_tab :: "buffer \<Rightarrow> nat \<Rightarrow> nat \<Rightarrow> buffer option" where
  "buffer_insert_tab buf row col =
     (if b_mode buf = MAKEFILE_MODE then buffer_insert_char buf row col 9
      else do {
        buf \<leftarrow> buffer_insert_char buf row col 32;
        buffer_insert_char buf row (col + 1) 32
      })"

text \<open>
  Joining row \<open>row + 1\<close> onto row \<open>row\<close>, the code \<open>buffer_delete_char\<close>, \<open>buffer_delete_forward\<close> and
  \<open>editor_kill_newline_and_next\<close> have in common: grow the first block, copy the second line with
  its NUL behind the first, drop the second pointer.
\<close>

definition join_rows :: "buffer \<Rightarrow> nat \<Rightarrow> buffer option" where
  "join_rows buf row = do {
     len \<leftarrow> line_length buf row;
     next_len \<leftarrow> line_length buf (row + 1);
     line \<leftarrow> load_line buf row;
     next \<leftarrow> load_line buf (row + 1);
     merged \<leftarrow> memcpy (realloc line (len + next_len + 1)) len next 0 (next_len + 1);
     let rows = (b_lines buf)[row := merged];
     Some (buf\<lparr>b_lines := take (row + 1) rows @ drop (row + 2) rows\<rparr>)
   }"

definition buffer_delete_char :: "buffer \<Rightarrow> nat \<Rightarrow> nat \<Rightarrow> buffer option" where
  "buffer_delete_char buf row col =
     (if row \<ge> line_count buf then Some buf
      else if col = 0 then
        (if row = 0 then Some buf else join_rows buf (row - 1))
      else do {
        len \<leftarrow> line_length buf row;
        let col = (if col > len then len else col);
        line \<leftarrow> load_line buf row;
        start \<leftarrow> utf8_prev_boundary line col;
        line \<leftarrow> memmove line start col (len - col + 1);
        Some (set_line buf row line)
      })"

definition buffer_delete_forward :: "buffer \<Rightarrow> nat \<Rightarrow> nat \<Rightarrow> buffer option" where
  "buffer_delete_forward buf row col =
     (if row \<ge> line_count buf then Some buf
      else do {
        len \<leftarrow> line_length buf row;
        let col = (if col > len then len else col);
        if col = len then
          (if row + 1 \<ge> line_count buf then Some buf else join_rows buf row)
        else do {
          line \<leftarrow> load_line buf row;
          next \<leftarrow> utf8_next_boundary line len col;
          line \<leftarrow> memmove line col next (len - next + 1);
          Some (set_line buf row line)
        }
      })"

definition buffer_delete_range :: "buffer \<Rightarrow> nat \<Rightarrow> nat \<Rightarrow> nat \<Rightarrow> buffer option" where
  "buffer_delete_range buf row start end =
     (if row \<ge> line_count buf then Some buf
      else do {
        len \<leftarrow> line_length buf row;
        let start = (if start > len then len else start);
        let end = (if end > len then len else end);
        if end \<le> start then Some buf
        else do {
          line \<leftarrow> load_line buf row;
          line \<leftarrow> memmove line start end (len - end + 1);
          Some (set_line buf row line)
        }
      })"

text \<open>\<open>buffer_delete_region\<close> after its swap: \<open>(sr, sc)\<close> is not behind \<open>(er, ec)\<close>.\<close>

definition buffer_delete_ordered ::
  "buffer \<Rightarrow> nat \<Rightarrow> nat \<Rightarrow> nat \<Rightarrow> nat \<Rightarrow> buffer option" where
  "buffer_delete_ordered buf start_row start_col end_row end_col =
     (if start_row = end_row then buffer_delete_range buf start_row start_col end_col
      else do {
        start_len \<leftarrow> line_length buf start_row;
        let start_col = (if start_col > start_len then start_len else start_col);
        end_len \<leftarrow> line_length buf end_row;
        let end_col = (if end_col > end_len then end_len else end_col);
        end_line \<leftarrow> load_line buf end_row;
        end_tail \<leftarrow> strdup end_line end_col;
        start_line \<leftarrow> load_line buf start_row;
        start_line \<leftarrow> store start_line start_col 0;
        tail_len \<leftarrow> strlen end_tail;
        merged \<leftarrow> memcpy (realloc start_line (start_col + tail_len + 1)) start_col
                    end_tail 0 (tail_len + 1);
        let rows = (b_lines buf)[start_row := merged];
        Some (buf\<lparr>b_lines := take (start_row + 1) rows @ drop (end_row + 1) rows\<rparr>)
      })"

definition buffer_delete_region ::
  "buffer \<Rightarrow> nat \<Rightarrow> nat \<Rightarrow> nat \<Rightarrow> nat \<Rightarrow> buffer option" where
  "buffer_delete_region buf start_row start_col end_row end_col =
     (if start_row \<ge> line_count buf \<or> end_row \<ge> line_count buf then Some buf
      else if start_row > end_row \<or> (start_row = end_row \<and> start_col > end_col)
      then buffer_delete_ordered buf end_row end_col start_row start_col
      else buffer_delete_ordered buf start_row start_col end_row end_col)"

section \<open>Well-formed buffers and their text\<close>

definition wf_buffer :: "buffer \<Rightarrow> bool" where
  "wf_buffer buf \<longleftrightarrow> b_lines buf \<noteq> [] \<and> (\<forall>b\<in>set (b_lines buf). wf_block b) \<and>
     line_count buf \<le> b_slots buf"

definition texts :: "buffer \<Rightarrow> byte list list" where
  "texts buf = map cstr (b_lines buf)"

definition ltext :: "buffer \<Rightarrow> nat \<Rightarrow> byte list" where
  "ltext buf row = cstr (b_lines buf ! row)"

lemma length_texts [simp]: "length (texts buf) = line_count buf"
  by (simp add: texts_def)

lemma texts_nth [simp]: "row < line_count buf \<Longrightarrow> texts buf ! row = ltext buf row"
  by (simp add: texts_def ltext_def)

lemma texts_no_nul: "l \<in> set (texts buf) \<Longrightarrow> 0 \<notin> set l"
  by (auto simp: texts_def)

lemma ltext_no_nul [simp]: "0 \<notin> set (ltext buf row)"
  by (simp add: ltext_def)

lemma wf_buffer_line: "wf_buffer buf \<Longrightarrow> row < line_count buf \<Longrightarrow> wf_block (b_lines buf ! row)"
  by (simp add: wf_buffer_def)

lemma wf_buffer_count: "wf_buffer buf \<Longrightarrow> 0 < line_count buf"
  by (simp add: wf_buffer_def)

lemma load_line_eq [mem_simps]: "row < line_count buf \<Longrightarrow> load_line buf row = Some (b_lines buf ! row)"
  by (simp add: load_line_def)

lemma line_length_eq [mem_simps]:
  "wf_buffer buf \<Longrightarrow> row < line_count buf \<Longrightarrow> line_length buf row = Some (length (ltext buf row))"
  by (simp add: line_length_def load_line_def mem_simps wf_buffer_line ltext_def)

lemma line_length_beyond [mem_simps]: "line_count buf \<le> row \<Longrightarrow> line_length buf row = Some 0"
  by (simp add: line_length_def)

lemma line_count_set_line [simp]: "line_count (set_line buf row b) = line_count buf"
  by (simp add: set_line_def)

lemma wf_set_line [wf_intros]: "wf_buffer buf \<Longrightarrow> wf_block b \<Longrightarrow> wf_buffer (set_line buf row b)"
  by (auto simp: wf_buffer_def set_line_def dest!: set_update_subset_insert [THEN subsetD])

lemma texts_set_line [simp]: "texts (set_line buf row b) = (texts buf)[row := cstr b]"
  by (simp add: texts_def set_line_def map_update)

lemma wf_buffer_init [wf_intros]: "wf_buffer buffer_init"
  by (simp add: wf_buffer_def buffer_init_def wf_block_def)

text \<open>A buffer whose lines were replaced.\<close>

lemma wf_lines_update [wf_intros]:
  "\<forall>b\<in>set L. wf_block b \<Longrightarrow> L \<noteq> [] \<Longrightarrow> length L \<le> n \<Longrightarrow>
   wf_buffer (buf\<lparr>b_lines := L, b_slots := n\<rparr>)"
  by (simp add: wf_buffer_def)

lemma wf_lines_update' [wf_intros]:
  "\<forall>b\<in>set L. wf_block b \<Longrightarrow> L \<noteq> [] \<Longrightarrow> length L \<le> b_slots buf \<Longrightarrow>
   wf_buffer (buf\<lparr>b_lines := L\<rparr>)"
  by (simp add: wf_buffer_def)

section \<open>What each operation computes\<close>

text \<open>
  Removing bytes \<open>i\<close> to \<open>j\<close> of the string in a block by moving the rest of it, NUL included, down:
  the bytes past the new NUL keep their old values.
\<close>

definition cut_block :: "block \<Rightarrow> nat \<Rightarrow> nat \<Rightarrow> block" where
  "cut_block b i j = take i (cstr b) @ drop j (cstr b) @
     0 # drop (Suc (i + (length (cstr b) - j))) b"

lemma memmove_cut [mem_simps]:
  assumes "wf_block b" "i \<le> j" "j \<le> length (cstr b)"
  shows "memmove b i j (Suc (length (cstr b) - j)) = Some (cut_block b i j)"
proof -
  obtain s r where b: "b = s @ 0 # r" "0 \<notin> set s" "cstr b = s"
    using wf_block_split [OF assms(1)] by metis
  have "take (Suc (length s - j)) (drop j (s @ 0 # r)) = drop j s @ [0]"
    using assms(3) b by simp
  with assms b show ?thesis by (simp add: memmove_def cut_block_def)
qed

lemma cstr_cut_block [simp]: "cstr (cut_block b i j) = take i (cstr b) @ drop j (cstr b)"
  unfolding cut_block_def append_assoc [symmetric]
  by (rule cstr_append_nul) (simp add: set_take_sub set_drop_sub)

lemma wf_cut_block [simp, wf_intros]: "wf_block (cut_block b i j)"
  by (simp add: cut_block_def wf_block_def)

lemma length_cut_block:
  "wf_block b \<Longrightarrow> i \<le> j \<Longrightarrow> j \<le> length (cstr b) \<Longrightarrow> length (cut_block b i j) = length b"
  using length_cstr_less [of b] by (simp add: cut_block_def)

text \<open>The same cut on a block that \<open>realloc\<close> grew, with one byte put in: an insertion.\<close>

lemma realloc_insert:
  assumes "wf_block b" "c \<le> length (cstr b)"
  shows "Option.bind (memmove (realloc_with j b (Suc (Suc (length (cstr b))))) (Suc c) c
             (Suc (length (cstr b) - c))) (\<lambda>u. Option.bind (store u c ch) f) =
    f (take c (cstr b) @ ch # drop c (cstr b) @ [0])"
proof -
  obtain s r where b: "b = s @ 0 # r" "0 \<notin> set s" "cstr b = s"
    using wf_block_split [OF assms(1)] by metis
  obtain x where re: "realloc_with j b (Suc (Suc (length s))) = s @ [0, x]"
    using b by (cases r) (auto simp: realloc_with_def)
  have m: "memmove (s @ [0, x]) (Suc c) c (Suc (length s - c)) =
      Some (take (Suc c) (s @ [0]) @ drop c s @ [0])"
    using assms(2) b by (cases "c = length s") (simp_all add: memmove_def)
  have c: "c < length (take (Suc c) (s @ [0]))" using assms(2) b by simp
  have "(take (Suc c) (s @ [0]))[c := ch] = take c s @ [ch]"
    using assms(2) b take_Suc_update [of c "s @ [0]" ch] by simp
  then have "store (take (Suc c) (s @ [0]) @ drop c s @ [0]) c ch = Some (take c s @ ch # drop c s @ [0])"
    unfolding store_def list_update_append1 [OF c] using c by simp
  then show ?thesis
    unfolding b(3) re m by simp
qed

lemma min_clip: "(if col > len then len else col) = min col (len :: nat)"
  by simp

lemma buffer_insert_char_eq:
  assumes "wf_buffer buf" "row < line_count buf"
  shows "buffer_insert_char buf row col ch =
    (let s = ltext buf row; c = min col (length s)
     in Some (set_line buf row (take c s @ ch # drop c s @ [0])))"
proof -
  let ?s = "ltext buf row"
  let ?c = "min col (length ?s)"
  have wf: "wf_block (b_lines buf ! row)" using assms by (rule wf_buffer_line)
  show ?thesis
    using assms realloc_insert [OF wf, of ?c, folded ltext_def]
    unfolding buffer_insert_char_def Let_def min_clip
    by (simp add: line_length_eq load_line_eq)
qed

lemma take_Suc_list_update:
  "row < length L \<Longrightarrow> take (Suc row) (L[row := l]) = take row L @ [l]"
  by (simp add: take_Suc_conv_app_nth)

lemma buffer_insert_newline_eq:
  assumes "wf_buffer buf" "row < line_count buf"
  shows "buffer_insert_newline buf row col =
    (let s = ltext buf row; c = min col (length s)
     in Some (buf\<lparr>b_lines := take row (b_lines buf) @ [take c s @ [0], drop c s @ [0]] @
                     drop (row + 1) (b_lines buf),
                  b_slots := line_count buf + 1\<rparr>))"
proof -
  let ?s = "ltext buf row"
  let ?c = "min col (length ?s)"
  have wf: "wf_block (b_lines buf ! row)" using assms by (rule wf_buffer_line)
  have "strdup (b_lines buf ! row) ?c = Some (drop ?c ?s @ [0])"
    "strndup (b_lines buf ! row) ?c = Some (take ?c ?s @ [0])"
    using wf by (simp_all add: strdup_eq strndup_eq ltext_def)
  with assms show ?thesis
    unfolding buffer_insert_newline_def Let_def min_clip
    by (simp add: line_length_eq load_line_eq take_Suc_list_update)
qed

lemma line_split:
  assumes "wf_buffer buf" "row < line_count buf"
  obtains r where "b_lines buf ! row = ltext buf row @ 0 # r"
  using wf_block_split [OF wf_buffer_line [OF assms]] by (metis ltext_def)

text \<open>A string grown in place by another one copied behind it.\<close>

lemma memcpy_tail:
  "memcpy (realloc_with x (p @ 0 # r) (Suc (length p + length t))) (length p)
     (t @ 0 # r') 0 (Suc (length t)) = Some (p @ t @ [0])"
  by (simp add: memcpy_def realloc_with_def)

lemma join_rows_eq:
  assumes "wf_buffer buf" "Suc row < line_count buf"
  shows "join_rows buf row =
    Some (buf\<lparr>b_lines := take row (b_lines buf) @
      [ltext buf row @ ltext buf (Suc row) @ [0]] @ drop (row + 2) (b_lines buf)\<rparr>)"
proof -
  let ?s = "ltext buf row" and ?t = "ltext buf (Suc row)"
  obtain r r' where b: "b_lines buf ! row = ?s @ 0 # r" "b_lines buf ! Suc row = ?t @ 0 # r'"
    using line_split [OF assms(1)] assms(2) by (metis Suc_lessD)
  from assms show ?thesis
    unfolding join_rows_def Let_def
    by (simp add: line_length_eq load_line_eq b memcpy_tail take_Suc_list_update)
qed

lemma buffer_delete_char_eq:
  assumes "wf_buffer buf" "row < line_count buf" "0 < col"
  shows "buffer_delete_char buf row col =
    (let s = ltext buf row; c = min col (length s)
     in Some (set_line buf row (cut_block (b_lines buf ! row) (prev_bnd s c) c)))"
proof -
  let ?b = "b_lines buf ! row" and ?s = "ltext buf row"
  let ?c = "min col (length ?s)"
  have wf: "wf_block ?b" using assms(1,2) by (rule wf_buffer_line)
  have p: "utf8_prev_boundary ?b ?c = Some (prev_bnd ?s ?c)"
    using length_cstr_less [OF wf] by (simp add: utf8_prev_boundary_eq prev_bnd_cstr ltext_def)
  have "memmove ?b (prev_bnd ?s ?c) ?c (Suc (length ?s - ?c)) =
      Some (cut_block ?b (prev_bnd ?s ?c) ?c)"
    using memmove_cut [OF wf prev_bnd_le, of "min col (length ?s)"] by (simp add: ltext_def)
  with assms p show ?thesis
    unfolding buffer_delete_char_def Let_def min_clip
    by (simp add: line_length_eq load_line_eq)
qed

lemma buffer_delete_char_join:
  assumes "wf_buffer buf" "Suc row < line_count buf"
  shows "buffer_delete_char buf (Suc row) 0 =
    Some (buf\<lparr>b_lines := take row (b_lines buf) @
      [ltext buf row @ ltext buf (Suc row) @ [0]] @ drop (row + 2) (b_lines buf)\<rparr>)"
  using assms by (simp add: buffer_delete_char_def join_rows_eq)

lemma buffer_delete_forward_eq:
  assumes "wf_buffer buf" "row < line_count buf" "col < length (ltext buf row)"
  shows "buffer_delete_forward buf row col =
    (let s = ltext buf row
     in Some (set_line buf row (cut_block (b_lines buf ! row) col (next_bnd s col))))"
proof -
  let ?b = "b_lines buf ! row" and ?s = "ltext buf row"
  have wf: "wf_block ?b" using assms(1,2) by (rule wf_buffer_line)
  have n: "utf8_next_boundary ?b (length ?s) col = Some (next_bnd ?s col)"
    using length_cstr_less [OF wf]
    by (simp add: utf8_next_boundary_eq ltext_def take_cstr)
  have "memmove ?b col (next_bnd ?s col) (Suc (length ?s - next_bnd ?s col)) =
      Some (cut_block ?b col (next_bnd ?s col))"
    using memmove_cut [OF wf _ next_bnd_le [of "cstr ?b" col], of col]
      next_bnd_greater [OF assms(3)] by (simp add: ltext_def)
  with assms n show ?thesis
    unfolding buffer_delete_forward_def Let_def min_clip
    by (simp add: line_length_eq load_line_eq)
qed

lemma buffer_delete_forward_join:
  assumes "wf_buffer buf" "row < line_count buf" "length (ltext buf row) \<le> col"
  shows "buffer_delete_forward buf row col =
    (if Suc row < line_count buf then
       Some (buf\<lparr>b_lines := take row (b_lines buf) @
         [ltext buf row @ ltext buf (Suc row) @ [0]] @ drop (row + 2) (b_lines buf)\<rparr>)
     else Some buf)"
  using assms unfolding buffer_delete_forward_def Let_def min_clip
  by (simp add: line_length_eq join_rows_eq)

lemma buffer_delete_range_eq:
  assumes "wf_buffer buf" "row < line_count buf"
  shows "buffer_delete_range buf row start end =
    (let n = length (ltext buf row); i = min start n; j = min end n
     in Some (if j \<le> i then buf else set_line buf row (cut_block (b_lines buf ! row) i j)))"
proof -
  define i j where "i = min start (length (ltext buf row))" and "j = min end (length (ltext buf row))"
  have wf: "wf_block (b_lines buf ! row)" using assms by (rule wf_buffer_line)
  have "j \<le> length (ltext buf row)" by (simp add: j_def)
  then have "i \<le> j \<Longrightarrow> memmove (b_lines buf ! row) i j (Suc (length (ltext buf row) - j)) =
      Some (cut_block (b_lines buf ! row) i j)"
    using memmove_cut [OF wf, of i j] by (simp add: ltext_def)
  moreover have "j \<le> start \<longleftrightarrow> j \<le> i" by (auto simp: i_def j_def)
  ultimately show ?thesis
    using assms unfolding buffer_delete_range_def Let_def min_clip
    by (simp add: line_length_eq load_line_eq flip: i_def j_def)
qed

text \<open>The merged block of a deletion over several rows.\<close>

lemma buffer_delete_ordered_rows_eq:
  assumes "wf_buffer buf" "sr < er" "er < line_count buf"
  shows "buffer_delete_ordered buf sr sc er ec =
    (let s = ltext buf sr; t = ltext buf er; i = min sc (length s); j = min ec (length t)
     in Some (buf\<lparr>b_lines := take sr (b_lines buf) @ [take i s @ drop j t @ [0]] @
                drop (Suc er) (b_lines buf)\<rparr>))"
proof -
  let ?s = "ltext buf sr" and ?t = "ltext buf er"
  define i j where "i = min sc (length ?s)" and "j = min ec (length ?t)"
  have ij: "i \<le> length ?s" "j \<le> length ?t" by (simp_all add: i_def j_def)
  obtain r r' where b: "b_lines buf ! sr = ?s @ 0 # r" "b_lines buf ! er = ?t @ 0 # r'"
    using line_split [OF assms(1)] assms(2,3) by (metis less_trans)
  have st: "store (?s @ 0 # r) i 0 = Some (take i ?s @ 0 # drop (Suc i) (?s @ 0 # r))"
    using ij by (simp add: store_def list_update_split)
  have sd: "strdup (?t @ 0 # r') j = Some (drop j ?t @ [0])"
    using ij by (subst strdup_eq) simp_all
  have sl: "strlen (drop j ?t @ [0]) = Some (length ?t - j)"
    by (subst strlen_eq) (simp_all add: set_drop_sub)
  have m: "memcpy (realloc (take i ?s @ 0 # drop (Suc i) (?s @ 0 # r)) (Suc (i + (length ?t - j)))) i
      (drop j ?t @ [0]) 0 (Suc (length ?t - j)) = Some (take i ?s @ drop j ?t @ [0])"
    using memcpy_tail [of 0 "take i ?s" _ "drop j ?t" "[]"] ij by (simp add: min_absorb2)
  from assms ij st sd sl m show ?thesis
    unfolding buffer_delete_ordered_def Let_def min_clip
    by (simp add: line_length_eq load_line_eq b take_Suc_list_update flip: i_def j_def)
qed

end
