(* ===== verification/File_IO.thy ===== *)
theory File_IO
  imports Buffer
begin

text \<open>
  The file half of \<open>src/buffer.c\<close>: the mode of a path, reading a file into lines, writing the
  lines back, and setting up the highlighter. What the operating system answers is an argument:
  the contents of the file that was opened (\<open>None\<close> when \<open>fopen\<close> fails), the results of the
  successive \<open>write\<close> calls, and whether the tree-sitter calls succeed.
\<close>

section \<open>Modes\<close>

text \<open>\<open>strrchr\<close>: the suffix that starts at the last occurrence of a byte.\<close>

fun strrchr :: "byte list \<Rightarrow> byte \<Rightarrow> byte list option" where
  "strrchr [] c = None"
| "strrchr (x # xs) c =
     (case strrchr xs c of Some t \<Rightarrow> Some t | None \<Rightarrow> if x = c then Some (x # xs) else None)"

definition has_c_extension :: "byte list option \<Rightarrow> bool" where
  "has_c_extension path =
     (case path of None \<Rightarrow> False
      | Some p \<Rightarrow> (case strrchr p 46 of None \<Rightarrow> False
                 | Some dot \<Rightarrow> dot = bytes_of ''.c'' \<or> dot = bytes_of ''.h''))"

definition is_makefile :: "byte list option \<Rightarrow> bool" where
  "is_makefile path =
     (case path of None \<Rightarrow> False
      | Some p \<Rightarrow>
          (let filename = (case strrchr p 47 of Some slash \<Rightarrow> tl slash | None \<Rightarrow> p)
           in filename = bytes_of ''makefile'' \<or> filename = bytes_of ''Makefile''))"

definition detect_mode :: "byte list option \<Rightarrow> buffer_mode" where
  "detect_mode path = (if is_makefile path then MAKEFILE_MODE else C_MODE)"

section \<open>Loading\<close>

text \<open>The byte runs that successive calls of \<open>getline\<close> return: up to and with each newline.\<close>

function getlines :: "byte list \<Rightarrow> byte list list" where
  "getlines bs =
     (if bs = [] then []
      else if nl \<in> set bs then
        (takeWhile (\<lambda>c. c \<noteq> nl) bs @ [nl]) # getlines (tl (dropWhile (\<lambda>c. c \<noteq> nl) bs))
      else [bs])"
  by pat_completeness auto
termination
proof (relation "measure length", goal_cases)
  case (2 bs)
  then show ?case
    by (auto simp: length_dropWhile_le le_imp_less_Suc neq_Nil_conv intro!: diff_less)
       (metis diff_le_self le_imp_less_Suc le_trans length_dropWhile_le)
qed simp

declare getlines.simps [simp del]

text \<open>The loop that overwrites trailing newlines and carriage returns with NUL.\<close>

fun strip_eol :: "block \<Rightarrow> nat \<Rightarrow> block option" where
  "strip_eol line 0 = Some line"
| "strip_eol line (Suc n) = do {
     ch \<leftarrow> load line n;
     if ch = 10 \<or> ch = 13 then do { line \<leftarrow> store line n 0; strip_eol line n } else Some line
   }"

fun load_lines :: "buffer \<Rightarrow> byte list list \<Rightarrow> buffer option" where
  "load_lines buf [] = Some buf"
| "load_lines buf (run # runs) = do {
     line \<leftarrow> strip_eol (run @ [0]) (length run);
     buf \<leftarrow> buffer_append_line buf line;
     load_lines buf runs
   }"

definition buffer_load_file ::
  "buffer \<Rightarrow> byte list \<Rightarrow> byte list option \<Rightarrow> buffer option" where
  "buffer_load_file buf path file =
     (case file of
        None \<Rightarrow> Some buf
      | Some bytes \<Rightarrow> do {
          let buf = (buffer_clear buf)\<lparr>b_lines := []\<rparr>;
          buf \<leftarrow> load_lines buf (getlines bytes);
          buf \<leftarrow> (if line_count buf = 0 then buffer_append_line buf [0] else Some buf);
          Some (buf\<lparr>b_file_path := Some path, b_mode := detect_mode (Some path)\<rparr>)
        })"

section \<open>Highlighter set-up\<close>

record ts_setup =
  ts_new_ok :: bool
  ts_language_ok :: bool
  ts_query_ok :: bool
  ts_query_clean :: bool

definition buffer_init_syntax :: "ts_setup \<Rightarrow> buffer \<Rightarrow> byte list option \<Rightarrow> buffer" where
  "buffer_init_syntax ts buf path =
     (let enabled = has_c_extension path;
          buf = buf\<lparr>b_syntax_enabled := enabled, b_syntax_dirty := enabled\<rparr>
      in if \<not> enabled then buf
         else let buf = buf\<lparr>b_ts_parser := ts_new_ok ts\<rparr>
         in if \<not> ts_new_ok ts \<or> \<not> ts_language_ok ts then buf\<lparr>b_syntax_enabled := False\<rparr>
            else let buf = buf\<lparr>b_ts_query := ts_query_ok ts\<rparr>
            in if \<not> ts_query_ok ts \<or> \<not> ts_query_clean ts
               then buf\<lparr>b_syntax_enabled := False\<rparr> else buf)"

section \<open>Writing\<close>

text \<open>
  \<open>w k n\<close> is what the \<open>k\<close>-th \<open>write\<close> of the save returns when asked for \<open>n\<close> bytes. The result is
  whether the save succeeded and what the file then holds; a failed \<open>open\<close> leaves it alone.
\<close>

record save_env =
  sv_open :: bool
  sv_write :: "nat \<Rightarrow> nat \<Rightarrow> int"
  sv_close :: bool

fun write_lines ::
  "(nat \<Rightarrow> nat \<Rightarrow> int) \<Rightarrow> nat \<Rightarrow> block list \<Rightarrow> byte list \<Rightarrow> (bool \<times> byte list) option" where
  "write_lines w k [] out = Some (True, out)"
| "write_lines w k (line # rest) out = do {
     len \<leftarrow> strlen line;
     let got = (if len > 0 then w k len else 0);
     let out' = out @ take (nat got) (take len line);
     let k' = (if len > 0 then k + 1 else k);
     if len > 0 \<and> got \<noteq> int len then Some (False, out')
     else if w k' 1 \<noteq> 1 then Some (False, out')
     else write_lines w (k' + 1) rest (out' @ [nl])
   }"

definition buffer_write_file ::
  "save_env \<Rightarrow> buffer \<Rightarrow> (bool \<times> byte list option) option" where
  "buffer_write_file sv buf =
     (if \<not> sv_open sv then Some (False, None)
      else do {
        (ok, out) \<leftarrow> write_lines (sv_write sv) 0 (b_lines buf) [];
        Some (ok \<and> sv_close sv, Some out)
      })"

section \<open>Properties\<close>

definition strip :: "byte list \<Rightarrow> byte list" where
  "strip bs = rev (dropWhile (\<lambda>c. c = 10 \<or> c = 13) (rev bs))"

text \<open>What one \<open>getline\<close> run becomes in the buffer: stripped at the end, cut at a NUL.\<close>

definition load_text :: "byte list \<Rightarrow> byte list" where
  "load_text run = cstr (strip run @ [0])"

lemma strip_snoc: "strip (xs @ [x]) = (if x = 10 \<or> x = 13 then strip xs else xs @ [x])"
  by (simp add: strip_def)

lemma strip_eol_eq:
  "returns (strip_eol (run @ replicate (Suc n) 0) (length run))
     (\<lambda>b. wf_block b \<and> cstr b = load_text run)"
proof (induction run arbitrary: n rule: rev_induct)
  case Nil
  show ?case by (simp add: wf_block_def cstr_def load_text_def strip_def)
next
  case (snoc x xs)
  have l: "load (xs @ x # 0 # replicate n 0) (length xs) = Some x"
    and s: "store (xs @ x # 0 # replicate n 0) (length xs) 0 = Some (xs @ replicate (Suc (Suc n)) 0)"
    by (simp_all add: load_def store_def)
  have cut: "cstr (xs @ x # 0 # replicate n 0) = cstr (xs @ [x, 0])"
    unfolding cstr_def using takeWhile_append1 [of 0 "xs @ [x, 0]" "\<lambda>c. c \<noteq> 0" "replicate n 0"] by simp
  show ?case
  proof (cases "x = 10 \<or> x = 13")
    case True
    with snoc [of "Suc n"] l s show ?thesis by (simp add: load_text_def strip_snoc)
  next
    case False
    with l cut show ?thesis by (auto simp: load_text_def strip_snoc wf_block_def)
  qed
qed

lemma buffer_append_line_eq:
  "wf_block b \<Longrightarrow> buffer_append_line buf b =
    Some (buf\<lparr>b_lines := b_lines buf @ [cstr b @ [0]], b_slots := line_count buf + 1\<rparr>)"
  using strdup_eq [of b 0] by (simp add: buffer_append_line_def)

lemma load_lines_eq:
  "line_count buf \<le> b_slots buf \<Longrightarrow> \<exists>n. load_lines buf runs =
    Some (buf\<lparr>b_lines := b_lines buf @ map (\<lambda>r. load_text r @ [0]) runs, b_slots := n\<rparr>) \<and>
    line_count buf + length runs \<le> n"
proof (induction runs arbitrary: buf)
  case Nil
  then show ?case by (intro exI [of _ "b_slots buf"]) simp
next
  case (Cons r rs)
  obtain b where b: "strip_eol (r @ [0]) (length r) = Some b" "wf_block b" "cstr b = load_text r"
    using strip_eol_eq [of r 0] by (auto simp: returns_def)
  define buf1 where "buf1 = buf\<lparr>b_lines := b_lines buf @ [load_text r @ [0]], b_slots := line_count buf + 1\<rparr>"
  have "line_count buf1 \<le> b_slots buf1" by (simp add: buf1_def)
  from Cons.IH [OF this] obtain n where n: "load_lines buf1 rs =
      Some (buf1\<lparr>b_lines := b_lines buf1 @ map (\<lambda>r. load_text r @ [0]) rs, b_slots := n\<rparr>)"
      "line_count buf1 + length rs \<le> n" by blast
  have "load_lines buf (r # rs) = load_lines buf1 rs"
    using b by (simp add: buffer_append_line_eq buf1_def)
  with n show ?case by (intro exI [of _ n]) (simp add: buf1_def)
qed

lemma load_text_no_nul [simp]: "0 \<notin> set (load_text r)"
  by (simp add: load_text_def)

text \<open>The lines a file gives: one per run, or one empty line for an empty file.\<close>

definition file_lines :: "byte list \<Rightarrow> byte list list" where
  "file_lines bytes = (if bytes = [] then [[]] else map load_text (getlines bytes))"

lemma getlines_Nil [simp]: "getlines [] = []"
  by (simp add: getlines.simps)

lemma getlines_eq_Nil: "getlines bs = [] \<longleftrightarrow> bs = []"
  by (auto simp: getlines.simps [of bs] split: if_splits)

lemma buffer_load_file_eq:
  "returns (buffer_load_file buf path (Some bytes)) (\<lambda>b'. wf_buffer b' \<and>
     texts b' = file_lines bytes \<and> b_file_path b' = Some path \<and>
     b_mode b' = detect_mode (Some path) \<and> b_syntax_enabled b' = False \<and> b_ts_tree b' = None)"
proof -
  define buf0 where "buf0 = (buffer_clear buf)\<lparr>b_lines := []\<rparr>"
  have s: "line_count buf0 \<le> b_slots buf0" by (simp add: buf0_def)
  obtain n where n: "load_lines buf0 (getlines bytes) =
      Some (buf0\<lparr>b_lines := map (\<lambda>r. load_text r @ [0]) (getlines bytes), b_slots := n\<rparr>)"
      "length (getlines bytes) \<le> n"
    using load_lines_eq [OF s, of "getlines bytes"] by (auto simp: buf0_def)
  have a: "buffer_append_line b [0] = Some (b\<lparr>b_lines := b_lines b @ [[0]], b_slots := line_count b + 1\<rparr>)" for b
    using buffer_append_line_eq [of "[0]" b] by (simp add: wf_block_def cstr_def)
  show ?thesis
  proof (cases "bytes = []")
    case True
    then show ?thesis
      by (simp add: buffer_load_file_def a file_lines_def wf_buffer_def texts_def wf_block_def
          cstr_def buffer_clear_def buffer_init_def)
  next
    case False
    then have "getlines bytes \<noteq> []" by (simp add: getlines_eq_Nil)
    with False n show ?thesis
      by (simp add: buffer_load_file_def file_lines_def wf_buffer_def texts_def o_def
          buf0_def [symmetric]) (simp add: buf0_def buffer_clear_def buffer_init_def)
  qed
qed

lemma wf_buffer_init_syntax [simp]:
  "wf_buffer (buffer_init_syntax ts buf path) = wf_buffer buf"
  by (simp add: buffer_init_syntax_def Let_def wf_buffer_def)

lemma texts_buffer_init_syntax [simp]: "texts (buffer_init_syntax ts buf path) = texts buf"
  by (simp add: buffer_init_syntax_def Let_def texts_def)

lemma b_lines_init_syntax [simp]: "b_lines (buffer_init_syntax ts buf path) = b_lines buf"
  by (simp add: buffer_init_syntax_def Let_def)

lemma write_lines_ok:
  "\<forall>b\<in>set bs. wf_block b \<Longrightarrow> write_lines w k bs out = Some (True, out') \<Longrightarrow>
   out' = out @ concat (map (\<lambda>b. cstr b @ [nl]) bs)"
proof (induction bs arbitrary: k out)
  case (Cons b bs)
  have t: "take (length (cstr b)) b = cstr b"
    using take_cstr [of "length (cstr b)" b] by simp
  from Cons show ?case
    by (fastforce simp: strlen_eq Let_def t split: if_splits)
qed simp

text \<open>A save that stops leaves a part of the file: the file was truncated when it was opened.\<close>

lemma write_lines_prefix:
  "\<forall>b\<in>set bs. wf_block b \<Longrightarrow> write_lines w k bs out = Some (ok, out') \<Longrightarrow>
   \<exists>rest. out' @ rest = out @ concat (map (\<lambda>b. cstr b @ [nl]) bs)"
proof (induction bs arbitrary: k out)
  case (Cons b bs)
  have t: "take (length (cstr b)) b = cstr b"
    using take_cstr [of "length (cstr b)" b] by simp
  have m: "take (min i (length (cstr b))) b = take i (cstr b)" for i
    using t by (metis take_take)
  define got where "got = (if length (cstr b) > 0 then w k (length (cstr b)) else 0)"
  define k' where "k' = (if length (cstr b) > 0 then k + 1 else k)"
  define out1 where "out1 = out @ take (nat got) (cstr b)"
  have e: "write_lines w k (b # bs) out =
      (if length (cstr b) > 0 \<and> got \<noteq> int (length (cstr b)) \<or> w k' 1 \<noteq> 1 then Some (False, out1)
       else write_lines w (k' + 1) bs (out1 @ [nl]))"
    using Cons.prems(1) m by (simp add: strlen_eq Let_def t got_def k'_def out1_def)
  have part: "\<exists>rest. out1 @ rest = out @ cstr b @ r" for r
    by (intro exI [of _ "drop (nat got) (cstr b) @ r"]) (simp add: out1_def)
  show ?case
  proof (cases "length (cstr b) > 0 \<and> got \<noteq> int (length (cstr b)) \<or> w k' 1 \<noteq> 1")
    case True
    then have "out' = out1" using Cons.prems(2) unfolding e by simp
    then show ?thesis using part by simp
  next
    case False
    then have "out1 = out @ cstr b" by (auto simp: out1_def got_def)
    moreover have "\<exists>rest. out' @ rest = (out1 @ [nl]) @ concat (map (\<lambda>b. cstr b @ [nl]) bs)"
      using Cons.prems Cons.IH [of "k' + 1" "out1 @ [nl]"] unfolding e if_not_P [OF False] by simp
    ultimately show ?thesis by simp
  qed
qed auto

lemma write_lines_total:
  "\<forall>b\<in>set bs. wf_block b \<Longrightarrow> write_lines w k bs out \<noteq> None"
  by (induction bs arbitrary: k out) (auto simp: strlen_eq Let_def)

lemma write_lines_all_written:
  "\<forall>b\<in>set bs. wf_block b \<Longrightarrow> (\<And>k n. w k n = int n) \<Longrightarrow>
   write_lines w k bs out = Some (True, out @ concat (map (\<lambda>b. cstr b @ [nl]) bs))"
proof (induction bs arbitrary: k out)
  case (Cons b bs)
  have t: "take (length (cstr b)) b = cstr b"
    using take_cstr [of "length (cstr b)" b] by simp
  from Cons show ?case by (auto simp: strlen_eq Let_def t)
qed simp

text \<open>The bytes of a saved buffer: every line with a newline.\<close>

definition file_of :: "buffer \<Rightarrow> byte list" where
  "file_of buf = concat (map (\<lambda>l. l @ [nl]) (texts buf))"

text \<open>
  The sizes a save asks \<open>write\<close> for: an empty line has a newline only. A save reports success when
  the file is opened, each of these writes is full, and the file is closed.
\<close>

definition write_sizes :: "byte list list \<Rightarrow> nat list" where
  "write_sizes ls = concat (map (\<lambda>l. (if l = [] then [] else [length l]) @ [1]) ls)"

fun full_writes :: "(nat \<Rightarrow> nat \<Rightarrow> int) \<Rightarrow> nat \<Rightarrow> nat list \<Rightarrow> bool" where
  "full_writes w k [] = True"
| "full_writes w k (n # ns) = (w k n = int n \<and> full_writes w (k + 1) ns)"

lemma write_lines_full:
  "\<forall>b\<in>set bs. wf_block b \<Longrightarrow> write_lines w k bs out = Some (ok, out') \<Longrightarrow>
   ok \<longleftrightarrow> full_writes w k (write_sizes (map cstr bs))"
proof (induction bs arbitrary: k out)
  case (Cons b bs)
  have l: "strlen b = Some (length (cstr b))" using Cons.prems(1) by (simp add: strlen_eq)
  show ?case
  proof (cases "cstr b = []")
    case True
    with Cons.prems Cons.IH [of "k + 1"] show ?thesis
      by (auto simp: l Let_def write_sizes_def split: if_splits)
  next
    case False
    with Cons.prems Cons.IH [of "k + 2"] show ?thesis
      by (auto simp: l Let_def write_sizes_def split: if_splits)
  qed
qed (auto simp: write_sizes_def)

lemma buffer_write_file_ok:
  assumes "wf_buffer buf"
  shows "\<exists>ok out. buffer_write_file sv buf = Some (ok, out) \<and>
    (ok \<longleftrightarrow> sv_open sv \<and> full_writes (sv_write sv) 0 (write_sizes (texts buf)) \<and> sv_close sv) \<and>
    (ok \<longrightarrow> out = Some (file_of buf)) \<and> (out = None \<longleftrightarrow> \<not> sv_open sv) \<and>
    (\<forall>bytes. out = Some bytes \<longrightarrow> (\<exists>rest. bytes @ rest = file_of buf))"
proof (cases "sv_open sv")
  case True
  have w: "\<forall>b\<in>set (b_lines buf). wf_block b" using assms by (simp add: wf_buffer_def)
  have f: "file_of buf = concat (map (\<lambda>b. cstr b @ [nl]) (b_lines buf))" by (simp add: file_of_def texts_def o_def)
  obtain ok out where o: "write_lines (sv_write sv) 0 (b_lines buf) [] = Some (ok, out)"
    using write_lines_total [OF w, of "sv_write sv" 0 "[]"] by auto
  then have "ok \<Longrightarrow> out = file_of buf" using write_lines_ok [OF w, of "sv_write sv" 0 "[]" out] by (simp add: f)
  moreover obtain rest where "out @ rest = file_of buf" using write_lines_prefix [OF w o] by (auto simp: f)
  moreover have "ok \<longleftrightarrow> full_writes (sv_write sv) 0 (write_sizes (texts buf))"
    using write_lines_full [OF w o] by (simp add: texts_def)
  ultimately show ?thesis using True o by (auto simp: buffer_write_file_def)
next
  case False
  then show ?thesis by (intro exI [of _ False] exI [of _ None]) (simp add: buffer_write_file_def)
qed

text \<open>What a save writes, read back.\<close>

lemma dropWhile_all_ne: "x \<notin> set xs \<Longrightarrow> dropWhile (\<lambda>c. c \<noteq> x) xs = []"
  by (induction xs) auto

lemma getlines_cons:
  "nl \<notin> set l \<Longrightarrow> getlines (l @ nl # bs) = (l @ [nl]) # getlines bs"
  by (subst getlines.simps) (simp add: takeWhile_notin dropWhile_append3 dropWhile_all_ne)

lemma getlines_file:
  "\<forall>l\<in>set T. nl \<notin> set l \<Longrightarrow> getlines (concat (map (\<lambda>l. l @ [nl]) T)) = map (\<lambda>l. l @ [nl]) T"
  by (induction T) (simp_all add: getlines_cons)

definition plain_line :: "byte list \<Rightarrow> bool" where
  "plain_line l \<longleftrightarrow> 0 \<notin> set l \<and> nl \<notin> set l \<and> (l \<noteq> [] \<longrightarrow> last l \<noteq> 13)"

lemma load_text_plain:
  assumes "plain_line l" shows "load_text (l @ [nl]) = l"
proof -
  have "strip (l @ [nl]) = l"
  proof (cases l rule: rev_cases)
    case (snoc ys y)
    with assms show ?thesis
      using strip_snoc [of l 10] strip_snoc [of ys y] by (auto simp: plain_line_def nl_def)
  qed (simp add: strip_def nl_def)
  with assms show ?thesis by (simp add: load_text_def plain_line_def)
qed

lemma file_lines_file_of:
  assumes "T \<noteq> []" "\<forall>l\<in>set T. plain_line l"
  shows "file_lines (concat (map (\<lambda>l. l @ [nl]) T)) = T"
proof -
  from assms(2) have n: "\<forall>l\<in>set T. nl \<notin> set l" by (simp add: plain_line_def)
  have "concat (map (\<lambda>l. l @ [nl]) T) \<noteq> []" using assms(1) by (cases T) auto
  then show ?thesis
    using assms(2) by (simp add: file_lines_def getlines_file [OF n] o_def load_text_plain map_idI)
qed

end
