(* ===== verification/Ignore.thy ===== *)
theory Ignore
  imports Growth File_IO
begin

text \<open>
  The ignore rules of the finder (\<open>src/finder.c\<close>, lines 25 to 347): parsing a \<open>.gitignore\<close> line in
  place, the growing list of rules, and the test whether a path is ignored. A C string that is only
  read is the list of its bytes; one that is edited in place is a block. \<open>fnmatch\<close> and the file
  system are arguments.
\<close>

section \<open>Rules\<close>

record ignore_rule =
  ir_pattern :: "byte list"
  ir_base :: "byte list"
  ir_negated :: bool
  ir_dir_only :: bool
  ir_has_slash :: bool
  ir_anchored :: bool

record ignore_list =
  il_rules :: "ignore_rule list"
  il_cap :: nat

definition ignore_list_init :: ignore_list where
  "ignore_list_init = \<lparr>il_rules = [], il_cap = 0\<rparr>"

definition ignore_list_free :: "ignore_list \<Rightarrow> ignore_list" where
  "ignore_list_free l = \<lparr>il_rules = [], il_cap = 0\<rparr>"

definition ignore_list_truncate :: "ignore_list \<Rightarrow> nat \<Rightarrow> ignore_list" where
  "ignore_list_truncate l len = l\<lparr>il_rules := take len (il_rules l)\<rparr>"

definition ignore_list_add :: "ignore_list \<Rightarrow> ignore_rule \<Rightarrow> ignore_list" where
  "ignore_list_add l rule =
     \<lparr>il_rules = il_rules l @ [rule], il_cap = grown_cap 16 (il_cap l) (length (il_rules l) + 1)\<rparr>"

interpretation ignore_growing: growing il_rules il_cap ignore_list_add 16
  by unfold_locales (simp_all add: ignore_list_add_def)

section \<open>Paths\<close>

definition path_join :: "byte list \<Rightarrow> byte list \<Rightarrow> byte list" where
  "path_join left right =
     (let need_sep = left \<noteq> [] \<and> last left \<noteq> 47
      in left @ (if need_sep then [47] else []) @ right)"

definition path_basename :: "byte list \<Rightarrow> byte list" where
  "path_basename path = (case strrchr path 47 of None \<Rightarrow> path | Some slash \<Rightarrow> tl slash)"

definition path_has_prefix :: "byte list \<Rightarrow> byte list \<Rightarrow> bool" where
  "path_has_prefix path prefix =
     (let n = length prefix
      in if n = 0 then True
         else if take n path \<noteq> prefix then False
         else if length path = n then True
         else path ! n = 47)"

section \<open>Parsing a line of a \<open>.gitignore\<close> file\<close>

definition is_trim :: "byte \<Rightarrow> bool" where
  "is_trim ch \<longleftrightarrow> ch = 32 \<or> ch = 9 \<or> ch = 13 \<or> ch = 10"

definition is_blank :: "byte \<Rightarrow> bool" where
  "is_blank ch \<longleftrightarrow> ch = 32 \<or> ch = 9"

fun trim_end :: "block \<Rightarrow> nat \<Rightarrow> (block \<times> nat) option" where
  "trim_end line 0 = Some (line, 0)"
| "trim_end line (Suc n) = do {
     ch \<leftarrow> load line n;
     if is_trim ch then do { line \<leftarrow> store line n 0; trim_end line n } else Some (line, Suc n)
   }"

function skip_blank :: "block \<Rightarrow> nat \<Rightarrow> nat option" where
  "skip_blank line i = do {
     ch \<leftarrow> load line i;
     if is_blank ch then skip_blank line (i + 1) else Some i
   }"
  by pat_completeness auto
termination
  by (relation "measure (\<lambda>(line, i). length line - i)") (auto simp: load_def split: if_splits)

declare skip_blank.simps [simp del]

definition trim_whitespace :: "block \<Rightarrow> block option" where
  "trim_whitespace line = do {
     len \<leftarrow> strlen line;
     (line, len) \<leftarrow> trim_end line len;
     start \<leftarrow> skip_blank line 0;
     if start > 0 then memmove line 0 start (len - start + 1) else Some line
   }"

text \<open>\<open>if (copy[0] == c) { flag = true; memmove(copy, copy + 1, strlen(copy)); }\<close>\<close>

definition drop_mark :: "byte \<Rightarrow> block \<Rightarrow> (block \<times> bool) option" where
  "drop_mark c copy = do {
     ch \<leftarrow> load copy 0;
     if ch = c then do {
       n \<leftarrow> strlen copy;
       copy \<leftarrow> memmove copy 0 1 n;
       Some (copy, True)
     } else Some (copy, False)
   }"

definition parse_gitignore_line :: "block \<Rightarrow> byte list \<Rightarrow> ignore_rule option option" where
  "parse_gitignore_line line base = do {
     copy \<leftarrow> strdup line 0;
     copy \<leftarrow> trim_whitespace copy;
     ch \<leftarrow> load copy 0;
     if ch = 0 \<or> ch = 35 then Some None
     else do {
       (copy, negated) \<leftarrow> drop_mark 33 copy;
       (copy, anchored) \<leftarrow> drop_mark 47 copy;
       len \<leftarrow> strlen copy;
       (copy, dir_only) \<leftarrow>
         (if len > 0 then do {
            ch \<leftarrow> load copy (len - 1);
            if ch = 47 then do { copy \<leftarrow> store copy (len - 1) 0; Some (copy, True) }
            else Some (copy, False)
          } else Some (copy, False));
       ch \<leftarrow> load copy 0;
       if ch = 0 then Some None
       else do {
         pattern \<leftarrow> c_string copy;
         Some (Some \<lparr>ir_pattern = pattern, ir_base = base, ir_negated = negated,
                     ir_dir_only = dir_only, ir_has_slash = (47 \<in> set pattern),
                     ir_anchored = anchored\<rparr>)
       }
     }
   }"

text \<open>One run of the loop of \<open>load_gitignore\<close>: it drops one line end, then parses.\<close>

fun gitignore_lines :: "byte list list \<Rightarrow> byte list \<Rightarrow> ignore_list \<Rightarrow> nat \<Rightarrow> (ignore_list \<times> nat) option" where
  "gitignore_lines [] base l added = Some (l, added)"
| "gitignore_lines (run # runs) base l added = do {
     let line = run @ [0];
     let len = length run;
     line \<leftarrow> (if len > 0 \<and> (run ! (len - 1) = 10 \<or> run ! (len - 1) = 13)
             then store line (len - 1) 0 else Some line);
     rule \<leftarrow> parse_gitignore_line line base;
     case rule of
       Some r \<Rightarrow> gitignore_lines runs base (ignore_list_add l r) (added + 1)
     | None \<Rightarrow> gitignore_lines runs base l added
   }"

definition load_gitignore ::
  "byte list option \<Rightarrow> bool \<Rightarrow> byte list \<Rightarrow> ignore_list \<Rightarrow> (ignore_list \<times> nat) option" where
  "load_gitignore content is_file base l =
     (if \<not> is_file then Some (l, 0)
      else case content of
        None \<Rightarrow> Some (l, 0)
      | Some bytes \<Rightarrow> gitignore_lines (getlines bytes) base l 0)"

section \<open>Matching\<close>

definition rule_matches ::
  "(byte list \<Rightarrow> byte list \<Rightarrow> bool \<Rightarrow> bool) \<Rightarrow> ignore_rule \<Rightarrow> byte list \<Rightarrow> bool \<Rightarrow> bool" where
  "rule_matches fnmatch rule path_rel is_dir =
     (if ir_dir_only rule \<and> \<not> is_dir then False
      else if ir_has_slash rule \<or> ir_anchored rule then
        (if \<not> path_has_prefix path_rel (ir_base rule) then False
         else
           let rel = drop (length (ir_base rule)) path_rel;
               rel = (if ir_base rule \<noteq> [] \<and> rel \<noteq> [] \<and> hd rel = 47 then tl rel else rel)
           in if rel = [] then False else fnmatch (ir_pattern rule) rel True)
      else fnmatch (ir_pattern rule) (path_basename path_rel) False)"

fun ignored_from ::
  "(byte list \<Rightarrow> byte list \<Rightarrow> bool \<Rightarrow> bool) \<Rightarrow> ignore_rule list \<Rightarrow> byte list \<Rightarrow> bool \<Rightarrow> bool \<Rightarrow> bool" where
  "ignored_from fnmatch [] path_rel is_dir ignored = ignored"
| "ignored_from fnmatch (rule # rules) path_rel is_dir ignored =
     ignored_from fnmatch rules path_rel is_dir
       (if rule_matches fnmatch rule path_rel is_dir then \<not> ir_negated rule else ignored)"

definition is_ignored ::
  "(byte list \<Rightarrow> byte list \<Rightarrow> bool \<Rightarrow> bool) \<Rightarrow> ignore_list \<Rightarrow> byte list \<Rightarrow> bool \<Rightarrow> bool" where
  "is_ignored fnmatch l path_rel is_dir = ignored_from fnmatch (il_rules l) path_rel is_dir False"

section \<open>What parsing computes\<close>

definition trim_text :: "byte list \<Rightarrow> byte list" where
  "trim_text s = dropWhile is_blank (rev (dropWhile is_trim (rev s)))"

definition strip_mark :: "byte \<Rightarrow> byte list \<Rightarrow> byte list \<times> bool" where
  "strip_mark c s = (case s of [] \<Rightarrow> ([], False) | x # r \<Rightarrow> if x = c then (r, True) else (s, False))"

definition gitignore_rule :: "byte list \<Rightarrow> byte list \<Rightarrow> ignore_rule option" where
  "gitignore_rule base s =
     (let t = trim_text s
      in if t = [] \<or> hd t = 35 then None
         else let (t, negated) = strip_mark 33 t; (t, anchored) = strip_mark 47 t;
                  dir_only = (t \<noteq> [] \<and> last t = 47); t = (if dir_only then butlast t else t)
              in if t = [] then None
                 else Some \<lparr>ir_pattern = t, ir_base = base, ir_negated = negated, ir_dir_only = dir_only,
                            ir_has_slash = (47 \<in> set t), ir_anchored = anchored\<rparr>)"

lemma nul_not_blank [simp]: "\<not> is_blank 0" "\<not> is_trim 0"
  by (simp_all add: is_blank_def is_trim_def)

lemma trim_end_ok:
  "n = length s \<Longrightarrow> 0 \<notin> set s \<Longrightarrow>
   \<exists>r'. length r' + length (rev (dropWhile is_trim (rev s))) = length r + length s \<and>
     trim_end (s @ 0 # r) n =
       Some (rev (dropWhile is_trim (rev s)) @ 0 # r', length (rev (dropWhile is_trim (rev s))))"
proof (induction n arbitrary: s r)
  case (Suc n)
  then obtain t x where s: "s = t @ [x]" "length t = n" by (cases s rule: rev_cases) auto
  have l: "load (s @ 0 # r) n = Some x" using s by (simp add: load_def nth_append)
  show ?case
  proof (cases "is_trim x")
    case True
    have "store (s @ 0 # r) n 0 = Some (t @ 0 # 0 # r)"
      using s by (simp add: store_def list_update_append nth_append)
    moreover obtain r' where "length r' + length (rev (dropWhile is_trim (rev t))) = length (0 # r) + length t"
      "trim_end (t @ 0 # 0 # r) n =
       Some (rev (dropWhile is_trim (rev t)) @ 0 # r', length (rev (dropWhile is_trim (rev t))))"
      using Suc.IH [of t "0 # r"] s Suc.prems by auto
    ultimately show ?thesis using True l s by (intro exI [of _ r']) simp
  next
    case False
    with l s show ?thesis by (intro exI [of _ r]) simp
  qed
qed simp

lemma skip_blank_ok:
  "i \<le> length s \<Longrightarrow> 0 \<notin> set s \<Longrightarrow>
   skip_blank (s @ 0 # r) i = Some (i + length (takeWhile is_blank (drop i s)))"
proof (induction "length s - i" arbitrary: i)
  case 0
  then have "i = length s" by simp
  then show ?case by (subst skip_blank.simps) (simp add: load_def)
next
  case (Suc n)
  then have i: "i < length s" by simp
  then have d: "drop i s = s ! i # drop (Suc i) s" by (simp add: Cons_nth_drop_Suc)
  have l: "load (s @ 0 # r) i = Some (s ! i)" using i by (simp add: load_def nth_append)
  show ?case
    using Suc(1) [of "Suc i"] Suc.hyps(2) Suc.prems i by (subst skip_blank.simps) (simp add: l d)
qed

lemma memmove_drop:
  "k \<le> length t \<Longrightarrow> memmove (t @ 0 # r) 0 k (length t - k + 1) =
     Some (drop k t @ 0 # drop (length t - k + 1) (t @ 0 # r))"
  by (simp add: memmove_def)

lemma trim_whitespace_ok:
  assumes "wf_block b"
  shows "returns (trim_whitespace b) (\<lambda>b'. wf_block b' \<and> cstr b' = trim_text (cstr b))"
proof -
  obtain s r where b: "b = s @ 0 # r" "0 \<notin> set s" "cstr b = s" using wf_block_split [OF assms] by metis
  let ?t = "rev (dropWhile is_trim (rev s))"
  obtain r' where r': "trim_end b (length s) = Some (?t @ 0 # r', length ?t)"
    "length r' + length ?t = length r + length s"
    using trim_end_ok [OF refl b(2), of r] b(1) by auto
  have nt: "0 \<notin> set ?t" using b(2) by (auto dest: set_dropWhileD)
  let ?k = "length (takeWhile is_blank ?t)"
  have sk: "skip_blank (?t @ 0 # r') 0 = Some ?k"
    using skip_blank_ok [of 0 ?t r'] nt by simp
  have dk: "drop ?k ?t = trim_text s" by (simp add: trim_text_def dropWhile_eq_drop)
  have kl: "?k \<le> length ?t" by (rule length_takeWhile_le)
  show ?thesis
  proof (cases "?k = 0")
    case True
    then have "trim_text s = ?t" using dk by simp
    with True assms b r' sk nt show ?thesis
      by (simp add: trim_whitespace_def strlen_eq)
  next
    case False
    have m: "memmove (?t @ 0 # r') 0 ?k (length ?t - ?k + 1) =
        Some (trim_text s @ 0 # drop (length ?t - ?k + 1) (?t @ 0 # r'))"
      unfolding dk [symmetric] using kl by (rule memmove_drop)
    have "0 \<notin> set (trim_text s)" using nt dk by (metis set_drop_sub)
    with False assms b r' sk m show ?thesis
      by (simp add: trim_whitespace_def strlen_eq)
  qed
qed

lemma drop_mark_ok:
  assumes "wf_block b"
  shows "returns (drop_mark c b) (\<lambda>(b', f). c \<noteq> 0 \<longrightarrow> wf_block b' \<and> (cstr b', f) = strip_mark c (cstr b))"
proof -
  obtain s r where b: "b = s @ 0 # r" "0 \<notin> set s" "cstr b = s" using wf_block_split [OF assms] by metis
  show ?thesis
  proof (cases s)
    case Nil
    with b have "strlen b = Some 0" using assms by (simp add: strlen_eq)
    with b Nil show ?thesis by (auto simp: drop_mark_def load_def strip_mark_def memmove_def wf_block_def)
  next
    case (Cons x t)
    have "memmove b 0 1 (length s) = Some (t @ 0 # drop (length s) b)"
      using b Cons by (simp add: memmove_def)
    with b Cons assms show ?thesis
      by (auto simp: drop_mark_def load_def strip_mark_def strlen_eq)
  qed
qed

lemma parse_gitignore_line_eq:
  assumes "wf_block line"
  shows "parse_gitignore_line line base = Some (gitignore_rule base (cstr line))"
proof -
  have d: "strdup line 0 = Some (cstr line @ [0])" using strdup_eq [OF assms, of 0] by simp
  have "wf_block (cstr line @ [0])" "cstr (cstr line @ [0]) = cstr line"
    using cstr_append_nul [of "cstr line" "[]"] by (simp_all add: wf_block_def del: cstr_append_nul)
  then obtain b1 where b1: "trim_whitespace (cstr line @ [0]) = Some b1" "wf_block b1" "cstr b1 = trim_text (cstr line)"
    using trim_whitespace_ok [of "cstr line @ [0]"] by (auto elim!: returnsE)
  have hd: "wf_block b \<Longrightarrow> load b 0 = Some (if cstr b = [] then 0 else hd (cstr b))" for b
    by (erule wf_block_split) (simp add: load_def nth_append hd_conv_nth)
  have hn: "cstr b \<noteq> [] \<Longrightarrow> hd (cstr b) \<noteq> 0" for b
    by (metis cstr_no_nul list.set_sel(1))
  obtain b2 neg where b2: "drop_mark 33 b1 = Some (b2, neg)" "wf_block b2" "(cstr b2, neg) = strip_mark 33 (cstr b1)"
    using drop_mark_ok [OF b1(2), of 33] by (auto elim!: returnsE)
  obtain b3 anc where b3: "drop_mark 47 b2 = Some (b3, anc)" "wf_block b3" "(cstr b3, anc) = strip_mark 47 (cstr b2)"
    using drop_mark_ok [OF b2(2), of 47] by (auto elim!: returnsE)
  let ?d = "cstr b3 \<noteq> [] \<and> last (cstr b3) = 47"
  define b4 where "b4 = (if ?d then b3[length (cstr b3) - 1 := 0] else b3)"
  have ln: "cstr b3 \<noteq> [] \<Longrightarrow> load b3 (length (cstr b3) - 1) = Some (last (cstr b3))"
    by (simp add: load_cstr last_conv_nth)
  have st: "store b3 (length (cstr b3) - 1) v = Some (b3[length (cstr b3) - 1 := v])" for v
    using length_cstr_less [OF b3(2)] by (simp add: store_def)
  have b4: "wf_block b4" "cstr b4 = (if ?d then butlast (cstr b3) else cstr b3)"
  proof -
    obtain s r where b: "b3 = s @ 0 # r" "0 \<notin> set s" "cstr b3 = s" using wf_block_split [OF b3(2)] by metis
    show "wf_block b4" "cstr b4 = (if ?d then butlast (cstr b3) else cstr b3)"
    proof (atomize (full), cases s rule: rev_cases)
      case (snoc t x)
      with b show "wf_block b4 \<and> cstr b4 = (if ?d then butlast (cstr b3) else cstr b3)"
        by (auto simp: b4_def list_update_append wf_block_def)
    qed (use b b3(2) in \<open>simp add: b4_def\<close>)
  qed
  have step: "(if length (cstr b3) > 0 then do {
            ch \<leftarrow> load b3 (length (cstr b3) - 1);
            if ch = 47 then do { copy \<leftarrow> store b3 (length (cstr b3) - 1) 0; Some (copy, True) }
            else Some (b3, False)
          } else Some (b3, False)) = Some (b4, ?d)"
    using ln st by (auto simp: b4_def)
  show ?thesis
    using d b1 b2 b3 b4 step hd [OF b1(2)] hd [OF b4(1)] hn [of b1] hn [of b4]
    by (auto simp: parse_gitignore_line_def gitignore_rule_def strlen_eq c_string_eq Let_def
        split: prod.splits)
qed

text \<open>A whole file: each run of bytes without its line end, parsed; the rules go behind the others.\<close>

definition chop_run :: "byte list \<Rightarrow> byte list" where
  "chop_run run = takeWhile (\<lambda>c. c \<noteq> 0)
     (if run \<noteq> [] \<and> (last run = 10 \<or> last run = 13) then butlast run else run)"

definition gitignore_rules :: "byte list \<Rightarrow> byte list \<Rightarrow> ignore_rule list" where
  "gitignore_rules base bytes =
     concat (map (\<lambda>run. case gitignore_rule base (chop_run run) of None \<Rightarrow> [] | Some r \<Rightarrow> [r]) (getlines bytes))"

lemma run_block:
  "(if 0 < length run \<and> (run ! (length run - 1) = 10 \<or> run ! (length run - 1) = 13)
    then store (run @ [0]) (length run - 1) 0 else Some (run @ [0])) = Some b \<Longrightarrow>
   wf_block b \<and> cstr b = chop_run run"
proof (cases run rule: rev_cases)
  case (snoc t x)
  assume a: "(if 0 < length run \<and> (run ! (length run - 1) = 10 \<or> run ! (length run - 1) = 13)
    then store (run @ [0]) (length run - 1) 0 else Some (run @ [0])) = Some b"
  have tw: "takeWhile (\<lambda>c. c \<noteq> 0) (u @ 0 # v) = takeWhile (\<lambda>c. c \<noteq> 0) u" for u v :: "byte list"
    by (induction u) auto
  have tx: "takeWhile (\<lambda>c. c \<noteq> 0) (t @ x # [0]) = takeWhile (\<lambda>c. c \<noteq> 0) (t @ [x])"
    using tw [of "t @ [x]" "[]"] by simp
  show ?thesis
    using a snoc tw [of t "[0]"] tx
    by (auto simp: store_def list_update_append chop_run_def cstr_def wf_block_def split: if_splits)
qed (auto simp: chop_run_def cstr_def wf_block_def)

lemma run_store:
  "\<exists>b. (if 0 < length run \<and> (run ! (length run - 1) = 10 \<or> run ! (length run - 1) = 13)
    then store (run @ [0]) (length run - 1) 0 else Some (run @ [0])) = Some b"
  by (auto simp: store_def)

lemma gitignore_lines_eq:
  "returns (gitignore_lines runs base l added) (\<lambda>(l', n). let new = concat (map (\<lambda>run.
       case gitignore_rule base (chop_run run) of None \<Rightarrow> [] | Some r \<Rightarrow> [r]) runs)
     in l' = foldl ignore_list_add l new \<and> n = added + length new)"
proof (induction runs arbitrary: l added)
  case (Cons run runs)
  obtain b where b: "(if 0 < length run \<and> (run ! (length run - 1) = 10 \<or> run ! (length run - 1) = 13)
    then store (run @ [0]) (length run - 1) 0 else Some (run @ [0])) = Some b"
    using run_store by blast
  have w: "wf_block b" "cstr b = chop_run run" using run_block [OF b] by simp_all
  have e: "gitignore_lines (run # runs) base l added =
      (case gitignore_rule base (chop_run run) of
         Some r \<Rightarrow> gitignore_lines runs base (ignore_list_add l r) (added + 1)
       | None \<Rightarrow> gitignore_lines runs base l added)"
    using b parse_gitignore_line_eq [OF w(1), of base] w(2)
    unfolding gitignore_lines.simps Let_def by (simp split: option.split)
  show ?case
  proof (cases "gitignore_rule base (chop_run run)")
    case None
    with Cons [of l added] e show ?thesis by simp
  next
    case (Some r)
    with Cons [of "ignore_list_add l r" "added + 1"] e show ?thesis
      by (auto simp: Let_def elim!: returns_mono)
  qed
qed simp

lemma load_gitignore_rules:
  "returns (load_gitignore content is_file base l) (\<lambda>(l', n).
     (let new = (if is_file then (case content of None \<Rightarrow> [] | Some bytes \<Rightarrow> gitignore_rules base bytes) else [])
      in il_rules l' = il_rules l @ new \<and> n = length new) \<and>
     (ignore_growing.fits_cap l \<longrightarrow> ignore_growing.fits_cap l'))"
proof (cases "is_file \<and> content \<noteq> None")
  case True
  then obtain bytes where "content = Some bytes" by blast
  with True show ?thesis
    using gitignore_lines_eq [of "getlines bytes" base l 0]
    by (auto simp: load_gitignore_def gitignore_rules_def Let_def ignore_growing.elems_foldl
        ignore_growing.foldl_fits elim!: returns_mono)
qed (auto simp: load_gitignore_def)

section \<open>The last matching rule decides\<close>

lemma ignored_from_last:
  "ignored_from fnmatch rules p d ig =
     (case find (\<lambda>r. rule_matches fnmatch r p d) (rev rules) of
        None \<Rightarrow> ig | Some r \<Rightarrow> \<not> ir_negated r)"
proof (induction rules arbitrary: ig)
  case (Cons r rules)
  have f: "find P (xs @ [x]) = (case find P xs of None \<Rightarrow> if P x then Some x else None | Some y \<Rightarrow> Some y)"
    for P and xs :: "ignore_rule list" and x by (induction xs) auto
  from Cons show ?case by (simp add: f split: option.split)
qed simp

text \<open>The last element with a property, as a split of the list.\<close>

lemma find_rev_split:
  "(case find P (rev rs) of None \<Rightarrow> False | Some r \<Rightarrow> Q r) \<longleftrightarrow>
     (\<exists>A r B. rs = A @ r # B \<and> P r \<and> Q r \<and> (\<forall>x\<in>set B. \<not> P x))"
proof (induction rs rule: rev_induct)
  case (snoc r rs)
  show ?case
  proof (cases "P r")
    case True
    have "Q r" if "\<exists>A r' B. rs @ [r] = A @ r' # B \<and> P r' \<and> Q r' \<and> (\<forall>x\<in>set B. \<not> P x)"
      using that True by (metis append_butlast_last_id last.simps last_ConsR last_appendR last_in_set last_snoc list.distinct(1))
    with True show ?thesis by force
  next
    case False
    have "(\<exists>A r' B. rs @ [r] = A @ r' # B \<and> P r' \<and> Q r' \<and> (\<forall>x\<in>set B. \<not> P x)) =
        (\<exists>A r' B. rs = A @ r' # B \<and> P r' \<and> Q r' \<and> (\<forall>x\<in>set B. \<not> P x))" (is "?l = ?r")
    proof
      assume ?l
      then obtain A r' B where a: "rs @ [r] = A @ r' # B" "P r'" "Q r'" "\<forall>x\<in>set B. \<not> P x" by blast
      with False show ?r by (cases B rule: rev_cases) auto
    next
      assume ?r
      then obtain A r' B where "rs = A @ r' # B" "P r'" "Q r'" "\<forall>x\<in>set B. \<not> P x" by blast
      with False show ?l by (intro exI [of _ A] exI [of _ r'] exI [of _ "B @ [r]"]) auto
    qed
    with snoc False show ?thesis by simp
  qed
qed simp

end
