(* ===== verification/Order.thy ===== *)
theory Order
  imports Prelude "HOL-Library.Multiset"
begin

text \<open>
  Three-way comparison functions of the C code and what \<open>qsort\<close> does with them:
  \<open>pos_compare\<close> (\<open>src/editor.h\<close>) here, \<open>match_compare\<close> and \<open>span_compare\<close> in the components that
  sort with them. Positions are also made a linear order, so that the library's lemmas on \<open>\<le>\<close>
  apply to them.
\<close>

section \<open>Comparators\<close>

locale comparator =
  fixes cmp :: "'a \<Rightarrow> 'a \<Rightarrow> int"
  assumes cmp_antisym: "0 < cmp x y \<longleftrightarrow> cmp y x < 0"
    and cmp_trans: "cmp x y \<le> 0 \<Longrightarrow> cmp y z \<le> 0 \<Longrightarrow> cmp x z \<le> 0"
begin

lemma cmp_refl: "cmp x x = 0"
  using cmp_antisym [of x x] by auto

lemma cmp_total: "cmp x y \<le> 0 \<or> cmp y x \<le> 0"
  using cmp_antisym [of x y] by linarith

lemma cmp_sym_zero: "cmp x y = 0 \<longleftrightarrow> cmp y x = 0"
  using cmp_antisym [of x y] cmp_antisym [of y x] by linarith

end

locale total_comparator = comparator +
  assumes cmp_zero: "cmp x y = 0 \<Longrightarrow> x = y"
begin

text \<open>
  With no ties, a sorted arrangement is unique: any \<open>qsort\<close> that sorts gives the same array.
\<close>

lemma sorted_unique:
  "sorted_wrt (\<lambda>x y. cmp x y \<le> 0) xs \<Longrightarrow> sorted_wrt (\<lambda>x y. cmp x y \<le> 0) ys \<Longrightarrow>
   mset xs = mset ys \<Longrightarrow> xs = ys"
proof (induction xs arbitrary: ys)
  case (Cons x xs)
  then obtain y ys' where ys: "ys = y # ys'" by (cases ys) auto
  have "x \<in> set ys" "y \<in> set (x # xs)"
    using Cons.prems(3) ys by (metis list.set_intros(1) set_mset_mset)+
  with Cons.prems ys have "x = y \<or> cmp x y \<le> 0" "x = y \<or> cmp y x \<le> 0" by auto
  then have "x = y" using cmp_antisym [of x y] cmp_antisym [of y x] cmp_zero [of x y] by linarith
  with Cons ys show ?case by auto
qed simp

end

text \<open>The library sort, as insertion into a sorted array; equal elements keep their order.\<close>

fun cinsert :: "('a \<Rightarrow> 'a \<Rightarrow> int) \<Rightarrow> 'a \<Rightarrow> 'a list \<Rightarrow> 'a list" where
  "cinsert cmp x [] = [x]"
| "cinsert cmp x (y # ys) = (if cmp x y \<le> 0 then x # y # ys else y # cinsert cmp x ys)"

fun qsort :: "('a \<Rightarrow> 'a \<Rightarrow> int) \<Rightarrow> 'a list \<Rightarrow> 'a list" where
  "qsort cmp [] = []"
| "qsort cmp (x # xs) = cinsert cmp x (qsort cmp xs)"

lemma mset_cinsert [simp]: "mset (cinsert cmp x xs) = add_mset x (mset xs)"
  by (induction xs) auto

lemma mset_qsort [simp]: "mset (qsort cmp xs) = mset xs"
  by (induction xs) auto

lemma set_cinsert [simp]: "set (cinsert cmp x xs) = insert x (set xs)"
  by (metis mset_cinsert set_mset_add_mset_insert set_mset_mset)

lemma set_qsort [simp]: "set (qsort cmp xs) = set xs"
  by (metis mset_qsort set_mset_mset)

lemma length_qsort [simp]: "length (qsort cmp xs) = length xs"
  by (metis mset_qsort size_mset)

context comparator begin

lemma sorted_cinsert:
  "sorted_wrt (\<lambda>x y. cmp x y \<le> 0) xs \<Longrightarrow> sorted_wrt (\<lambda>x y. cmp x y \<le> 0) (cinsert cmp x xs)"
proof (induction xs)
  case (Cons y ys)
  then show ?case using cmp_total [of x y] by (auto intro: cmp_trans)
qed simp

lemma sorted_qsort: "sorted_wrt (\<lambda>x y. cmp x y \<le> 0) (qsort cmp xs)"
  by (induction xs) (auto intro: sorted_cinsert)

end

context total_comparator begin

lemma qsort_unique:
  "sorted_wrt (\<lambda>x y. cmp x y \<le> 0) ys \<Longrightarrow> mset ys = mset xs \<Longrightarrow> ys = qsort cmp xs"
  by (rule sorted_unique [OF _ sorted_qsort]) simp_all

end

section \<open>Positions\<close>

definition pos_compare :: "nat \<Rightarrow> nat \<Rightarrow> nat \<Rightarrow> nat \<Rightarrow> int" where
  "pos_compare row_a col_a row_b col_b =
     (if row_a < row_b then -1
      else if row_a > row_b then 1
      else if col_a < col_b then -1
      else if col_a > col_b then 1
      else 0)"

datatype pos = Pos (p_row: nat) (p_col: nat)

instantiation pos :: linorder
begin

definition less_eq_pos :: "pos \<Rightarrow> pos \<Rightarrow> bool" where
  "less_eq_pos p q \<longleftrightarrow> p_row p < p_row q \<or> (p_row p = p_row q \<and> p_col p \<le> p_col q)"

definition less_pos :: "pos \<Rightarrow> pos \<Rightarrow> bool" where
  "less_pos p q \<longleftrightarrow> p_row p < p_row q \<or> (p_row p = p_row q \<and> p_col p < p_col q)"

instance
  by intro_classes (auto simp: less_eq_pos_def less_pos_def intro: pos.expand)

end

definition pos_cmp :: "pos \<Rightarrow> pos \<Rightarrow> int" where
  "pos_cmp p q = pos_compare (p_row p) (p_col p) (p_row q) (p_col q)"

interpretation pos_order: total_comparator pos_cmp
  by unfold_locales (auto simp: pos_cmp_def pos_compare_def intro: pos.expand split: if_splits)

lemma pos_cmp_le: "pos_cmp p q \<le> 0 \<longleftrightarrow> p \<le> q"
  by (auto simp: pos_cmp_def pos_compare_def less_eq_pos_def)

lemma pos_compare_gt: "0 < pos_compare ra ca rb cb \<longleftrightarrow> Pos rb cb < Pos ra ca"
  by (auto simp: pos_compare_def less_pos_def)

end
