(* ===== verification/Editable.thy ===== *)
theory Editable
  imports Buffer Order
begin

text \<open>
  The contract between the buffer and the commands that edit through it. An editable text has
  three operations (put a byte, break a line, cut a region) whose effect on the flat text is a
  splice at the offset of the position, and which keep the positions in front of it. The commands
  built from them (typing a run of bytes, as a yank does, and taking it out again) are proved once
  here, and the operations of \<open>src/buffer.c\<close> are shown to satisfy the contract.
\<close>

section \<open>The contract\<close>

text \<open>The loop of \<open>editor_yank_from\<close>: each byte is put, or a line broken, at the moving cursor.\<close>

fun type_bytes ::
  "('b \<Rightarrow> nat \<Rightarrow> nat \<Rightarrow> byte \<Rightarrow> 'b option) \<Rightarrow> ('b \<Rightarrow> nat \<Rightarrow> nat \<Rightarrow> 'b option) \<Rightarrow>
   'b \<Rightarrow> nat \<Rightarrow> nat \<Rightarrow> byte list \<Rightarrow> ('b \<times> nat \<times> nat) option" where
  "type_bytes put brk b row col [] = Some (b, row, col)"
| "type_bytes put brk b row col (ch # data) =
     (if ch = nl then do { b \<leftarrow> brk b row col; type_bytes put brk b (row + 1) 0 data }
      else do { b \<leftarrow> put b row col ch; type_bytes put brk b row (col + 1) data })"

definition keeps_front :: "byte list list \<Rightarrow> byte list list \<Rightarrow> nat \<Rightarrow> nat \<Rightarrow> bool" where
  "keeps_front T U row col \<longleftrightarrow>
     (\<forall>r c. in_text T r c \<longrightarrow> Pos r c \<le> Pos row col \<longrightarrow> in_text U r c \<and> offset U r c = offset T r c)"

lemma keeps_front_trans:
  "keeps_front T U row col \<Longrightarrow> keeps_front U V row' col' \<Longrightarrow> Pos row col \<le> Pos row' col' \<Longrightarrow>
   keeps_front T V row col"
  unfolding keeps_front_def by (metis order_trans)

locale editable =
  fixes ok :: "'b \<Rightarrow> bool" and tx :: "'b \<Rightarrow> byte list list"
    and put :: "'b \<Rightarrow> nat \<Rightarrow> nat \<Rightarrow> byte \<Rightarrow> 'b option"
    and brk :: "'b \<Rightarrow> nat \<Rightarrow> nat \<Rightarrow> 'b option"
    and cut :: "'b \<Rightarrow> nat \<Rightarrow> nat \<Rightarrow> nat \<Rightarrow> nat \<Rightarrow> 'b option"
  assumes put_law: "ok b \<Longrightarrow> in_text (tx b) row col \<Longrightarrow> ch \<noteq> 0 \<Longrightarrow>
      returns (put b row col ch) (\<lambda>b'. ok b' \<and>
        flat (tx b') = ins (offset (tx b) row col) [ch] (flat (tx b)) \<and>
        in_text (tx b') row (col + 1) \<and>
        offset (tx b') row (col + 1) = offset (tx b) row col + 1 \<and>
        keeps_front (tx b) (tx b') row col)"
    and brk_law: "ok b \<Longrightarrow> in_text (tx b) row col \<Longrightarrow>
      returns (brk b row col) (\<lambda>b'. ok b' \<and>
        flat (tx b') = ins (offset (tx b) row col) [nl] (flat (tx b)) \<and>
        in_text (tx b') (row + 1) 0 \<and>
        offset (tx b') (row + 1) 0 = offset (tx b) row col + 1 \<and>
        keeps_front (tx b) (tx b') row col)"
    and cut_law: "ok b \<Longrightarrow> in_text (tx b) sr sc \<Longrightarrow> in_text (tx b) er ec \<Longrightarrow>
      Pos sr sc \<le> Pos er ec \<Longrightarrow>
      returns (cut b sr sc er ec) (\<lambda>b'. ok b' \<and>
        flat (tx b') = del (offset (tx b) sr sc) (offset (tx b) er ec) (flat (tx b)) \<and>
        in_text (tx b') sr sc \<and> offset (tx b') sr sc = offset (tx b) sr sc)"
begin

lemma type_bytes_ins:
  "ok b \<Longrightarrow> in_text (tx b) row col \<Longrightarrow> 0 \<notin> set data \<Longrightarrow>
   returns (type_bytes put brk b row col data) (\<lambda>(b', row', col'). ok b' \<and>
     flat (tx b') = ins (offset (tx b) row col) data (flat (tx b)) \<and>
     in_text (tx b') row' col' \<and> offset (tx b') row' col' = offset (tx b) row col + length data \<and>
     Pos row col \<le> Pos row' col' \<and> keeps_front (tx b) (tx b') row col)"
proof (induction data arbitrary: b row col)
  case Nil
  then show ?case by (simp add: keeps_front_def)
next
  case (Cons ch data)
  have off: "offset (tx b) row col \<le> length (flat (tx b))"
    using Cons.prems(2) by (rule offset_le_length)
  define step where "step = (if ch = nl then brk b row col else put b row col ch)"
  define r c where "r = (if ch = nl then row + 1 else row)" and "c = (if ch = nl then 0 else col + 1)"
  have le: "Pos row col \<le> Pos r c" by (simp add: r_def c_def less_eq_pos_def)
  from Cons.prems have "returns step (\<lambda>b'. ok b' \<and>
        flat (tx b') = ins (offset (tx b) row col) [ch] (flat (tx b)) \<and>
        in_text (tx b') r c \<and> offset (tx b') r c = offset (tx b) row col + 1 \<and>
        keeps_front (tx b) (tx b') row col)"
    unfolding step_def r_def c_def
    using put_law [of b row col ch] brk_law [of b row col] by (cases "ch = nl") simp_all
  then obtain b1 where b1: "step = Some b1" "ok b1" "in_text (tx b1) r c"
      "flat (tx b1) = ins (offset (tx b) row col) [ch] (flat (tx b))"
      "offset (tx b1) r c = offset (tx b) row col + 1" "keeps_front (tx b) (tx b1) row col"
    by (auto elim: returnsE)
  have "type_bytes put brk b row col (ch # data) = type_bytes put brk b1 r c data"
    using b1(1) by (auto simp: step_def r_def c_def split: if_splits)
  moreover have "returns (type_bytes put brk b1 r c data) (\<lambda>(b', row', col'). ok b' \<and>
     flat (tx b') = ins (offset (tx b1) r c) data (flat (tx b1)) \<and>
     in_text (tx b') row' col' \<and> offset (tx b') row' col' = offset (tx b1) r c + length data \<and>
     Pos r c \<le> Pos row' col' \<and> keeps_front (tx b1) (tx b') r c)"
    using b1 Cons.prems by (intro Cons.IH) simp_all
  moreover have "ins (offset (tx b1) r c) data (flat (tx b1)) =
      ins (offset (tx b) row col) (ch # data) (flat (tx b))"
    using ins_append [OF off, of "[ch]" data] b1 by simp
  ultimately show ?case
    using b1 le by (auto elim!: returns_mono intro: order_trans keeps_front_trans)
qed

text \<open>Taking the typed bytes out again gives the text there was before.\<close>

lemma type_bytes_cut:
  assumes "ok b" "in_text (tx b) row col" "0 \<notin> set data"
  shows "returns (do { (b', row', col') \<leftarrow> type_bytes put brk b row col data;
                       cut b' row col row' col' })
     (\<lambda>b''. ok b'' \<and> flat (tx b'') = flat (tx b))"
proof -
  obtain b' row' col' where b': "type_bytes put brk b row col data = Some (b', row', col')" "ok b'"
      "flat (tx b') = ins (offset (tx b) row col) data (flat (tx b))"
      "in_text (tx b') row' col'" "offset (tx b') row' col' = offset (tx b) row col + length data"
      "Pos row col \<le> Pos row' col'" "keeps_front (tx b) (tx b') row col"
    using type_bytes_ins [OF assms] by (auto elim!: returnsE)
  then have "in_text (tx b') row col" "offset (tx b') row col = offset (tx b) row col"
    using assms(2) by (auto simp: keeps_front_def)
  with b' cut_law [of b' row col row' col'] offset_le_length [OF assms(2)] show ?thesis
    by (auto simp: del_ins elim!: returns_mono)
qed

text \<open>Cutting a region and typing its text at the same place restores the text.\<close>

lemma cut_type_bytes:
  assumes "ok b" "in_text (tx b) sr sc" "in_text (tx b) er ec" "Pos sr sc \<le> Pos er ec"
    and "data = slice (offset (tx b) sr sc) (offset (tx b) er ec) (flat (tx b))"
    and "0 \<notin> set data" "offset (tx b) sr sc \<le> offset (tx b) er ec"
  shows "returns (do { b' \<leftarrow> cut b sr sc er ec; type_bytes put brk b' sr sc data })
     (\<lambda>(b'', row, col). ok b'' \<and> flat (tx b'') = flat (tx b) \<and> in_text (tx b'') row col \<and>
        offset (tx b'') row col = offset (tx b) er ec)"
proof -
  obtain b' where b': "cut b sr sc er ec = Some b'" "ok b'"
      "flat (tx b') = del (offset (tx b) sr sc) (offset (tx b) er ec) (flat (tx b))"
      "in_text (tx b') sr sc" "offset (tx b') sr sc = offset (tx b) sr sc"
    using cut_law [OF assms(1-4)] by (auto elim: returnsE)
  have e: "offset (tx b) er ec \<le> length (flat (tx b))" using assms(3) by (rule offset_le_length)
  then have "length data = offset (tx b) er ec - offset (tx b) sr sc"
    by (simp add: assms(5) slice_def)
  with b' type_bytes_ins [OF b'(2,4) assms(6)] assms(7) e show ?thesis
    by (auto simp: assms(5) ins_slice_del elim!: returns_mono)
qed

end

section \<open>The buffer satisfies it\<close>

lemma keeps_front_rows:
  assumes "length A = row" "\<And>c. c \<le> col \<Longrightarrow> c \<le> length l \<Longrightarrow> c \<le> length k"
  shows "keeps_front (A @ l # B) (A @ k # C) row col"
  unfolding keeps_front_def
proof (intro allI impI)
  fix r c assume a: "in_text (A @ l # B) r c" "Pos r c \<le> Pos row col"
  then consider "r < row" | "r = row" "c \<le> col" by (auto simp: less_eq_pos_def)
  then show "in_text (A @ k # C) r c \<and> offset (A @ k # C) r c = offset (A @ l # B) r c"
    using a assms by cases (auto simp: in_text_def offset_def nth_append)
qed

lemma texts_split:
  assumes "in_text (texts buf) row col"
  obtains A l B where "texts buf = A @ l # B" "length A = row" "ltext buf row = l" "col \<le> length l"
    "row < line_count buf" "take row (texts buf) = A" "drop (Suc row) (texts buf) = B"
proof -
  from assms have r: "row < length (texts buf)" by (simp add: in_text_def)
  then obtain A l B where s: "texts buf = A @ l # B" "length A = row" "texts buf ! row = l"
    "take row (texts buf) = A" "drop (Suc row) (texts buf) = B" by (rule split_at)
  show thesis
    by (rule that [OF s(1,2) _ _ _ s(4,5)]) (use assms s(3) in \<open>auto simp: in_text_def\<close>)
qed

lemma buffer_insert_char_texts:
  assumes "wf_buffer buf" "row < line_count buf" "ch \<noteq> 0"
  shows "returns (buffer_insert_char buf row col ch) (\<lambda>b'. wf_buffer b' \<and>
    line_count b' = line_count buf \<and> texts b' = (texts buf)[row :=
      take (min col (length (ltext buf row))) (ltext buf row) @ ch #
      drop (min col (length (ltext buf row))) (ltext buf row)])"
proof -
  let ?s = "ltext buf row" and ?c = "min col (length (ltext buf row))"
  have b: "take ?c ?s @ ch # drop ?c ?s @ [0] = (take ?c ?s @ ch # drop ?c ?s) @ 0 # []" by simp
  have "0 \<notin> set (take ?c ?s @ ch # drop ?c ?s)"
    using assms(3) by (simp add: set_take_sub set_drop_sub)
  then have "cstr (take ?c ?s @ ch # drop ?c ?s @ [0]) = take ?c ?s @ ch # drop ?c ?s"
    unfolding b by (rule cstr_append_nul)
  moreover have "wf_block (take ?c ?s @ ch # drop ?c ?s @ [0])"
    unfolding b by (rule wf_block_append_nul)
  ultimately show ?thesis
    using assms by (simp add: buffer_insert_char_eq Let_def wf_set_line)
qed

lemma buffer_insert_newline_texts:
  assumes "wf_buffer buf" "row < line_count buf"
  shows "returns (buffer_insert_newline buf row col) (\<lambda>b'. wf_buffer b' \<and>
    line_count b' = line_count buf + 1 \<and> texts b' = take row (texts buf) @
      [take (min col (length (ltext buf row))) (ltext buf row),
       drop (min col (length (ltext buf row))) (ltext buf row)] @ drop (Suc row) (texts buf))"
  using assms
  by (auto simp: buffer_insert_newline_eq Let_def wf_buffer_def texts_def take_map drop_map
      set_take_sub set_drop_sub dest: in_set_takeD in_set_dropD)

interpretation ved: editable wf_buffer texts buffer_insert_char buffer_insert_newline buffer_delete_region
proof (unfold_locales, goal_cases)
  case (1 b row col ch)
  from 1(2) obtain A l B where s: "texts b = A @ l # B" "length A = row" "ltext b row = l"
    "col \<le> length l" "row < line_count b" by (rule texts_split)
  with buffer_insert_char_texts [OF 1(1) s(5) 1(3), of col] show ?case
    using flat_ins [of "texts b" A l B row col "[ch]"]
    by (auto simp: list_update_append in_text_def offset_def nth_append elim!: returns_mono
        intro!: keeps_front_rows)
next
  case (2 b row col)
  from 2(2) obtain A l B where s: "texts b = A @ l # B" "length A = row" "ltext b row = l"
    "col \<le> length l" "row < line_count b" "take row (texts b) = A" "drop (Suc row) (texts b) = B"
    by (rule texts_split)
  with buffer_insert_newline_texts [OF 2(1) s(5), of col] show ?case
    using flat_break [of "texts b" A l B row col]
    by (auto simp: in_text_def offset_def nth_append elim!: returns_mono intro!: keeps_front_rows)
next
  case (3 b sr sc er ec)
  note wf = 3(1)
  from 3(2) obtain A l B where s: "texts b = A @ l # B" "length A = sr" "ltext b sr = l"
    "sc \<le> length l" "sr < line_count b" "take sr (texts b) = A" "drop (Suc sr) (texts b) = B"
    by (rule texts_split)
  from 3(3) have e: "er < line_count b" "ec \<le> length (ltext b er)" by (auto simp: in_text_def)
  from 3(4) consider "sr = er" "sc \<le> ec" | "sr < er" by (auto simp: less_eq_pos_def)
  then show ?case
  proof cases
    case 1
    with s e have c: "buffer_delete_region b sr sc er ec = buffer_delete_range b sr sc ec"
      by (simp add: buffer_delete_region_def buffer_delete_ordered_def)
    let ?b' = "if ec \<le> sc then b else set_line b sr (cut_block (b_lines b ! sr) sc ec)"
    have r: "buffer_delete_range b sr sc ec = Some ?b'"
      using 1(2) s e unfolding 1(1) [symmetric]
      by (simp add: buffer_delete_range_eq [OF wf s(5)] Let_def min_absorb1)
    have "texts ?b' = A @ (take sc l @ drop ec l) # B"
      using 1 s e by (auto simp: list_update_append ltext_def [symmetric])
    with 1 s e wf r c flat_cut [of "texts b" A l B sr sc ec] show ?thesis
      by (auto simp: in_text_def offset_def nth_append wf_set_line)
  next
    case 2
    with s e have c: "buffer_delete_region b sr sc er ec = buffer_delete_ordered b sr sc er ec"
      by (simp add: buffer_delete_region_def)
    let ?k = "ltext b er"
    let ?L = "take sr (b_lines b) @ [take sc l @ drop ec ?k @ [0]] @ drop (Suc er) (b_lines b)"
    have r: "buffer_delete_ordered b sr sc er ec = Some (b\<lparr>b_lines := ?L\<rparr>)"
      using 2 s e by (simp add: buffer_delete_ordered_rows_eq [OF wf 2 e(1)] Let_def)
    have wf': "wf_buffer (b\<lparr>b_lines := ?L\<rparr>)"
      using wf e 2 by (auto simp: wf_buffer_def wf_block_def dest: in_set_takeD in_set_dropD)
    have "cstr (take sc l @ drop ec ?k @ [0]) = take sc l @ drop ec ?k"
      using cstr_append_nul [of "take sc l @ drop ec ?k" "[]"] s(3)
      by (auto simp: set_take_sub set_drop_sub simp del: cstr_append_nul)
    then have t: "texts (b\<lparr>b_lines := ?L\<rparr>) = A @ (take sc l @ drop ec ?k) # drop (Suc er) (texts b)"
      using s(6) by (simp add: texts_def take_map drop_map)
    have er: "er = length A + Suc (er - Suc sr)" using 2 s(2) by simp
    have "drop (Suc sr) (texts b) = take (er - Suc sr) (drop (Suc sr) (texts b)) @ drop er (texts b)"
      using 2 by (metis Suc_leI append_take_drop_id drop_drop le_add_diff_inverse2)
    moreover have "drop er (texts b) = ?k # drop (Suc er) (texts b)"
      using e(1) by (metis Cons_nth_drop_Suc length_texts texts_nth)
    ultimately have "B = take (er - Suc sr) B @ ?k # drop (Suc er) (texts b)"
      unfolding s(7) by argo
    then have M: "texts b = A @ l # take (er - Suc sr) B @ ?k # drop (Suc er) (texts b)"
      using s(1) by argo
    have len: "length (take (er - Suc sr) B) = er - Suc sr"
      using e 2 s(7) [symmetric] by simp
    from flat_cut_rows [OF M s(2) [symmetric] _ s(4) e(2)] er len
    have "flat (A @ (take sc l @ drop ec ?k) # drop (Suc er) (texts b)) =
        del (offset (texts b) sr sc) (offset (texts b) er ec) (flat (texts b))" by simp
    with c r wf' t s show ?thesis
      by (auto simp: in_text_def offset_def nth_append)
  qed
qed

end
