(* ===== verification/Chars.thy ===== *)
theory Chars
  imports Utf8
begin

text \<open>
  Character classes and the loops that walk over a line while they hold. \<open>tolower\<close> and \<open>isspace\<close>
  are the C library's in the "C" locale (the program never calls \<open>setlocale\<close>); the word
  characters are those of \<open>is_word_char\<close> in \<open>src/input.c\<close>, which \<open>src/finder.c\<close> repeats as
  \<open>finder_is_word_char\<close>. The same two loop shapes occur in the cursor motions, the prompt, the
  kill commands and the finder, each time with another stop condition.
\<close>

section \<open>Classes\<close>

definition tolower :: "byte \<Rightarrow> byte" where
  "tolower c = (if 65 \<le> c \<and> c \<le> 90 then c + 32 else c)"

definition isspace :: "byte \<Rightarrow> bool" where
  "isspace c \<longleftrightarrow> c = 32 \<or> (9 \<le> c \<and> c \<le> 13)"

definition is_word_char :: "byte \<Rightarrow> bool" where
  "is_word_char ch \<longleftrightarrow>
     (if ch \<ge> 128 then True
      else (ch \<ge> 97 \<and> ch \<le> 122) \<or> (ch \<ge> 65 \<and> ch \<le> 90) \<or> (ch \<ge> 48 \<and> ch \<le> 57) \<or> ch = 95)"

definition finder_is_word_char :: "byte \<Rightarrow> bool" where
  "finder_is_word_char ch \<longleftrightarrow>
     (if ch \<ge> 128 then True
      else (ch \<ge> 97 \<and> ch \<le> 122) \<or> (ch \<ge> 65 \<and> ch \<le> 90) \<or> (ch \<ge> 48 \<and> ch \<le> 57) \<or> ch = 95)"

definition not_word_char :: "byte \<Rightarrow> bool" where
  "not_word_char ch \<longleftrightarrow> \<not> is_word_char ch"

definition not_space :: "byte \<Rightarrow> bool" where
  "not_space ch \<longleftrightarrow> ch \<ge> 128 \<or> \<not> isspace ch"

section \<open>Walking loops\<close>

lemma utf8_next_loop_ge: "utf8_next_loop b len c = Some c' \<Longrightarrow> c \<le> c'"
proof (induction b len c rule: utf8_next_loop.induct)
  case (1 line len col)
  then show ?case
    by (subst (asm) (2) utf8_next_loop.simps)
       (fastforce simp: bind_eq_Some_conv split: if_splits)
qed

lemma utf8_next_boundary_progress:
  "col < len \<Longrightarrow> utf8_next_boundary b len col = Some c \<Longrightarrow> col < c"
  by (auto simp: utf8_next_boundary_def dest: utf8_next_loop_ge)

lemma utf8_prev_loop_le: "utf8_prev_loop b c = Some c' \<Longrightarrow> c' \<le> c"
  by (induction b c rule: utf8_prev_loop.induct)
     (auto simp: bind_eq_Some_conv split: if_splits)

lemma utf8_prev_boundary_progress:
  "0 < col \<Longrightarrow> utf8_prev_boundary b col = Some c \<Longrightarrow> c < col"
  by (cases col) (auto simp: utf8_prev_boundary_def less_Suc_eq_le dest: utf8_prev_loop_le)

text \<open>
  \<open>while (col < len) { ch = line[col]; if (stop ch) break; col = utf8_next_boundary(...); }\<close>
\<close>

function skip_forward :: "(byte \<Rightarrow> bool) \<Rightarrow> block \<Rightarrow> nat \<Rightarrow> nat \<Rightarrow> nat option" where
  "skip_forward stop line len col =
     (if col < len then do {
        ch \<leftarrow> load line col;
        if stop ch then Some col
        else do {
          col \<leftarrow> utf8_next_boundary line len col;
          skip_forward stop line len col
        }
      } else Some col)"
  by pat_completeness auto
termination
  by (relation "measure (\<lambda>(stop, line, len, col). len - col)")
     (auto dest: utf8_next_boundary_progress [rotated])

declare skip_forward.simps [simp del]

text \<open>
  \<open>while (col > 0) { prev = utf8_prev_boundary(line, col); ch = line[prev];
  if (stop ch) break; col = prev; }\<close>
\<close>

function skip_backward :: "(byte \<Rightarrow> bool) \<Rightarrow> block \<Rightarrow> nat \<Rightarrow> nat option" where
  "skip_backward stop line col =
     (if col > 0 then do {
        prev \<leftarrow> utf8_prev_boundary line col;
        ch \<leftarrow> load line prev;
        if stop ch then Some col else skip_backward stop line prev
      } else Some col)"
  by pat_completeness auto
termination
  by (relation "measure (\<lambda>(stop, line, col). col)") (auto dest: utf8_prev_boundary_progress)

declare skip_backward.simps [simp del]

section \<open>What the loops return\<close>

text \<open>
  Forward: the first stop at or after \<open>col\<close> (counting character starts) or the end of the line.
  Backward: the first position at or before \<open>col\<close> that has a stop in front of it, or 0.
\<close>

definition forward_stop :: "(byte \<Rightarrow> bool) \<Rightarrow> byte list \<Rightarrow> nat \<Rightarrow> nat \<Rightarrow> bool" where
  "forward_stop stop s col c \<longleftrightarrow> col \<le> c \<and> c \<le> length s \<and> (c = col \<or> is_bnd s c) \<and>
     (c < length s \<longrightarrow> stop (s ! c)) \<and>
     (\<forall>i. col \<le> i \<longrightarrow> i < c \<longrightarrow> i = col \<or> is_bnd s i \<longrightarrow> \<not> stop (s ! i))"

definition backward_stop :: "(byte \<Rightarrow> bool) \<Rightarrow> byte list \<Rightarrow> nat \<Rightarrow> nat \<Rightarrow> bool" where
  "backward_stop stop s col c \<longleftrightarrow> c \<le> col \<and> (c = col \<or> is_bnd s c) \<and>
     (0 < c \<longrightarrow> stop (s ! prev_bnd s c)) \<and>
     (\<forall>i. c \<le> i \<longrightarrow> i < col \<longrightarrow> is_bnd s i \<longrightarrow> \<not> stop (s ! i))"

lemma utf8_next_boundary_cstr:
  "wf_block b \<Longrightarrow> utf8_next_boundary b (length (cstr b)) col = Some (next_bnd (cstr b) col)"
  using length_cstr_less [of b] by (simp add: utf8_next_boundary_eq take_cstr)

lemma utf8_prev_boundary_cstr:
  "wf_block b \<Longrightarrow> col \<le> length (cstr b) \<Longrightarrow> utf8_prev_boundary b col = Some (prev_bnd (cstr b) col)"
  using length_cstr_less [of b] by (simp add: utf8_prev_boundary_eq prev_bnd_cstr)

lemma forward_stop_step:
  assumes "col < length s" "\<not> stop (s ! col)" "forward_stop stop s (next_bnd s col) c"
  shows "forward_stop stop s col c"
proof -
  have n: "col < next_bnd s col" "is_bnd s (next_bnd s col)"
    using assms(1) next_bnd_greater next_bnd_is_bnd by auto
  note f = assms(3) [unfolded forward_stop_def]
  have "\<not> stop (s ! i)" if i: "col \<le> i" "i < c" "i = col \<or> is_bnd s i" for i
  proof -
    consider "i = col" | "col < i" "i < next_bnd s col" | "next_bnd s col \<le> i"
      using i(1) by (metis le_neq_implies_less not_le_imp_less)
    then show ?thesis
      using assms(2) utf8_steps.nxt_least [of col i s] i f n by cases blast+
  qed
  with f n show ?thesis by (auto simp: forward_stop_def)
qed

lemma skip_forward_stop:
  "wf_block b \<Longrightarrow> col \<le> length (cstr b) \<Longrightarrow>
    returns (skip_forward stop b (length (cstr b)) col) (forward_stop stop (cstr b) col)"
proof (induction stop b "length (cstr b)" col rule: skip_forward.induct)
  case (1 stop line col)
  let ?s = "cstr line"
  show ?case
  proof (cases "col < length ?s \<and> \<not> stop (?s ! col)")
    case True
    let ?n = "next_bnd ?s col"
    have n: "col < ?n" "?n \<le> length ?s" using True next_bnd_greater next_bnd_le by auto
    have "returns (skip_forward stop line (length ?s) ?n) (forward_stop stop ?s ?n)"
      using True n 1 by (simp add: load_cstr utf8_next_boundary_cstr)
    moreover have "forward_stop stop ?s ?n c \<Longrightarrow> forward_stop stop ?s col c" for c
      using True by (auto intro: forward_stop_step)
    ultimately have "returns (skip_forward stop line (length ?s) ?n) (forward_stop stop ?s col)"
      by (rule returns_mono)
    with True 1(2,3) show ?thesis
      by (subst skip_forward.simps) (simp add: load_cstr utf8_next_boundary_cstr)
  next
    case False
    with 1(2,3) show ?thesis
      by (subst skip_forward.simps) (auto simp: load_cstr forward_stop_def)
  qed
qed

lemma prev_bnd_lt_len: "0 < col \<Longrightarrow> col \<le> length s \<Longrightarrow> prev_bnd s col < length s"
  using prev_bnd_less [of col s] by simp

lemma backward_stop_step:
  assumes "0 < col" "col \<le> length s" "\<not> stop (s ! prev_bnd s col)"
    "backward_stop stop s (prev_bnd s col) c"
  shows "backward_stop stop s col c"
proof -
  have p: "prev_bnd s col < col" "is_bnd s (prev_bnd s col)"
    using assms(1,2) prev_bnd_less prev_bnd_is_bnd by auto
  note f = assms(4) [unfolded backward_stop_def]
  have "\<not> stop (s ! i)" if i: "c \<le> i" "i < col" "is_bnd s i" for i
  proof -
    consider "i = prev_bnd s col" | "prev_bnd s col < i" | "i < prev_bnd s col" by (rule linorder_cases)
    then show ?thesis
      using assms(2,3) utf8_steps.prv_greatest [of col s i] i f by cases blast+
  qed
  with f p show ?thesis by (auto simp: backward_stop_def)
qed

lemma skip_backward_stop:
  "wf_block b \<Longrightarrow> col \<le> length (cstr b) \<Longrightarrow>
    returns (skip_backward stop b col) (backward_stop stop (cstr b) col)"
proof (induction stop b col rule: skip_backward.induct)
  case (1 stop line col)
  let ?s = "cstr line"
  show ?case
  proof (cases "0 < col \<and> \<not> stop (?s ! prev_bnd ?s col)")
    case True
    let ?p = "prev_bnd ?s col"
    have p: "?p < col" "?p < length ?s" using True 1 prev_bnd_less prev_bnd_lt_len by auto
    have "returns (skip_backward stop line ?p) (backward_stop stop ?s ?p)"
      using True p 1 by (simp add: load_cstr utf8_prev_boundary_cstr)
    moreover have "backward_stop stop ?s ?p c \<Longrightarrow> backward_stop stop ?s col c" for c
      using True 1(3) by (auto intro: backward_stop_step)
    ultimately have "returns (skip_backward stop line ?p) (backward_stop stop ?s col)"
      by (rule returns_mono)
    with True p 1(2,3) show ?thesis
      by (subst skip_backward.simps) (simp add: load_cstr utf8_prev_boundary_cstr)
  next
    case False
    with 1(2,3) prev_bnd_lt_len [of col ?s] show ?thesis
      by (subst skip_backward.simps)
         (auto simp: load_cstr utf8_prev_boundary_cstr backward_stop_def)
  qed
qed

end
