(* ===== verification/Field.thy ===== *)
theory Field
  imports Chars Text
begin

text \<open>
  The one-line input fields: the "Save as" prompt of \<open>src/input.c\<close> (\<open>prompt_buf\<close>, \<open>prompt_len\<close>,
  \<open>prompt_col\<close>) and the query of the file finder (\<open>query\<close>, \<open>query_len\<close>, \<open>query_col\<close>). Both are a
  fixed array of 256 bytes with a length and a cursor, edited by \<open>memmove\<close>, and the two files
  repeat the same functions for them. The definitions follow the \<open>prompt_*\<close> functions; the finder
  calls them on its query. The lemmas show that the array implements a string with a cursor and
  is never left, whatever is typed.
\<close>

section \<open>The field and its operations\<close>

record field =
  fl_buf :: block
  fl_len :: nat
  fl_col :: nat

definition FIELD_SIZE :: nat where
  "FIELD_SIZE = 256"

text \<open>Subtraction of \<open>size_t\<close> values, which wraps around.\<close>

definition usub :: "nat \<Rightarrow> nat \<Rightarrow> nat" where
  "usub a b = (if b \<le> a then a - b else a + 2 ^ 64 - b)"

definition field_empty :: field where
  "field_empty = \<lparr>fl_buf = replicate FIELD_SIZE 0, fl_len = 0, fl_col = 0\<rparr>"

definition field_reset :: "field \<Rightarrow> field option" where
  "field_reset f = do {
     buf \<leftarrow> store (fl_buf f) 0 0;
     Some \<lparr>fl_buf = buf, fl_len = 0, fl_col = 0\<rparr>
   }"

definition field_move_start :: "field \<Rightarrow> field" where
  "field_move_start f = f\<lparr>fl_col := 0\<rparr>"

definition field_move_end :: "field \<Rightarrow> field" where
  "field_move_end f = f\<lparr>fl_col := fl_len f\<rparr>"

definition field_move_prev_char :: "field \<Rightarrow> field option" where
  "field_move_prev_char f = do {
     col \<leftarrow> utf8_prev_boundary (fl_buf f) (fl_col f);
     Some (f\<lparr>fl_col := col\<rparr>)
   }"

definition field_move_next_char :: "field \<Rightarrow> field option" where
  "field_move_next_char f = do {
     col \<leftarrow> utf8_next_boundary (fl_buf f) (fl_len f) (fl_col f);
     Some (f\<lparr>fl_col := col\<rparr>)
   }"

definition field_move_prev_word :: "field \<Rightarrow> field option" where
  "field_move_prev_word f =
     (if fl_col f = 0 then Some f
      else do {
        col \<leftarrow> skip_backward is_word_char (fl_buf f) (fl_col f);
        col \<leftarrow> skip_backward not_word_char (fl_buf f) col;
        Some (f\<lparr>fl_col := col\<rparr>)
      })"

definition field_move_next_word :: "field \<Rightarrow> field option" where
  "field_move_next_word f = do {
     col \<leftarrow> skip_forward is_word_char (fl_buf f) (fl_len f) (fl_col f);
     col \<leftarrow> skip_forward not_word_char (fl_buf f) (fl_len f) col;
     Some (f\<lparr>fl_col := col\<rparr>)
   }"

definition field_delete_range :: "field \<Rightarrow> nat \<Rightarrow> nat \<Rightarrow> field option" where
  "field_delete_range f start end =
     (if end \<le> start \<or> end > fl_len f then Some f
      else do {
        buf \<leftarrow> memmove (fl_buf f) start end (fl_len f - end + 1);
        Some \<lparr>fl_buf = buf, fl_len = fl_len f - (end - start), fl_col = start\<rparr>
      })"

definition field_delete_backward :: "field \<Rightarrow> field option" where
  "field_delete_backward f =
     (if fl_col f = 0 then Some f
      else do {
        start \<leftarrow> utf8_prev_boundary (fl_buf f) (fl_col f);
        field_delete_range f start (fl_col f)
      })"

definition field_delete_forward :: "field \<Rightarrow> field option" where
  "field_delete_forward f =
     (if fl_col f \<ge> fl_len f then Some f
      else do {
        end \<leftarrow> utf8_next_boundary (fl_buf f) (fl_len f) (fl_col f);
        field_delete_range f (fl_col f) end
      })"

definition field_delete_prev_word :: "field \<Rightarrow> field option" where
  "field_delete_prev_word f =
     (if fl_col f = 0 then Some f
      else do {
        start \<leftarrow> skip_backward not_space (fl_buf f) (fl_col f);
        start \<leftarrow> skip_backward not_word_char (fl_buf f) start;
        field_delete_range f start (fl_col f)
      })"

definition field_delete_next_word :: "field \<Rightarrow> field option" where
  "field_delete_next_word f = do {
     end \<leftarrow> skip_forward not_space (fl_buf f) (fl_len f) (fl_col f);
     end \<leftarrow> skip_forward not_word_char (fl_buf f) (fl_len f) end;
     field_delete_range f (fl_col f) end
   }"

definition field_kill_to_end :: "field \<Rightarrow> field option" where
  "field_kill_to_end f = field_delete_range f (fl_col f) (fl_len f)"

definition field_insert :: "field \<Rightarrow> byte \<Rightarrow> field option" where
  "field_insert f key =
     (if fl_len f + 1 \<ge> FIELD_SIZE then Some f
      else do {
        buf \<leftarrow> memmove (fl_buf f) (fl_col f + 1) (fl_col f) (usub (fl_len f) (fl_col f) + 1);
        buf \<leftarrow> store buf (fl_col f) key;
        Some \<lparr>fl_buf = buf, fl_len = fl_len f + 1, fl_col = fl_col f + 1\<rparr>
      })"

section \<open>The string with a cursor it implements\<close>

definition field_text :: "field \<Rightarrow> byte list" where
  "field_text f = take (fl_len f) (fl_buf f)"

definition wf_field :: "field \<Rightarrow> bool" where
  "wf_field f \<longleftrightarrow> length (fl_buf f) = FIELD_SIZE \<and> fl_len f < FIELD_SIZE \<and> fl_col f \<le> fl_len f \<and>
     fl_buf f ! fl_len f = 0 \<and> 0 \<notin> set (field_text f)"

lemma wf_field_split:
  assumes "wf_field f"
  obtains r where "fl_buf f = field_text f @ 0 # r" "length (field_text f) = fl_len f"
    "0 \<notin> set (field_text f)" "length (field_text f) + length r = 255"
proof -
  from assms have l: "fl_len f < length (fl_buf f)" by (simp add: wf_field_def)
  from id_take_nth_drop [OF l] assms
  have "fl_buf f = field_text f @ 0 # drop (Suc (fl_len f)) (fl_buf f)"
    by (simp add: wf_field_def field_text_def)
  with assms l that show thesis by (simp add: wf_field_def field_text_def FIELD_SIZE_def)
qed

lemma wf_field_block: "wf_field f \<Longrightarrow> wf_block (fl_buf f) \<and> cstr (fl_buf f) = field_text f"
  by (metis cstr_append_nul wf_block_append_nul wf_field_split)

lemma wf_field_len: "wf_field f \<Longrightarrow> length (field_text f) = fl_len f"
  by (simp add: wf_field_def field_text_def)

lemma wf_fieldI:
  "fl_buf f = s @ 0 # r \<Longrightarrow> 0 \<notin> set s \<Longrightarrow> fl_len f = length s \<Longrightarrow> fl_col f \<le> length s \<Longrightarrow>
   length s + length r = 255 \<Longrightarrow> wf_field f \<and> field_text f = s"
  by (simp add: wf_field_def field_text_def FIELD_SIZE_def)

lemma wf_field_empty [wf_intros]: "wf_field field_empty"
  by (simp add: wf_field_def field_empty_def field_text_def FIELD_SIZE_def)

lemma field_reset_ok:
  assumes "length (fl_buf f) = FIELD_SIZE"
  shows "returns (field_reset f) (\<lambda>g. wf_field g \<and> field_text g = [])"
  using assms by (simp add: field_reset_def store_def wf_field_def field_text_def FIELD_SIZE_def)

lemma wf_field_col: "wf_field f \<Longrightarrow> c \<le> fl_len f \<Longrightarrow> wf_field (f\<lparr>fl_col := c\<rparr>)"
  by (simp add: wf_field_def field_text_def)

lemma field_text_col [simp]: "field_text (f\<lparr>fl_col := c\<rparr>) = field_text f"
  by (simp add: field_text_def)

lemma field_delete_range_eq:
  assumes wf: "wf_field f" and "start < end" "end \<le> fl_len f"
  shows "returns (field_delete_range f start end) (\<lambda>g. wf_field g \<and>
    field_text g = del start end (field_text f) \<and> fl_col g = start)"
proof -
  from wf obtain r where f: "fl_buf f = field_text f @ 0 # r" "length (field_text f) = fl_len f"
    "0 \<notin> set (field_text f)" "length (field_text f) + length r = 255" by (rule wf_field_split)
  let ?s = "field_text f"
  have m: "memmove (?s @ 0 # r) start end (fl_len f - end + 1) =
      Some ((take start ?s @ drop end ?s) @ 0 # drop (Suc (start + (fl_len f - end))) (?s @ 0 # r))"
    using assms f(2) by (simp add: memmove_def Suc_diff_le)
  let ?g = "\<lparr>fl_buf = (take start ?s @ drop end ?s) @ 0 # drop (Suc (start + (fl_len f - end))) (?s @ 0 # r),
     fl_len = fl_len f - (end - start), fl_col = start\<rparr>"
  have "wf_field ?g \<and> field_text ?g = take start ?s @ drop end ?s"
    using assms f by (intro wf_fieldI) (auto simp: set_take_sub set_drop_sub)
  with assms f m show ?thesis
    by (simp add: field_delete_range_def f(1) [symmetric] del_def)
qed

lemma field_delete_range_ok:
  assumes "wf_field f"
  shows "returns (field_delete_range f start end) (\<lambda>g. wf_field g \<and>
    field_text g = (if start < end \<and> end \<le> fl_len f then del start end (field_text f) else field_text f) \<and>
    fl_col g = (if start < end \<and> end \<le> fl_len f then start else fl_col f))"
  using field_delete_range_eq [OF assms, of start "end"] assms
  by (cases "start < end \<and> end \<le> fl_len f") (auto simp: field_delete_range_def)

text \<open>What typing a byte does: it goes to the cursor, unless 255 bytes are there already.\<close>

definition typed_into :: "field \<Rightarrow> byte \<Rightarrow> field \<Rightarrow> bool" where
  "typed_into f key g \<longleftrightarrow> wf_field g \<and>
     (if fl_len f < 255 then field_text g = ins (fl_col f) [key] (field_text f) \<and> fl_col g = fl_col f + 1
      else g = f)"

lemma field_insert_eq:
  assumes wf: "wf_field f" and "key \<noteq> 0"
  shows "returns (field_insert f key) (\<lambda>g. wf_field g \<and>
    (if fl_len f < 255 then field_text g = ins (fl_col f) [key] (field_text f) \<and> fl_col g = fl_col f + 1
     else g = f))"
proof (cases "fl_len f < 255")
  case True
  from wf obtain r where f: "fl_buf f = field_text f @ 0 # r" "length (field_text f) = fl_len f"
    "0 \<notin> set (field_text f)" "length (field_text f) + length r = 255" by (rule wf_field_split)
  with True obtain x r' where r: "r = x # r'" by (cases r) auto
  let ?s = "field_text f" and ?c = "fl_col f"
  have c: "?c \<le> fl_len f" using wf by (simp add: wf_field_def)
  have m: "memmove (?s @ 0 # r) (?c + 1) ?c (usub (fl_len f) ?c + 1) =
      Some (take (Suc ?c) (?s @ [0]) @ drop ?c ?s @ 0 # r')"
    using c f(2) r by (cases "?c = fl_len f") (simp_all add: memmove_def usub_def)
  have lc: "?c < length (take (Suc ?c) (?s @ [0]))" using c f(2) by simp
  have "(take (Suc ?c) (?s @ [0]))[?c := key] = take ?c ?s @ [key]"
    using take_Suc_update [of ?c "?s @ [0]" key] c f(2) by simp
  then have st: "store (take (Suc ?c) (?s @ [0]) @ drop ?c ?s @ 0 # r') ?c key =
      Some ((take ?c ?s @ key # drop ?c ?s) @ 0 # r')"
    unfolding store_def list_update_append1 [OF lc] using lc by simp
  let ?g = "\<lparr>fl_buf = (take ?c ?s @ key # drop ?c ?s) @ 0 # r', fl_len = fl_len f + 1, fl_col = ?c + 1\<rparr>"
  have "wf_field ?g \<and> field_text ?g = take ?c ?s @ key # drop ?c ?s"
    using assms c f r True by (intro wf_fieldI) (auto simp: set_take_sub set_drop_sub)
  moreover have "field_insert f key = Some ?g"
    using True m st by (simp add: field_insert_def FIELD_SIZE_def f(1) [symmetric])
  ultimately show ?thesis using True by (simp add: ins_def)
next
  case False
  with wf show ?thesis by (simp add: field_insert_def FIELD_SIZE_def)
qed

text \<open>Every operation of a field keeps it well formed, and none leaves the array.\<close>

lemma field_cursor_in: "wf_field f \<Longrightarrow> fl_col f \<le> length (cstr (fl_buf f))"
  by (simp add: wf_field_block wf_field_len) (simp add: wf_field_def)

lemma field_skip_forward:
  assumes "wf_field f" "col \<le> fl_len f"
  shows "returns (skip_forward stop (fl_buf f) (fl_len f) col)
    (\<lambda>c. col \<le> c \<and> c \<le> fl_len f \<and> forward_stop stop (field_text f) col c)"
  using skip_forward_stop [of "fl_buf f" col stop] assms wf_field_block [OF assms(1)]
    wf_field_len [OF assms(1)]
  by (auto simp: forward_stop_def elim!: returns_mono)

lemma field_skip_backward:
  assumes "wf_field f" "col \<le> fl_len f"
  shows "returns (skip_backward stop (fl_buf f) col)
    (\<lambda>c. c \<le> col \<and> c \<le> fl_len f \<and> backward_stop stop (field_text f) col c)"
  using skip_backward_stop [of "fl_buf f" col stop] assms wf_field_block [OF assms(1)]
    wf_field_len [OF assms(1)]
  by (auto simp: backward_stop_def elim!: returns_mono)

lemma field_prev_boundary:
  "wf_field f \<Longrightarrow> utf8_prev_boundary (fl_buf f) (fl_col f) = Some (prev_bnd (field_text f) (fl_col f))"
  using utf8_prev_boundary_cstr [of "fl_buf f" "fl_col f"] field_cursor_in [of f] wf_field_block [of f]
  by simp

lemma field_next_boundary:
  "wf_field f \<Longrightarrow> utf8_next_boundary (fl_buf f) (fl_len f) (fl_col f) = Some (next_bnd (field_text f) (fl_col f))"
  using utf8_next_boundary_cstr [of "fl_buf f" "fl_col f"] wf_field_block [of f] wf_field_len [of f]
  by simp

lemma field_moves_ok:
  assumes "wf_field f"
  shows "wf_field (field_move_start f)" "wf_field (field_move_end f)"
    "returns (field_move_prev_char f) wf_field" "returns (field_move_next_char f) wf_field"
    "returns (field_move_prev_word f) wf_field" "returns (field_move_next_word f) wf_field"
proof -
  have c: "fl_col f \<le> fl_len f" using assms by (simp add: wf_field_def)
  show "wf_field (field_move_start f)" "wf_field (field_move_end f)"
    using assms by (auto simp: field_move_start_def field_move_end_def intro: wf_field_col)
  show "returns (field_move_prev_char f) wf_field"
    using assms c prev_bnd_le [of "field_text f" "fl_col f"]
    by (simp add: field_move_prev_char_def field_prev_boundary wf_field_col)
  show "returns (field_move_next_char f) wf_field"
    using assms next_bnd_le [of "field_text f" "fl_col f"]
    by (simp add: field_move_next_char_def field_next_boundary wf_field_col wf_field_len)
  show "returns (field_move_prev_word f) wf_field"
    unfolding field_move_prev_word_def using assms c
    by (auto intro!: wf_field_col returns_mono [OF field_skip_backward])
  show "returns (field_move_next_word f) wf_field"
    unfolding field_move_next_word_def using assms c
    by (auto intro!: wf_field_col returns_mono [OF field_skip_forward])
qed

lemma field_edits_ok:
  assumes "wf_field f"
  shows "returns (field_delete_range f i j) wf_field" "returns (field_delete_backward f) wf_field"
    "returns (field_delete_forward f) wf_field" "returns (field_delete_prev_word f) wf_field"
    "returns (field_delete_next_word f) wf_field" "returns (field_kill_to_end f) wf_field"
    "key \<noteq> 0 \<Longrightarrow> returns (field_insert f key) wf_field"
proof -
  have c: "fl_col f \<le> fl_len f" using assms by (simp add: wf_field_def)
  have d: "returns (field_delete_range f i j) wf_field" for i j
    by (rule returns_mono [OF field_delete_range_ok [OF assms]]) simp
  show "returns (field_delete_range f i j) wf_field" "returns (field_kill_to_end f) wf_field"
    by (simp_all add: field_kill_to_end_def d)
  show "returns (field_delete_backward f) wf_field" "returns (field_delete_forward f) wf_field"
    using assms d
    by (simp_all add: field_delete_backward_def field_delete_forward_def field_prev_boundary
        field_next_boundary)
  show "returns (field_delete_prev_word f) wf_field"
    unfolding field_delete_prev_word_def using assms c d
    by (auto intro!: returns_mono [OF field_skip_backward])
  show "returns (field_delete_next_word f) wf_field"
    unfolding field_delete_next_word_def using assms c d
    by (auto intro!: returns_mono [OF field_skip_forward])
  show "returns (field_insert f key) wf_field" if "key \<noteq> 0"
    by (rule returns_mono [OF field_insert_eq [OF assms that]]) simp
qed

end
