(* ===== verification/Editor.thy ===== *)
theory Editor
  imports Editable Field File_IO
begin

text \<open>
  \<open>src/editor.h\<close>: the editor's state, and the operating system as the editor sees it. The records
  follow the C structs; the prompt's array, length and cursor are one \<open>field\<close>, and so are the
  finder's query, length and cursor. The frame's buffer pointer always points to the editor's own
  buffer, so the frame operations take that buffer. \<open>ed_tty\<close> and \<open>ed_saves\<close> are not in the struct:
  they record what commands hand to \<open>write_all\<close> on the terminal, and the saves they make.
\<close>

section \<open>The operating system\<close>

text \<open>
  The answers of the system calls and of the library calls on files during one key press, as
  functions of their arguments. \<open>os_read\<close> is the content of a file that \<open>fopen\<close> opens.
\<close>

datatype file_kind = Directory | Regular | Other

record os =
  os_stat :: "byte list \<Rightarrow> file_kind option"
  os_read :: "byte list \<Rightarrow> byte list option"
  os_readdir :: "byte list \<Rightarrow> byte list list option"
  os_realpath :: "byte list \<Rightarrow> byte list option"
  os_getcwd :: "byte list option"
  os_readable :: "byte list \<Rightarrow> bool"
  os_strerror :: "byte list"
  os_fnmatch :: "byte list \<Rightarrow> byte list \<Rightarrow> bool \<Rightarrow> bool"
  os_save :: "byte list \<Rightarrow> save_env"
  os_ts :: ts_setup

section \<open>The state\<close>

definition KILL_RING_MAX :: nat where
  "KILL_RING_MAX = 16"

definition ESC_BUF_SIZE :: nat where
  "ESC_BUF_SIZE = 32"

definition SIZE_MAX :: nat where
  "SIZE_MAX = 2 ^ 64 - 1"

record frame =
  f_row :: nat
  f_col :: nat

datatype esc_state = ESC_NONE | ESC_SEEN | ESC_CSI | ESC_MOUSE

record finder =
  fd_active :: bool
  fd_query :: field
  fd_project_root :: "byte list option"
  fd_files :: "byte list list"
  fd_file_cap :: nat
  fd_matches :: "nat list"
  fd_match_cap :: nat
  fd_scored_cap :: nat
  fd_selection :: nat
  fd_scroll :: nat

record editor =
  ed_screen_rows :: int
  ed_screen_cols :: int
  ed_row_offset :: nat
  ed_col_offset :: nat
  ed_buffer :: buffer
  ed_frame :: frame
  ed_dirty :: bool
  ed_should_exit :: bool
  ed_pending_ctrl_x :: bool
  ed_esc_state :: esc_state
  ed_esc_buf :: block
  ed_esc_len :: nat
  ed_prompt_active :: bool
  ed_prompt_save_as :: bool
  ed_prompt :: field
  ed_isearch_active :: bool
  ed_isearch_forward :: bool
  ed_isearch_has_match :: bool
  ed_isearch_query :: block
  ed_isearch_len :: nat
  ed_isearch_origin_row :: nat
  ed_isearch_origin_col :: nat
  ed_finder :: finder
  ed_kill_ring :: "block option list"
  ed_kill_ring_len :: nat
  ed_kill_ring_index :: nat
  ed_last_was_kill :: bool
  ed_last_was_yank :: bool
  ed_yank_start_row :: nat
  ed_yank_start_col :: nat
  ed_yank_end_row :: nat
  ed_yank_end_col :: nat
  ed_mark_active :: bool
  ed_mark_row :: nat
  ed_mark_col :: nat
  ed_status_msg :: "byte list"
  ed_tty :: "byte list"
  ed_saves :: "(byte list \<times> bool \<times> byte list option) list"

text \<open>\<open>snprintf(ed->status_msg, sizeof(ed->status_msg), ...)\<close>: 127 bytes and the NUL at most.\<close>

definition status :: "byte list \<Rightarrow> editor \<Rightarrow> editor" where
  "status msg ed = ed\<lparr>ed_status_msg := take 127 msg\<rparr>"

definition say :: "string \<Rightarrow> editor \<Rightarrow> editor" where
  "say msg ed = status (bytes_of msg) ed"

text \<open>The two assignments that follow an edit.\<close>

definition mark_dirty :: "editor \<Rightarrow> editor" where
  "mark_dirty ed =
     ed\<lparr>ed_dirty := True, ed_buffer := (ed_buffer ed)\<lparr>b_syntax_dirty := True\<rparr>\<rparr>"

definition set_cursor :: "nat \<Rightarrow> nat \<Rightarrow> editor \<Rightarrow> editor" where
  "set_cursor row col ed = ed\<lparr>ed_frame := \<lparr>f_row = row, f_col = col\<rparr>\<rparr>"

abbreviation cur_row :: "editor \<Rightarrow> nat" where
  "cur_row ed \<equiv> f_row (ed_frame ed)"

abbreviation cur_col :: "editor \<Rightarrow> nat" where
  "cur_col ed \<equiv> f_col (ed_frame ed)"

definition with_buffer :: "editor \<Rightarrow> buffer option \<Rightarrow> editor option" where
  "with_buffer ed m = do { buf \<leftarrow> m; Some (ed\<lparr>ed_buffer := buf\<rparr>) }"

definition with_frame :: "editor \<Rightarrow> frame option \<Rightarrow> editor option" where
  "with_frame ed m = do { fr \<leftarrow> m; Some (ed\<lparr>ed_frame := fr\<rparr>) }"

definition with_prompt :: "editor \<Rightarrow> field option \<Rightarrow> editor option" where
  "with_prompt ed m = do { f \<leftarrow> m; Some (ed\<lparr>ed_prompt := f\<rparr>) }"

end
