(* ===== verification/Motion.thy ===== *)
theory Motion
  imports Editor
begin

text \<open>
  The cursor motions of \<open>src/input.c\<close> (\<open>frame_*\<close>). A cursor is good when its row exists and its
  column is within the line; every motion takes a good cursor to a good cursor and reads nothing
  outside the line. A bad column (the wheel and the mark can leave one, see the root theory) is
  not repaired by \<open>frame_move_prev_char\<close>, which then reads past the line.
\<close>

section \<open>The motions\<close>

definition frame_clamp_col :: "buffer \<Rightarrow> frame \<Rightarrow> frame option" where
  "frame_clamp_col buf fr = do {
     len \<leftarrow> line_length buf (f_row fr);
     line \<leftarrow> load_line buf (f_row fr);
     col \<leftarrow> utf8_clamp_col line len (f_col fr);
     Some (fr\<lparr>f_col := col\<rparr>)
   }"

definition frame_move_prev_line :: "buffer \<Rightarrow> frame \<Rightarrow> frame option" where
  "frame_move_prev_line buf fr =
     (if f_row fr = 0 then Some fr
      else frame_clamp_col buf (fr\<lparr>f_row := f_row fr - 1\<rparr>))"

definition frame_move_next_line :: "buffer \<Rightarrow> frame \<Rightarrow> frame option" where
  "frame_move_next_line buf fr =
     (if f_row fr + 1 \<ge> line_count buf then Some fr
      else frame_clamp_col buf (fr\<lparr>f_row := f_row fr + 1\<rparr>))"

definition frame_move_prev_char :: "buffer \<Rightarrow> frame \<Rightarrow> frame option" where
  "frame_move_prev_char buf fr =
     (if f_col fr > 0 then do {
        line \<leftarrow> load_line buf (f_row fr);
        col \<leftarrow> utf8_prev_boundary line (f_col fr);
        Some (fr\<lparr>f_col := col\<rparr>)
      }
      else if f_row fr = 0 then Some fr
      else do {
        len \<leftarrow> line_length buf (f_row fr - 1);
        Some (fr\<lparr>f_row := f_row fr - 1, f_col := len\<rparr>)
      })"

definition frame_move_next_char :: "buffer \<Rightarrow> frame \<Rightarrow> frame option" where
  "frame_move_next_char buf fr = do {
     len \<leftarrow> line_length buf (f_row fr);
     line \<leftarrow> load_line buf (f_row fr);
     if f_col fr < len then do {
       col \<leftarrow> utf8_next_boundary line len (f_col fr);
       Some (fr\<lparr>f_col := col\<rparr>)
     }
     else if f_row fr + 1 \<ge> line_count buf then Some fr
     else Some (fr\<lparr>f_row := f_row fr + 1, f_col := 0\<rparr>)
   }"

definition frame_move_line_start :: "frame \<Rightarrow> frame" where
  "frame_move_line_start fr = fr\<lparr>f_col := 0\<rparr>"

definition frame_move_line_end :: "buffer \<Rightarrow> frame \<Rightarrow> frame option" where
  "frame_move_line_end buf fr = do {
     len \<leftarrow> line_length buf (f_row fr);
     Some (fr\<lparr>f_col := len\<rparr>)
   }"

function next_word_loop :: "buffer \<Rightarrow> nat \<Rightarrow> nat \<Rightarrow> (nat \<times> nat) option" where
  "next_word_loop buf row col =
     (if row < line_count buf then do {
        line \<leftarrow> load_line buf row;
        len \<leftarrow> line_length buf row;
        col \<leftarrow> utf8_clamp_col line len col;
        col \<leftarrow> skip_forward is_word_char line len col;
        col \<leftarrow> skip_forward not_word_char line len col;
        if col < len \<or> row + 1 \<ge> line_count buf then Some (row, col)
        else next_word_loop buf (row + 1) 0
      } else Some (row, col))"
  by pat_completeness auto
termination
  by (relation "measure (\<lambda>(buf, row, col). line_count buf - row)") auto

declare next_word_loop.simps [simp del]

definition frame_move_next_word :: "buffer \<Rightarrow> frame \<Rightarrow> frame option" where
  "frame_move_next_word buf fr = do {
     (row, col) \<leftarrow> next_word_loop buf (f_row fr) (f_col fr);
     Some (fr\<lparr>f_row := row, f_col := col\<rparr>)
   }"

function prev_word_loop :: "buffer \<Rightarrow> nat \<Rightarrow> nat \<Rightarrow> (nat \<times> nat) option" where
  "prev_word_loop buf row col =
     (if row < line_count buf then do {
        line \<leftarrow> load_line buf row;
        len \<leftarrow> line_length buf row;
        col \<leftarrow> utf8_clamp_col line len col;
        if col = 0 then
          (if row = 0 then Some (row, col)
           else do {
             col \<leftarrow> line_length buf (row - 1);
             prev_word_loop buf (row - 1) col
           })
        else do {
          col \<leftarrow> skip_backward is_word_char line col;
          col \<leftarrow> skip_backward not_word_char line col;
          Some (row, col)
        }
      } else Some (row, col))"
  by pat_completeness auto
termination
  by (relation "measure (\<lambda>(buf, row, col). row)") auto

declare prev_word_loop.simps [simp del]

definition frame_move_prev_word :: "buffer \<Rightarrow> frame \<Rightarrow> frame option" where
  "frame_move_prev_word buf fr = do {
     (row, col) \<leftarrow> prev_word_loop buf (f_row fr) (f_col fr);
     Some (fr\<lparr>f_row := row, f_col := col\<rparr>)
   }"

section \<open>Good cursors\<close>

definition good_row :: "buffer \<Rightarrow> frame \<Rightarrow> bool" where
  "good_row buf fr \<longleftrightarrow> f_row fr < line_count buf"

definition good_cursor :: "buffer \<Rightarrow> frame \<Rightarrow> bool" where
  "good_cursor buf fr \<longleftrightarrow> f_row fr < line_count buf \<and> f_col fr \<le> length (ltext buf (f_row fr))"

lemma good_cursor_row: "good_cursor buf fr \<Longrightarrow> good_row buf fr"
  by (simp add: good_cursor_def good_row_def)

lemma good_cursor_in_text: "good_cursor buf fr \<longleftrightarrow> in_text (texts buf) (f_row fr) (f_col fr)"
  by (auto simp: good_cursor_def in_text_def)

lemma clamp_line:
  assumes "wf_buffer buf" "row < line_count buf"
  shows "utf8_clamp_col (b_lines buf ! row) (length (ltext buf row)) col = Some (clamp_bnd (ltext buf row) col)"
  using utf8_clamp_col_eq [OF wf_buffer_line [OF assms]] by (simp add: ltext_def)

lemma frame_clamp_col_ok:
  assumes "wf_buffer buf" "good_row buf fr"
  shows "returns (frame_clamp_col buf fr) (\<lambda>fr'. good_cursor buf fr' \<and> f_row fr' = f_row fr \<and>
    f_col fr' = clamp_bnd (ltext buf (f_row fr)) (f_col fr))"
  using assms
  by (simp add: frame_clamp_col_def good_row_def good_cursor_def line_length_eq load_line_eq
      clamp_line clamp_bnd_le)

lemma skip_forward_line:
  assumes "wf_buffer buf" "row < line_count buf" "col \<le> length (ltext buf row)"
  shows "returns (skip_forward stop (b_lines buf ! row) (length (ltext buf row)) col)
    (\<lambda>c. col \<le> c \<and> c \<le> length (ltext buf row) \<and> forward_stop stop (ltext buf row) col c)"
  using skip_forward_stop [OF wf_buffer_line [OF assms(1,2)], of col stop] assms(3)
  by (auto simp: ltext_def forward_stop_def elim!: returns_mono)

lemma skip_backward_line:
  assumes "wf_buffer buf" "row < line_count buf" "col \<le> length (ltext buf row)"
  shows "returns (skip_backward stop (b_lines buf ! row) col)
    (\<lambda>c. c \<le> col \<and> backward_stop stop (ltext buf row) col c)"
  using skip_backward_stop [OF wf_buffer_line [OF assms(1,2)], of col stop] assms(3)
  by (auto simp: ltext_def backward_stop_def elim!: returns_mono)

lemma prev_boundary_line:
  "wf_buffer buf \<Longrightarrow> row < line_count buf \<Longrightarrow> col \<le> length (ltext buf row) \<Longrightarrow>
   utf8_prev_boundary (b_lines buf ! row) col = Some (prev_bnd (ltext buf row) col)"
  by (simp add: utf8_prev_boundary_cstr wf_buffer_line ltext_def)

lemma next_boundary_line:
  "wf_buffer buf \<Longrightarrow> row < line_count buf \<Longrightarrow>
   utf8_next_boundary (b_lines buf ! row) (length (ltext buf row)) col = Some (next_bnd (ltext buf row) col)"
  using utf8_next_boundary_cstr [OF wf_buffer_line] by (simp add: ltext_def)

lemma next_word_loop_ok:
  "wf_buffer buf \<Longrightarrow> row < line_count buf \<Longrightarrow>
   returns (next_word_loop buf row col)
     (\<lambda>(r, c). row \<le> r \<and> r < line_count buf \<and> c \<le> length (ltext buf r))"
proof (induction buf row col rule: next_word_loop.induct)
  case (1 buf row col)
  let ?s = "ltext buf row" and ?b = "b_lines buf ! row"
  obtain c1 where c1: "skip_forward is_word_char ?b (length ?s) (clamp_bnd ?s col) = Some c1"
    "c1 \<le> length ?s"
    using skip_forward_line [OF 1(2,3) clamp_bnd_le] by (blast elim: returnsE)
  then obtain c2 where c2: "skip_forward not_word_char ?b (length ?s) c1 = Some c2" "c2 \<le> length ?s"
    using skip_forward_line [OF 1(2,3)] by (blast elim: returnsE)
  have "\<not> c2 < length ?s \<Longrightarrow> row + 1 < line_count buf \<Longrightarrow> returns (next_word_loop buf (row + 1) 0)
     (\<lambda>(r, c). row + 1 \<le> r \<and> r < line_count buf \<and> c \<le> length (ltext buf r))"
    using 1 c1 c2 by (simp add: load_line_eq line_length_eq clamp_line)
  then show ?case
    using 1(2,3) c1 c2 by (subst next_word_loop.simps)
      (auto simp: load_line_eq line_length_eq clamp_line elim!: returns_mono)
qed

lemma prev_word_loop_ok:
  "wf_buffer buf \<Longrightarrow> row < line_count buf \<Longrightarrow>
   returns (prev_word_loop buf row col)
     (\<lambda>(r, c). r \<le> row \<and> r < line_count buf \<and> c \<le> length (ltext buf r))"
proof (induction buf row col rule: prev_word_loop.induct)
  case (1 buf row col)
  let ?s = "ltext buf row" and ?b = "b_lines buf ! row"
  let ?c = "clamp_bnd ?s col"
  obtain c1 where c1: "skip_backward is_word_char ?b ?c = Some c1" "c1 \<le> ?c"
    using skip_backward_line [OF 1(2,3) clamp_bnd_le] by (blast elim: returnsE)
  have c1': "c1 \<le> length ?s" using c1 clamp_bnd_le order_trans by blast
  then obtain c2 where c2: "skip_backward not_word_char ?b c1 = Some c2" "c2 \<le> length ?s"
    using skip_backward_line [OF 1(2,3) c1', of not_word_char] by (auto elim!: returnsE)
  have "?c = 0 \<Longrightarrow> row \<noteq> 0 \<Longrightarrow> returns (prev_word_loop buf (row - 1) (length (ltext buf (row - 1))))
     (\<lambda>(r, c). r \<le> row - 1 \<and> r < line_count buf \<and> c \<le> length (ltext buf r))"
    using 1 by (simp add: load_line_eq line_length_eq clamp_line)
  then show ?case
    using 1(2,3) c1 c2 by (subst prev_word_loop.simps)
      (auto simp: load_line_eq line_length_eq clamp_line elim!: returns_mono)
qed

lemma frame_moves_ok:
  assumes "wf_buffer buf" "good_cursor buf fr"
  shows "returns (frame_move_prev_line buf fr) (good_cursor buf)"
    "returns (frame_move_next_line buf fr) (good_cursor buf)"
    "returns (frame_move_prev_char buf fr) (good_cursor buf)"
    "returns (frame_move_next_char buf fr) (good_cursor buf)"
    "good_cursor buf (frame_move_line_start fr)"
    "returns (frame_move_line_end buf fr) (good_cursor buf)"
    "returns (frame_move_next_word buf fr) (good_cursor buf)"
    "returns (frame_move_prev_word buf fr) (good_cursor buf)"
proof -
  let ?s = "ltext buf (f_row fr)"
  have r: "f_row fr < line_count buf" and c: "f_col fr \<le> length ?s"
    using assms(2) by (simp_all add: good_cursor_def)
  show "returns (frame_move_prev_line buf fr) (good_cursor buf)"
  proof (cases "f_row fr = 0")
    case True
    then show ?thesis using assms by (simp add: frame_move_prev_line_def)
  next
    case False
    moreover have "good_row buf (fr\<lparr>f_row := f_row fr - 1\<rparr>)" using r by (simp add: good_row_def)
    ultimately show ?thesis
      by (auto simp: frame_move_prev_line_def intro: returns_mono [OF frame_clamp_col_ok [OF assms(1)]])
  qed
  show "returns (frame_move_next_line buf fr) (good_cursor buf)"
    using assms frame_clamp_col_ok [of buf "fr\<lparr>f_row := f_row fr + 1\<rparr>"]
    by (auto simp: frame_move_next_line_def good_row_def elim!: returns_mono)
  show "returns (frame_move_prev_char buf fr) (good_cursor buf)"
    using assms r c prev_bnd_le [of ?s "f_col fr"]
    by (auto simp: frame_move_prev_char_def load_line_eq line_length_eq prev_boundary_line good_cursor_def)
  show "returns (frame_move_next_char buf fr) (good_cursor buf)"
    using assms r c next_bnd_le [of ?s "f_col fr"]
    by (simp add: frame_move_next_char_def load_line_eq line_length_eq next_boundary_line good_cursor_def)
  show "good_cursor buf (frame_move_line_start fr)" "returns (frame_move_line_end buf fr) (good_cursor buf)"
    using assms r by (simp_all add: frame_move_line_start_def frame_move_line_end_def line_length_eq good_cursor_def)
  show "returns (frame_move_next_word buf fr) (good_cursor buf)"
    using next_word_loop_ok [OF assms(1) r, of "f_col fr"]
    by (auto simp: frame_move_next_word_def good_cursor_def elim!: returns_mono)
  show "returns (frame_move_prev_word buf fr) (good_cursor buf)"
    using prev_word_loop_ok [OF assms(1) r, of "f_col fr"]
    by (auto simp: frame_move_prev_word_def good_cursor_def elim!: returns_mono)
qed

text \<open>
  Whatever the column is, a motion that returns leaves the cursor on an existing row.
\<close>

lemma frame_moves_row:
  assumes "wf_buffer buf" "good_row buf fr"
  shows "frame_move_prev_line buf fr = Some g \<Longrightarrow> good_row buf g"
    "frame_move_next_line buf fr = Some g \<Longrightarrow> good_row buf g"
    "frame_move_prev_char buf fr = Some g \<Longrightarrow> good_row buf g"
    "frame_move_next_char buf fr = Some g \<Longrightarrow> good_row buf g"
    "good_row buf (frame_move_line_start fr)"
    "frame_move_line_end buf fr = Some g \<Longrightarrow> good_row buf g"
    "frame_move_next_word buf fr = Some g \<Longrightarrow> good_row buf g"
    "frame_move_prev_word buf fr = Some g \<Longrightarrow> good_row buf g"
proof -
  have r: "f_row fr < line_count buf" using assms(2) by (simp add: good_row_def)
  note d = frame_move_prev_line_def frame_move_next_line_def frame_move_prev_char_def
    frame_move_next_char_def frame_move_line_start_def frame_move_line_end_def
    frame_move_next_word_def frame_move_prev_word_def frame_clamp_col_def good_row_def
  show "frame_move_prev_line buf fr = Some g \<Longrightarrow> good_row buf g"
    "frame_move_next_line buf fr = Some g \<Longrightarrow> good_row buf g"
    "frame_move_prev_char buf fr = Some g \<Longrightarrow> good_row buf g"
    "frame_move_next_char buf fr = Some g \<Longrightarrow> good_row buf g"
    "good_row buf (frame_move_line_start fr)"
    "frame_move_line_end buf fr = Some g \<Longrightarrow> good_row buf g"
    using r by (auto simp: d bind_eq_Some_conv split: if_splits)
  show "frame_move_next_word buf fr = Some g \<Longrightarrow> good_row buf g"
    using next_word_loop_ok [OF assms(1) r, of "f_col fr"]
    by (auto simp: d bind_eq_Some_conv returns_def)
  show "frame_move_prev_word buf fr = Some g \<Longrightarrow> good_row buf g"
    using prev_word_loop_ok [OF assms(1) r, of "f_col fr"]
    by (auto simp: d bind_eq_Some_conv returns_def)
qed

end
