(* ===== verification/Invariant.thy ===== *)
theory Invariant
  imports Motion
begin

text \<open>
  The invariant of the editor's state, one part per component. Every command keeps it, whatever
  state the cursor's column and the mark are in; the theories of the commands prove it for theirs
  and the root theory puts them together for \<open>editor_process_key\<close>.

  Two parts are about the escape parser: the search and the finder are never active while an
  escape sequence is read (they end at ESC or swallow it), and the key ESC has reset
  \<open>last_was_yank\<close>. The prompt's array holds a string only while the prompt is shown: \<open>C-g\<close> resets
  its length without writing the NUL.
\<close>

text \<open>The query array of the search and its length are a field without a cursor.\<close>

definition query_field :: "editor \<Rightarrow> field" where
  "query_field ed = \<lparr>fl_buf = ed_isearch_query ed, fl_len = ed_isearch_len ed, fl_col = 0\<rparr>"

definition wf_isearch :: "editor \<Rightarrow> bool" where
  "wf_isearch ed \<longleftrightarrow> wf_field (query_field ed) \<and>
     (ed_isearch_active ed \<longrightarrow> ed_isearch_origin_row ed < line_count (ed_buffer ed)) \<and>
     (ed_isearch_active ed \<longrightarrow> ed_isearch_has_match ed \<longrightarrow> good_cursor (ed_buffer ed) (ed_frame ed))"

definition wf_kill_ring :: "editor \<Rightarrow> bool" where
  "wf_kill_ring ed \<longleftrightarrow> length (ed_kill_ring ed) = KILL_RING_MAX \<and>
     ed_kill_ring_len ed \<le> KILL_RING_MAX \<and>
     (0 < ed_kill_ring_len ed \<longrightarrow> ed_kill_ring_index ed < ed_kill_ring_len ed) \<and>
     (\<forall>i<ed_kill_ring_len ed. \<exists>b. ed_kill_ring ed ! i = Some b \<and> wf_block b)"

definition wf_finder :: "finder \<Rightarrow> bool" where
  "wf_finder fd \<longleftrightarrow> wf_field (fd_query fd) \<and>
     length (fd_files fd) \<le> fd_file_cap fd \<and>
     length (fd_matches fd) \<le> fd_match_cap fd \<and>
     (\<forall>i\<in>set (fd_matches fd). i < length (fd_files fd)) \<and>
     (fd_matches fd \<noteq> [] \<longrightarrow> fd_selection fd < length (fd_matches fd)) \<and>
     (fd_active fd \<longrightarrow> fd_project_root fd \<noteq> None)"

definition wf_editor :: "editor \<Rightarrow> bool" where
  "wf_editor ed \<longleftrightarrow>
     wf_buffer (ed_buffer ed) \<and> good_row (ed_buffer ed) (ed_frame ed) \<and>
     length (ed_esc_buf ed) = ESC_BUF_SIZE \<and> ed_esc_len ed < ESC_BUF_SIZE \<and>
     length (fl_buf (ed_prompt ed)) = FIELD_SIZE \<and>
     (ed_prompt_active ed \<longrightarrow> wf_field (ed_prompt ed)) \<and>
     wf_isearch ed \<and> wf_finder (ed_finder ed) \<and> wf_kill_ring ed \<and>
     (ed_isearch_active ed \<or> fd_active (ed_finder ed) \<longrightarrow> ed_esc_state ed = ESC_NONE) \<and>
     (ed_isearch_active ed \<longrightarrow> \<not> fd_active (ed_finder ed)) \<and>
     (ed_esc_state ed \<noteq> ESC_NONE \<longrightarrow> \<not> ed_last_was_yank ed)"

section \<open>Cursor and mark\<close>

text \<open>
  The state in which no command reads or writes out of bounds: the cursor (and the position a
  search will come back to) is in the text, and so is the mark, when there is one.
\<close>

definition calm :: "editor \<Rightarrow> bool" where
  "calm ed \<longleftrightarrow> good_cursor (ed_buffer ed) (ed_frame ed) \<and>
     (ed_isearch_active ed \<longrightarrow>
        in_text (texts (ed_buffer ed)) (ed_isearch_origin_row ed) (ed_isearch_origin_col ed))"

definition good_mark :: "editor \<Rightarrow> bool" where
  "good_mark ed \<longleftrightarrow>
     (ed_mark_active ed \<longrightarrow> in_text (texts (ed_buffer ed)) (ed_mark_row ed) (ed_mark_col ed))"

text \<open>
  What every command except those that set the mark does: it keeps the invariant, it keeps the
  cursor in the text when it was there, and it does not activate the mark or start an escape
  sequence.
\<close>

definition kept :: "editor \<Rightarrow> editor \<Rightarrow> bool" where
  "kept ed ed' \<longleftrightarrow> wf_editor ed' \<and> (calm ed \<longrightarrow> calm ed') \<and> (ed_mark_active ed' \<longrightarrow> ed_mark_active ed) \<and>
     ed_esc_state ed' = ed_esc_state ed"

lemma kept_refl: "wf_editor ed \<Longrightarrow> kept ed ed"
  by (simp add: kept_def)

lemma kept_trans: "kept ed ed' \<Longrightarrow> kept ed' ed'' \<Longrightarrow> kept ed ed''"
  by (auto simp: kept_def)

lemma kept_wf: "kept ed ed' \<Longrightarrow> wf_editor ed'"
  by (simp add: kept_def)

lemmas state_defs = wf_editor_def wf_isearch_def query_field_def wf_kill_ring_def good_row_def
  good_cursor_in_text calm_def kept_def

lemma in_text_row: "in_text (texts buf) row col \<Longrightarrow> row < line_count buf"
  by (simp add: in_text_def)

lemma kept_status [simp]: "kept ed (status msg ed') = kept ed ed'"
  by (simp add: state_defs status_def)

lemma wf_status [simp]: "wf_editor (status msg ed) = wf_editor ed"
  by (simp add: state_defs status_def)

lemma kept_say [simp]: "kept ed (say msg ed') = kept ed ed'"
  by (simp add: say_def)

text \<open>Fields the invariant does not look at.\<close>

lemma wf_other_fields [simp]:
  "wf_editor (ed\<lparr>ed_tty := t\<rparr>) = wf_editor ed" "wf_editor (ed\<lparr>ed_mark_active := m\<rparr>) = wf_editor ed"
  "wf_editor (ed\<lparr>ed_dirty := d\<rparr>) = wf_editor ed" "wf_editor (ed\<lparr>ed_last_was_kill := k\<rparr>) = wf_editor ed"
  "wf_editor (ed\<lparr>ed_pending_ctrl_x := p\<rparr>) = wf_editor ed" "wf_editor (ed\<lparr>ed_should_exit := x\<rparr>) = wf_editor ed"
  "wf_editor (ed\<lparr>ed_saves := v\<rparr>) = wf_editor ed" "wf_editor (ed\<lparr>ed_prompt_save_as := a\<rparr>) = wf_editor ed"
  by (simp_all add: state_defs)

lemma calm_other_fields [simp]:
  "calm (ed\<lparr>ed_tty := t\<rparr>) = calm ed" "calm (ed\<lparr>ed_mark_active := m\<rparr>) = calm ed"
  "calm (ed\<lparr>ed_dirty := d\<rparr>) = calm ed" "calm (ed\<lparr>ed_last_was_kill := k\<rparr>) = calm ed"
  "calm (ed\<lparr>ed_pending_ctrl_x := p\<rparr>) = calm ed" "calm (ed\<lparr>ed_should_exit := x\<rparr>) = calm ed"
  "calm (ed\<lparr>ed_saves := v\<rparr>) = calm ed" "calm (ed\<lparr>ed_prompt_save_as := a\<rparr>) = calm ed"
  "calm (ed\<lparr>ed_last_was_yank := y\<rparr>) = calm ed" "calm (ed\<lparr>ed_esc_state := s\<rparr>) = calm ed"
  "calm (status msg ed) = calm ed"
  by (simp_all add: state_defs status_def)

lemma kept_other_fields [simp]:
  "kept ed (e\<lparr>ed_tty := t\<rparr>) = kept ed e" "kept ed (e\<lparr>ed_dirty := d\<rparr>) = kept ed e"
  "kept ed (e\<lparr>ed_last_was_kill := k\<rparr>) = kept ed e" "kept ed (e\<lparr>ed_pending_ctrl_x := p\<rparr>) = kept ed e"
  "kept ed (e\<lparr>ed_should_exit := x\<rparr>) = kept ed e" "kept ed (e\<lparr>ed_saves := v\<rparr>) = kept ed e"
  "kept ed (e\<lparr>ed_prompt_save_as := a\<rparr>) = kept ed e"
  by (simp_all add: kept_def)

lemma kept_unmark: "kept ed e \<Longrightarrow> kept ed (e\<lparr>ed_mark_active := False\<rparr>)"
  by (simp add: kept_def)

lemma wf_buffer_flags [simp]: "wf_buffer (buf\<lparr>b_syntax_dirty := d\<rparr>) = wf_buffer buf"
  "texts (buf\<lparr>b_syntax_dirty := d\<rparr>) = texts buf" "ltext (buf\<lparr>b_syntax_dirty := d\<rparr>) row = ltext buf row"
  by (simp_all add: wf_buffer_def texts_def ltext_def)

lemma kept_mark_dirty [simp]: "kept ed (mark_dirty ed') = kept ed ed'"
  by (simp add: state_defs mark_dirty_def)

lemma wf_mark_dirty [simp]: "wf_editor (mark_dirty ed) = wf_editor ed"
  by (simp add: state_defs mark_dirty_def)

lemma mark_dirty_sel [simp]: "b_lines (ed_buffer (mark_dirty ed)) = b_lines (ed_buffer ed)"
  "texts (ed_buffer (mark_dirty ed)) = texts (ed_buffer ed)" "ed_frame (mark_dirty ed) = ed_frame ed"
  "wf_buffer (ed_buffer (mark_dirty ed)) = wf_buffer (ed_buffer ed)"
  "ed_mark_active (mark_dirty ed) = ed_mark_active ed"
  by (simp_all add: mark_dirty_def)

lemma wf_editorD:
  assumes "wf_editor ed"
  shows "wf_buffer (ed_buffer ed)" "good_row (ed_buffer ed) (ed_frame ed)"
    "cur_row ed < line_count (ed_buffer ed)" "wf_isearch ed" "wf_finder (ed_finder ed)"
    "wf_kill_ring ed" "ed_prompt_active ed \<Longrightarrow> wf_field (ed_prompt ed)"
    "wf_field (query_field ed)" "wf_field (fd_query (ed_finder ed))"
  using assms by (simp_all add: wf_editor_def good_row_def wf_isearch_def wf_finder_def)

end
