(* ===== verification/Scan.thy ===== *)
theory Scan
  imports Ignore Invariant
begin

text \<open>
  Finding the project and its files (\<open>src/finder.c\<close>: \<open>path_dirname\<close> to \<open>project_root_for_editor\<close>,
  and \<open>finder_files_add\<close> with \<open>scan_project_dir\<close>). The answers of \<open>stat\<close>, \<open>readdir\<close>, \<open>realpath\<close> and
  \<open>getcwd\<close> are functions of the path, the same during one scan. The scan follows symbolic links, so
  it ends because a path has at most \<open>PATH_MAX\<close> bytes: the recursion has fuel, and the lemma
  below shows that \<open>PATH_MAX\<close> units are enough on such a system.
\<close>

section \<open>The project root\<close>

definition PATH_MAX :: nat where
  "PATH_MAX = 4096"

definition path_is_dir :: "os \<Rightarrow> byte list \<Rightarrow> bool" where
  "path_is_dir os path = (os_stat os path = Some Directory)"

definition path_is_file :: "os \<Rightarrow> byte list \<Rightarrow> bool" where
  "path_is_file os path = (os_stat os path = Some Regular)"

text \<open>With no slash the code writes \<open>"."\<close> and its NUL over a copy that may be one byte long.\<close>

definition path_dirname :: "byte list \<Rightarrow> byte list option" where
  "path_dirname path =
     (case strrchr path 47 of
        None \<Rightarrow> (if path = [] then None else Some [46])
      | Some slash \<Rightarrow>
          let i = length path - length slash
          in Some (if i = 0 then take 1 path else take i path))"

lemma strrchr_suffix: "strrchr s c = Some t \<Longrightarrow> \<exists>p. s = p @ t \<and> t \<noteq> [] \<and> hd t = c \<and> c \<notin> set (tl t)"
proof (induction s)
  case (Cons x s)
  show ?case
  proof (cases "strrchr s c")
    case None
    then have "c \<notin> set s"
    proof (induction s)
      case (Cons y ys)
      then show ?case by (auto split: option.splits if_splits)
    qed simp
    with None Cons.prems show ?thesis by (auto split: if_splits)
  next
    case (Some u)
    with Cons show ?thesis by (metis append_Cons option.case(2) option.inject strrchr.simps(2))
  qed
qed simp

function find_root_loop :: "os \<Rightarrow> byte list \<Rightarrow> byte list option" where
  "find_root_loop os current =
     (if path_is_dir os (path_join current (bytes_of ''.git'')) then Some current
      else if current = [47] then None
      else case strrchr current 47 of
        None \<Rightarrow> None
      | Some slash \<Rightarrow>
          let i = length current - length slash
          in find_root_loop os (if i = 0 then take 1 current else take i current))"
  by pat_completeness auto
termination
proof (relation "measure (\<lambda>(os, current). length current)", goal_cases)
  case (2 os current slash i)
  from strrchr_suffix [OF 2(3)] obtain p where p: "current = p @ slash" "slash \<noteq> []" "hd slash = 47" by blast
  show ?case
  proof (cases p)
    case Nil
    with p 2(2) have "1 < length current" by (cases slash; cases "tl slash") auto
    with Nil p 2 show ?thesis by simp
  next
    case (Cons x q)
    with p 2 show ?thesis by simp
  qed
qed simp

declare find_root_loop.simps [simp del]

definition find_project_root :: "os \<Rightarrow> byte list \<Rightarrow> byte list option" where
  "find_project_root os start_dir =
     (case os_realpath os start_dir of
        None \<Rightarrow> None
      | Some resolved \<Rightarrow> find_root_loop os (take (PATH_MAX - 1) resolved))"

definition project_root_for_editor :: "os \<Rightarrow> editor \<Rightarrow> byte list option option" where
  "project_root_for_editor os ed =
     (case b_file_path (ed_buffer ed) of
        Some (c # rest) \<Rightarrow>
          if c = 47 then do { dir \<leftarrow> path_dirname (c # rest); Some (find_project_root os dir) }
          else Some (case os_getcwd os of None \<Rightarrow> None | Some cwd \<Rightarrow> find_project_root os cwd)
      | _ \<Rightarrow> Some (case os_getcwd os of None \<Rightarrow> None | Some cwd \<Rightarrow> find_project_root os cwd))"

section \<open>The scan\<close>

definition finder_files_clear :: "finder \<Rightarrow> finder" where
  "finder_files_clear fd = fd\<lparr>fd_files := [], fd_file_cap := 0\<rparr>"

definition finder_files_add :: "finder \<Rightarrow> byte list \<Rightarrow> finder" where
  "finder_files_add fd path =
     fd\<lparr>fd_files := fd_files fd @ [path],
        fd_file_cap := grown_cap 256 (fd_file_cap fd) (length (fd_files fd) + 1)\<rparr>"

interpretation file_growing: growing fd_files fd_file_cap finder_files_add 256
  by unfold_locales (simp_all add: finder_files_add_def)

definition skipped_entry :: "byte list \<Rightarrow> bool" where
  "skipped_entry name \<longleftrightarrow> name = bytes_of ''.'' \<or> name = bytes_of ''..'' \<or> name = bytes_of ''.git''"

definition entry_rel :: "byte list \<Rightarrow> byte list \<Rightarrow> byte list" where
  "entry_rel dir_rel name = (if dir_rel = [] then name else path_join dir_rel name)"

definition dir_path :: "byte list \<Rightarrow> byte list \<Rightarrow> byte list" where
  "dir_path root dir_rel = (if dir_rel = [] then root else path_join root dir_rel)"

text \<open>The loop over \<open>readdir\<close>; \<open>rec\<close> is the recursive call for a directory.\<close>

fun scan_entries ::
  "os \<Rightarrow> byte list \<Rightarrow> (byte list \<Rightarrow> ignore_list \<Rightarrow> finder \<Rightarrow> (finder \<times> ignore_list) option) \<Rightarrow>
   byte list \<Rightarrow> byte list list \<Rightarrow> ignore_list \<Rightarrow> finder \<Rightarrow> (finder \<times> ignore_list) option" where
  "scan_entries os root rec dir_rel [] l fd = Some (fd, l)"
| "scan_entries os root rec dir_rel (name # names) l fd =
     (if skipped_entry name then scan_entries os root rec dir_rel names l fd
      else do {
        let rel = entry_rel dir_rel name;
        let st = os_stat os (path_join root rel);
        let is_dir = (st = Some Directory);
        let is_file = (st = Some Regular);
        (fd, l) \<leftarrow>
          (if st \<noteq> None \<and> \<not> is_ignored (os_fnmatch os) l rel is_dir then
             (if is_dir then rec rel l fd
              else if is_file then Some (finder_files_add fd rel, l)
              else Some (fd, l))
           else Some (fd, l));
        scan_entries os root rec dir_rel names l fd
      })"

primrec scan_project_dir ::
  "nat \<Rightarrow> os \<Rightarrow> byte list \<Rightarrow> byte list \<Rightarrow> ignore_list \<Rightarrow> finder \<Rightarrow> (finder \<times> ignore_list) option" where
  "scan_project_dir 0 os root dir_rel l fd = None"
| "scan_project_dir (Suc fuel) os root dir_rel l fd = do {
     let path = dir_path root dir_rel;
     let rule_start = length (il_rules l);
     let gitignore_path = path_join path (bytes_of ''.gitignore'');
     (l, _) \<leftarrow> load_gitignore (os_read os gitignore_path) (path_is_file os gitignore_path) dir_rel l;
     case os_readdir os path of
       None \<Rightarrow> Some (fd, ignore_list_truncate l rule_start)
     | Some names \<Rightarrow> do {
         (fd, l) \<leftarrow> scan_entries os root (scan_project_dir fuel os root) dir_rel names l fd;
         Some (fd, ignore_list_truncate l rule_start)
       }
   }"

section \<open>Which files it lists\<close>

text \<open>The rules of one directory, and the files of the project that no rule in force hides.\<close>

definition dir_rules :: "os \<Rightarrow> byte list \<Rightarrow> byte list \<Rightarrow> ignore_rule list" where
  "dir_rules os root dir_rel =
     (let p = path_join (dir_path root dir_rel) (bytes_of ''.gitignore'')
      in if path_is_file os p then
           (case os_read os p of None \<Rightarrow> [] | Some bytes \<Rightarrow> gitignore_rules dir_rel bytes)
         else [])"

definition hidden :: "os \<Rightarrow> ignore_rule list \<Rightarrow> byte list \<Rightarrow> bool \<Rightarrow> bool" where
  "hidden os rules rel is_dir \<longleftrightarrow> ignored_from (os_fnmatch os) rules rel is_dir False"

inductive visible :: "os \<Rightarrow> byte list \<Rightarrow> byte list \<Rightarrow> ignore_rule list \<Rightarrow> byte list \<Rightarrow> bool"
  for os root where
  visible_file:
  "os_readdir os (dir_path root dir) = Some names \<Longrightarrow> name \<in> set names \<Longrightarrow> \<not> skipped_entry name \<Longrightarrow>
   os_stat os (path_join root (entry_rel dir name)) = Some Regular \<Longrightarrow>
   \<not> hidden os (rules @ dir_rules os root dir) (entry_rel dir name) False \<Longrightarrow>
   visible os root dir rules (entry_rel dir name)"
| visible_dir:
  "os_readdir os (dir_path root dir) = Some names \<Longrightarrow> name \<in> set names \<Longrightarrow> \<not> skipped_entry name \<Longrightarrow>
   os_stat os (path_join root (entry_rel dir name)) = Some Directory \<Longrightarrow>
   \<not> hidden os (rules @ dir_rules os root dir) (entry_rel dir name) True \<Longrightarrow>
   visible os root (entry_rel dir name) (rules @ dir_rules os root dir) f \<Longrightarrow>
   visible os root dir rules f"

inductive_cases visibleE: "visible os root dir rules f"

text \<open>What the scan relies on: \<open>stat\<close> fails on a path that is too long, \<open>readdir\<close> gives real names.\<close>

definition posix_paths :: "os \<Rightarrow> bool" where
  "posix_paths os \<longleftrightarrow>
     (\<forall>p. PATH_MAX \<le> length p \<longrightarrow> os_stat os p = None) \<and>
     (\<forall>d names. os_readdir os d = Some names \<longrightarrow> [] \<notin> set names)"

text \<open>What a (partial) scan does to the finder.\<close>

definition listed :: "finder \<Rightarrow> byte list set \<Rightarrow> finder \<Rightarrow> bool" where
  "listed fd new fd' \<longleftrightarrow>
     (\<exists>more cap. set more = new \<and> fd' = fd\<lparr>fd_files := fd_files fd @ more, fd_file_cap := cap\<rparr>) \<and>
     (file_growing.fits_cap fd \<longrightarrow> file_growing.fits_cap fd')"

lemma listed_refl: "listed fd {} fd"
  unfolding listed_def by (auto intro!: exI [of _ "fd_file_cap fd"])

lemma listed_trans:
  assumes "listed fd A fd1" "listed fd1 B fd2"
  shows "listed fd (A \<union> B) fd2"
proof -
  from assms(1) obtain m1 c1 where 1: "set m1 = A" "fd1 = fd\<lparr>fd_files := fd_files fd @ m1, fd_file_cap := c1\<rparr>"
    by (auto simp: listed_def)
  from assms(2) obtain m2 c2 where 2: "set m2 = B" "fd2 = fd1\<lparr>fd_files := fd_files fd1 @ m2, fd_file_cap := c2\<rparr>"
    by (auto simp: listed_def)
  have "set (m1 @ m2) = A \<union> B \<and> fd2 = fd\<lparr>fd_files := fd_files fd @ (m1 @ m2), fd_file_cap := c2\<rparr>"
    using 1 2 by simp
  then have "\<exists>more cap. set more = A \<union> B \<and> fd2 = fd\<lparr>fd_files := fd_files fd @ more, fd_file_cap := cap\<rparr>"
    by blast
  then show ?thesis using assms by (auto simp: listed_def)
qed

lemma listed_add: "listed fd {path} (finder_files_add fd path)"
proof -
  have "\<exists>more cap. set more = {path} \<and>
      finder_files_add fd path = fd\<lparr>fd_files := fd_files fd @ more, fd_file_cap := cap\<rparr>"
    unfolding finder_files_add_def by (rule exI [of _ "[path]"]) auto
  then show ?thesis by (auto simp: listed_def intro: file_growing.push_fits)
qed

text \<open>What one entry and what its directory contribute.\<close>

definition entry_files :: "os \<Rightarrow> byte list \<Rightarrow> byte list \<Rightarrow> ignore_rule list \<Rightarrow> byte list \<Rightarrow> byte list set" where
  "entry_files os root dir_rel rules name =
     (let rel = entry_rel dir_rel name; st = os_stat os (path_join root rel)
      in if skipped_entry name then {}
         else if st = Some Directory \<and> \<not> hidden os rules rel True then {f. visible os root rel rules f}
         else if st = Some Regular \<and> \<not> hidden os rules rel False then {rel}
         else {})"

lemma visible_eq:
  "{f. visible os root dir rules f} =
     (case os_readdir os (dir_path root dir) of None \<Rightarrow> {}
      | Some names \<Rightarrow> (\<Union>name\<in>set names. entry_files os root dir (rules @ dir_rules os root dir) name))"
proof (intro equalityI subsetI)
  fix f assume "f \<in> {f. visible os root dir rules f}"
  then have "visible os root dir rules f" by simp
  then show "f \<in> (case os_readdir os (dir_path root dir) of None \<Rightarrow> {}
      | Some names \<Rightarrow> (\<Union>name\<in>set names. entry_files os root dir (rules @ dir_rules os root dir) name))"
    by (rule visibleE) (auto simp: entry_files_def Let_def)
next
  fix f assume f: "f \<in> (case os_readdir os (dir_path root dir) of None \<Rightarrow> {}
      | Some names \<Rightarrow> (\<Union>name\<in>set names. entry_files os root dir (rules @ dir_rules os root dir) name))"
  then obtain names name where n: "os_readdir os (dir_path root dir) = Some names" "name \<in> set names"
      "f \<in> entry_files os root dir (rules @ dir_rules os root dir) name"
    by (auto split: option.splits)
  then show "f \<in> {f. visible os root dir rules f}"
    by (auto simp: entry_files_def Let_def split: if_splits intro: visible_file visible_dir)
qed

lemma length_path_join:
  "length (path_join a b) \<ge> length a + length b" "a \<noteq> [] \<Longrightarrow> b \<noteq> [] \<Longrightarrow> length (path_join a b) > length a"
  by (auto simp: path_join_def Let_def)

lemma length_entry_rel: "name \<noteq> [] \<Longrightarrow> length dir < length (entry_rel dir name)"
  by (simp add: entry_rel_def length_path_join)

text \<open>The loop over the entries, given that the recursive calls do their part.\<close>

lemma scan_entries_ok:
  assumes posix: "posix_paths os"
    and rec: "\<And>rel l fd. length rel < PATH_MAX \<Longrightarrow> length dir < length rel \<Longrightarrow>
      returns (rec rel l fd) (\<lambda>(fd', l'). il_rules l' = il_rules l \<and>
        listed fd {f. visible os root rel (il_rules l) f} fd')"
  shows "[] \<notin> set names \<Longrightarrow>
    returns (scan_entries os root rec dir names l fd) (\<lambda>(fd', l'). il_rules l' = il_rules l \<and>
      listed fd (\<Union>name\<in>set names. entry_files os root dir (il_rules l) name) fd')"
proof (induction names arbitrary: l fd)
  case Nil
  then show ?case by (simp add: listed_refl)
next
  case (Cons name names)
  let ?rel = "entry_rel dir name" and ?E = "entry_files os root dir (il_rules l)"
  let ?st = "os_stat os (path_join root ?rel)"
  let ?step = "if ?st \<noteq> None \<and> \<not> is_ignored (os_fnmatch os) l ?rel (?st = Some Directory) then
             (if ?st = Some Directory then rec ?rel l fd
              else if ?st = Some Regular then Some (finder_files_add fd ?rel, l) else Some (fd, l))
           else Some (fd, l)"
  have ig: "is_ignored (os_fnmatch os) l ?rel d = hidden os (il_rules l) ?rel d" for d
    by (simp add: is_ignored_def hidden_def)
  have rest: "il_rules l1 = il_rules l \<Longrightarrow> listed fd (?E name) fd1 \<Longrightarrow>
      returns (scan_entries os root rec dir names l1 fd1) (\<lambda>(fd', l'). il_rules l' = il_rules l \<and>
        listed fd (\<Union>name\<in>set (name # names). ?E name) fd')" for l1 fd1
    using Cons.IH [of l1 fd1] Cons.prems by (auto elim!: returns_mono intro: listed_trans)
  show ?case
  proof (cases "skipped_entry name")
    case True
    then have "?E name = {}" by (simp add: entry_files_def)
    with True rest [of l fd] show ?thesis by (simp add: listed_refl)
  next
    case False
    have "returns ?step (\<lambda>(fd1, l1). il_rules l1 = il_rules l \<and> listed fd (?E name) fd1)"
    proof (cases "?st = Some Directory \<and> \<not> hidden os (il_rules l) ?rel True")
      case True
      have "length (path_join root ?rel) < PATH_MAX"
        using posix True by (metis linorder_not_less option.distinct(1) posix_paths_def)
      then have "length ?rel < PATH_MAX"
        using length_path_join(1) [of root ?rel] by linarith
      moreover have "length dir < length ?rel"
        using Cons.prems by (intro length_entry_rel) auto
      ultimately have "returns (rec ?rel l fd) (\<lambda>(fd', l'). il_rules l' = il_rules l \<and>
          listed fd {f. visible os root ?rel (il_rules l) f} fd')" by (rule rec)
      with True False show ?thesis by (simp add: ig entry_files_def Let_def)
    qed (use False in \<open>auto simp: ig entry_files_def Let_def listed_refl listed_add\<close>)
    then obtain x where x: "?step = Some x" "case x of (fd1, l1) \<Rightarrow> il_rules l1 = il_rules l \<and> listed fd (?E name) fd1"
      by (rule returnsE)
    obtain fd1 l1 where "x = (fd1, l1)" by (cases x)
    with x have "?step = Some (fd1, l1)" "il_rules l1 = il_rules l" "listed fd (?E name) fd1"
      by simp_all
    with False rest [of l1 fd1] show ?thesis by (simp add: Let_def)
  qed
qed

text \<open>
  With \<open>PATH_MAX\<close> units of fuel the scan ends, leaves the rules as they were and appends exactly the
  visible files.
\<close>

lemma scan_project_dir_ok:
  assumes posix: "posix_paths os"
  shows "length dir < PATH_MAX \<Longrightarrow> PATH_MAX \<le> length dir + fuel \<Longrightarrow>
    returns (scan_project_dir fuel os root dir l fd) (\<lambda>(fd', l'). il_rules l' = il_rules l \<and>
      listed fd {f. visible os root dir (il_rules l) f} fd')"
proof (induction fuel arbitrary: dir l fd)
  case (Suc fuel)
  let ?p = "path_join (dir_path root dir) (bytes_of ''.gitignore'')"
  obtain l1 n where l1: "load_gitignore (os_read os ?p) (path_is_file os ?p) dir l = Some (l1, n)"
    "il_rules l1 = il_rules l @ dir_rules os root dir"
    using load_gitignore_rules [of "os_read os ?p" "path_is_file os ?p" dir l]
    by (auto simp: dir_rules_def Let_def elim!: returnsE)
  show ?case
  proof (cases "os_readdir os (dir_path root dir)")
    case None
    then show ?thesis
      using l1 by (simp add: Let_def ignore_list_truncate_def listed_refl visible_eq [of os root dir])
  next
    case (Some names)
    have "returns (scan_entries os root (scan_project_dir fuel os root) dir names l1 fd)
        (\<lambda>(fd', l'). il_rules l' = il_rules l1 \<and>
           listed fd (\<Union>name\<in>set names. entry_files os root dir (il_rules l1) name) fd')"
      using posix Some Suc.prems by (intro scan_entries_ok Suc.IH) (auto simp: posix_paths_def)
    with Some l1 show ?thesis
      by (auto simp: Let_def ignore_list_truncate_def visible_eq [of os root dir] elim!: returns_mono)
  qed
qed simp

end
