(* ===== verification/Fuzzy.thy ===== *)
theory Fuzzy
  imports Scan Order "HOL-Library.Sublist"
begin

text \<open>
  Scoring and ranking the finder's files (\<open>src/finder.c\<close>: \<open>fuzzy_score\<close>, \<open>match_compare\<close>,
  \<open>finder_update_matches\<close>). The C \<open>int\<close> of a score is an \<open>int\<close> here; the bound lemma shows that it
  stays far inside 32 bits for paths of at most \<open>PATH_MAX\<close> bytes and queries of at most 255. The
  comparator orders scored files totally, so the result of \<open>qsort\<close> does not depend on how the
  library sorts.
\<close>

section \<open>The score\<close>

definition at_boundary :: "byte list \<Rightarrow> nat \<Rightarrow> bool" where
  "at_boundary path t \<longleftrightarrow> t = 0 \<or> path ! (t - 1) = 47 \<or> path ! (t - 1) = 95 \<or>
     path ! (t - 1) = 45 \<or> path ! (t - 1) = 32"

definition char_bonus :: "byte list \<Rightarrow> nat \<Rightarrow> int \<Rightarrow> int" where
  "char_bonus path t streak =
     10 + (if streak > 0 then 6 else 0) + (if at_boundary path t then 4 else 0)"

function fuzzy_loop :: "byte list \<Rightarrow> byte list \<Rightarrow> nat \<Rightarrow> nat \<Rightarrow> int \<Rightarrow> int \<Rightarrow> nat \<times> int" where
  "fuzzy_loop pat path p t streak score =
     (if t < length path \<and> p < length pat then
        (if tolower (pat ! p) = tolower (path ! t)
         then fuzzy_loop pat path (p + 1) (t + 1) (streak + 1) (score + char_bonus path t streak)
         else fuzzy_loop pat path p (t + 1) 0 score)
      else (p, score))"
  by pat_completeness auto
termination
  by (relation "measure (\<lambda>(pat, path, p, t, streak, score). length path - t)") auto

declare fuzzy_loop.simps [simp del]

definition fuzzy_score :: "byte list \<Rightarrow> byte list \<Rightarrow> int" where
  "fuzzy_score pat path =
     (if pat = [] then 0
      else case fuzzy_loop pat path 0 0 0 0 of
        (p, score) \<Rightarrow>
          if p < length pat then -1
          else score - (int (length path) - int (length pat)))"

section \<open>The ranking\<close>

record finder_match =
  fm_index :: nat
  fm_score :: int

definition match_compare :: "finder_match \<Rightarrow> finder_match \<Rightarrow> int" where
  "match_compare ma mb =
     (if fm_score ma \<noteq> fm_score mb then fm_score mb - fm_score ma
      else if fm_index ma < fm_index mb then -1
      else if fm_index ma > fm_index mb then 1
      else 0)"

interpretation match_order: total_comparator match_compare
  by unfold_locales (auto simp: match_compare_def split: if_splits)

definition finder_matches_clear :: "finder \<Rightarrow> finder" where
  "finder_matches_clear fd = fd\<lparr>fd_matches := [], fd_selection := 0, fd_scroll := 0\<rparr>"

text \<open>The loop that scores the files, from index \<open>i\<close> on.\<close>

fun score_files :: "byte list \<Rightarrow> nat \<Rightarrow> byte list list \<Rightarrow> finder_match list" where
  "score_files query i [] = []"
| "score_files query i (file # files) =
     (let score = fuzzy_score query file
      in if score \<ge> 0 then \<lparr>fm_index = i, fm_score = score\<rparr> # score_files query (i + 1) files
         else score_files query (i + 1) files)"

definition finder_update_matches :: "finder \<Rightarrow> finder option" where
  "finder_update_matches fd =
     (let fd = finder_matches_clear fd
      in if fd_files fd = [] then Some fd
         else do {
           query \<leftarrow> c_string (fl_buf (fd_query fd));
           let fd = (if fd_scored_cap fd < length (fd_files fd)
                     then fd\<lparr>fd_scored_cap := length (fd_files fd)\<rparr> else fd);
           let scored = score_files query 0 (fd_files fd);
           let match_count = length scored;
           let scored = (if match_count > 1 then qsort match_compare scored else scored);
           let fd = (if fd_match_cap fd < match_count
                     then fd\<lparr>fd_match_cap := (if match_count > 0 then match_count else 1)\<rparr> else fd);
           Some (fd\<lparr>fd_matches := map fm_index scored, fd_selection := 0, fd_scroll := 0\<rparr>)
         })"

section \<open>What the score means\<close>

text \<open>The letters of the query, in order, in the path, case ignored.\<close>

definition fuzzy_matches :: "byte list \<Rightarrow> byte list \<Rightarrow> bool" where
  "fuzzy_matches pat path \<longleftrightarrow> subseq (map tolower pat) (map tolower path)"

lemma fuzzy_loop_ok:
  "p \<le> length pat \<Longrightarrow> t \<le> length path \<Longrightarrow> 0 \<le> streak \<Longrightarrow>
   (case fuzzy_loop pat path p t streak score of (p', score') \<Rightarrow> p \<le> p' \<and> p' \<le> length pat \<and>
     (p' = length pat \<longleftrightarrow> subseq (map tolower (drop p pat)) (map tolower (drop t path))) \<and>
     score + 10 * int (p' - p) \<le> score' \<and> score' \<le> score + 20 * int (p' - p))"
proof (induction pat path p t streak score rule: fuzzy_loop.induct)
  case (1 pat path p t streak score)
  show ?case
  proof (cases "t < length path \<and> p < length pat")
    case True
    then have d: "drop t path = path ! t # drop (Suc t) path" "drop p pat = pat ! p # drop (Suc p) pat"
      by (simp_all add: Cons_nth_drop_Suc)
    have b: "10 \<le> char_bonus path t streak" "char_bonus path t streak \<le> 20"
      by (simp_all add: char_bonus_def)
    show ?thesis
    proof (cases "tolower (pat ! p) = tolower (path ! t)")
      case hit: True
      have "case fuzzy_loop pat path (p + 1) (t + 1) (streak + 1) (score + char_bonus path t streak) of
          (p', score') \<Rightarrow> p + 1 \<le> p' \<and> p' \<le> length pat \<and>
            (p' = length pat \<longleftrightarrow> subseq (map tolower (drop (p + 1) pat)) (map tolower (drop (t + 1) path))) \<and>
            score + char_bonus path t streak + 10 * int (p' - (p + 1)) \<le> score' \<and>
            score' \<le> score + char_bonus path t streak + 20 * int (p' - (p + 1))"
        using 1 True hit by simp
      then show ?thesis
        using True hit b d by (subst fuzzy_loop.simps) (auto simp: of_nat_diff)
    next
      case False
      have "case fuzzy_loop pat path p (t + 1) 0 score of
          (p', score') \<Rightarrow> p \<le> p' \<and> p' \<le> length pat \<and>
            (p' = length pat \<longleftrightarrow> subseq (map tolower (drop p pat)) (map tolower (drop (t + 1) path))) \<and>
            score + 10 * int (p' - p) \<le> score' \<and> score' \<le> score + 20 * int (p' - p)"
        using 1 True False by simp
      then show ?thesis
        using True False d by (subst fuzzy_loop.simps) auto
    qed
  next
    case False
    then have "p = length pat \<longleftrightarrow> subseq (map tolower (drop p pat)) (map tolower (drop t path))"
      using 1(3,4) by (cases "p = length pat") (auto simp: drop_eq_Nil2)
    with False 1(3-5) show ?thesis by (subst fuzzy_loop.simps) auto
  qed
qed

lemma fuzzy_score_ok:
  assumes "pat \<noteq> []"
  shows "fuzzy_matches pat path \<Longrightarrow>
      10 * int (length pat) - (int (length path) - int (length pat)) \<le> fuzzy_score pat path \<and>
      fuzzy_score pat path \<le> 20 * int (length pat) - (int (length path) - int (length pat))"
    "\<not> fuzzy_matches pat path \<Longrightarrow> fuzzy_score pat path = -1"
  using fuzzy_loop_ok [of 0 pat 0 path 0 0] assms
  by (auto simp: fuzzy_score_def fuzzy_matches_def)

lemma fuzzy_matches_length: "fuzzy_matches pat path \<Longrightarrow> length pat \<le> length path"
  unfolding fuzzy_matches_def using list_emb_length by fastforce

text \<open>The scores fit the C type.\<close>

lemma fuzzy_score_bounds:
  "- int (length path) - 1 \<le> fuzzy_score pat path \<and> fuzzy_score pat path \<le> 20 * int (length pat)"
proof (cases "pat = []")
  case False
  then show ?thesis
    using fuzzy_score_ok [OF False, of path] fuzzy_matches_length [of pat path]
    by (cases "fuzzy_matches pat path") auto
qed (simp add: fuzzy_score_def)

section \<open>What the ranking holds\<close>

lemma score_files_set:
  "set (score_files query i files) =
     {m. i \<le> fm_index m \<and> fm_index m < i + length files \<and> 0 \<le> fm_score m \<and>
         fm_score m = fuzzy_score query (files ! (fm_index m - i))}"
proof (induction files arbitrary: i)
  case (Cons f files)
  have idx: "fm_index m = i \<or> Suc i \<le> fm_index m" if "i \<le> fm_index m" for m :: finder_match using that by auto
  have nth: "(f # files) ! (fm_index m - i) = files ! (fm_index m - Suc i)" if "Suc i \<le> fm_index m" for m :: finder_match
    using that by (simp add: nth_Cons')
  have eq: "m = \<lparr>fm_index = i, fm_score = s\<rparr> \<longleftrightarrow> fm_index m = i \<and> fm_score m = s" for m :: finder_match and s
    by (cases m) auto
  show ?case
    using idx nth Cons [of "i + 1"] by (auto simp: Let_def eq dest: idx)
qed auto

lemma score_files_distinct: "distinct (map fm_index (score_files query i files))"
proof (induction files arbitrary: i)
  case (Cons f files)
  have "i \<notin> fm_index ` set (score_files query (i + 1) files)"
    by (auto simp: score_files_set)
  with Cons [of "i + 1"] show ?case by (simp add: Let_def)
qed simp

text \<open>Better scores first, equal scores in the order of the file list.\<close>

definition ranks_before :: "byte list \<Rightarrow> byte list list \<Rightarrow> nat \<Rightarrow> nat \<Rightarrow> bool" where
  "ranks_before query files i j \<longleftrightarrow>
     fuzzy_score query (files ! j) < fuzzy_score query (files ! i) \<or>
     (fuzzy_score query (files ! i) = fuzzy_score query (files ! j) \<and> i < j)"

definition ranked :: "byte list \<Rightarrow> byte list list \<Rightarrow> nat list \<Rightarrow> bool" where
  "ranked query files is \<longleftrightarrow>
     set is = {i. i < length files \<and> 0 \<le> fuzzy_score query (files ! i)} \<and> distinct is \<and>
     sorted_wrt (ranks_before query files) is"

lemma sorted_wrt_map_distinct:
  "sorted_wrt P xs \<Longrightarrow> distinct (map f xs) \<Longrightarrow>
   (\<And>x y. x \<in> set xs \<Longrightarrow> y \<in> set xs \<Longrightarrow> P x y \<Longrightarrow> f x \<noteq> f y \<Longrightarrow> Q (f x) (f y)) \<Longrightarrow>
   sorted_wrt Q (map f xs)"
proof (induction xs)
  case (Cons a xs)
  have "Q (f a) (f y)" if y: "y \<in> set xs" for y
  proof (rule Cons.prems(3))
    show "f a \<noteq> f y" using Cons.prems(2) y by (metis distinct.simps(2) image_eqI list.simps(9) set_map)
  qed (use Cons.prems(1) y in auto)
  with Cons show ?case by auto
qed simp

lemma qsort_ranked:
  "ranked query files (map fm_index (qsort match_compare (score_files query 0 files)))"
proof -
  let ?s = "score_files query 0 files"
  let ?q = "qsort match_compare ?s"
  have "set (map fm_index ?q) = {i. i < length files \<and> 0 \<le> fuzzy_score query (files ! i)}"
  proof (intro equalityI subsetI)
    fix i assume i: "i \<in> {i. i < length files \<and> 0 \<le> fuzzy_score query (files ! i)}"
    then have "\<lparr>fm_index = i, fm_score = fuzzy_score query (files ! i)\<rparr> \<in> set ?q"
      by (simp add: score_files_set)
    then have "fm_index \<lparr>fm_index = i, fm_score = fuzzy_score query (files ! i)\<rparr> \<in> fm_index ` set ?q"
      by (rule imageI)
    then show "i \<in> set (map fm_index ?q)" by simp
  qed (auto simp: score_files_set)
  moreover have d: "distinct (map fm_index ?q)"
    using score_files_distinct [of query 0 files] mset_eq_imp_distinct_iff [of "map fm_index ?q" "map fm_index ?s"]
    by simp
  moreover have "sorted_wrt (ranks_before query files) (map fm_index ?q)"
    by (rule sorted_wrt_map_distinct [OF match_order.sorted_qsort d])
       (auto simp: score_files_set match_compare_def ranks_before_def split: if_splits)
  ultimately show ?thesis by (simp add: ranked_def)
qed

text \<open>A ranking is unique, so it does not matter how \<open>qsort\<close> proceeds.\<close>

lemma ranked_unique:
  assumes "ranked query files is" "ranked query files js" shows "is = js"
proof -
  define P where "P i j \<longleftrightarrow> i = j \<or> ranks_before query files i j" for i j
  have m: "sorted_wrt (ranks_before query files) xs \<Longrightarrow> sorted_wrt P xs" for xs
    by (erule sorted_wrt_mono_rel [rotated]) (simp add: P_def)
  have "sorted_wrt P is" "sorted_wrt P js"
    using assms m unfolding ranked_def by blast+
  moreover have "set is = set js" "distinct is" "distinct js" using assms by (simp_all add: ranked_def)
  ultimately show ?thesis
  proof (induction "is" arbitrary: js)
    case (Cons i "is")
    then obtain j js' where js: "js = j # js'" by (cases js) auto
    have "j \<in> set (i # is)" "i \<in> set (j # js')"
      using Cons.prems(3) js by (metis list.set_intros(1))+
    then have "j = i \<or> P i j" "i = j \<or> P j i" using Cons.prems(1,2) js by auto
    then have "i = j" by (auto simp: P_def ranks_before_def)
    with Cons.prems js have "set is = set js'" by (simp add: insert_ident)
    with Cons js \<open>i = j\<close> show ?case by simp
  qed simp
qed

lemma finder_update_matches_ok:
  assumes "wf_field (fd_query fd)"
  shows "returns (finder_update_matches fd) (\<lambda>fd'.
    ranked (field_text (fd_query fd)) (fd_files fd) (fd_matches fd') \<and>
    (\<exists>m mc sc. fd' = fd\<lparr>fd_matches := m, fd_match_cap := mc, fd_scored_cap := sc,
                        fd_selection := 0, fd_scroll := 0\<rparr> \<and>
       fd_match_cap fd \<le> mc \<and> length m \<le> mc))"
proof (cases "fd_files fd = []")
  case True
  have "ranked (field_text (fd_query fd)) [] []" by (simp add: ranked_def)
  moreover have "\<exists>m mc sc. fd\<lparr>fd_matches := [], fd_selection := 0, fd_scroll := 0\<rparr> =
      fd\<lparr>fd_matches := m, fd_match_cap := mc, fd_scored_cap := sc, fd_selection := 0, fd_scroll := 0\<rparr> \<and>
      fd_match_cap fd \<le> mc \<and> length m \<le> mc"
    by (rule exI [of _ "[]"], rule exI [of _ "fd_match_cap fd"], rule exI [of _ "fd_scored_cap fd"]) simp
  ultimately show ?thesis
    using True by (simp add: finder_update_matches_def finder_matches_clear_def)
next
  case False
  let ?q = "field_text (fd_query fd)"
  let ?s = "score_files ?q 0 (fd_files fd)"
  have q: "c_string (fl_buf (fd_query fd)) = Some ?q"
    using wf_field_block [OF assms] by (simp add: c_string_eq)
  have srt: "(if length ?s > 1 then qsort match_compare ?s else ?s) = qsort match_compare ?s"
    by (cases ?s; cases "tl ?s") auto
  let ?fd = "fd\<lparr>fd_matches := map fm_index (qsort match_compare ?s),
      fd_match_cap := max (fd_match_cap fd) (length ?s),
      fd_scored_cap := max (fd_scored_cap fd) (length (fd_files fd)), fd_selection := 0, fd_scroll := 0\<rparr>"
  have "finder_update_matches fd = Some ?fd"
    using False q srt by (auto simp: finder_update_matches_def finder_matches_clear_def Let_def max_def)
  then show ?thesis
    using qsort_ranked [of ?q "fd_files fd"] by (auto intro!: exI)
qed

end
