(* ===== verification/Isearch.thy ===== *)
theory Isearch
  imports Invariant
begin

text \<open>
  Incremental search (\<open>isearch_*\<close>, \<open>line_search_*\<close> and \<open>search_*_from\<close> of \<open>src/input.c\<close>). The loops
  over rows, columns and needle bytes are the source's. The lemmas relate them to the first and
  the last occurrence of the query in the text, letters compared without case.
\<close>

section \<open>Searching one line\<close>

definition ctrl_key :: "byte \<Rightarrow> byte" where
  "ctrl_key k = k AND 0x1f"

definition KEY_BACKSPACE :: byte where
  "KEY_BACKSPACE = 127"

fun needle_matches :: "block \<Rightarrow> nat \<Rightarrow> block \<Rightarrow> nat \<Rightarrow> nat \<Rightarrow> bool option" where
  "needle_matches line col needle i 0 = Some True"
| "needle_matches line col needle i (Suc n) = do {
     lhs \<leftarrow> load line (col + i);
     rhs \<leftarrow> load needle i;
     if tolower lhs \<noteq> tolower rhs then Some False
     else needle_matches line col needle (i + 1) n
   }"

function search_up :: "block \<Rightarrow> nat \<Rightarrow> block \<Rightarrow> nat \<Rightarrow> nat \<Rightarrow> nat option option" where
  "search_up line line_len needle needle_len col =
     (if col + needle_len \<le> line_len then do {
        m \<leftarrow> needle_matches line col needle 0 needle_len;
        if m then Some (Some col) else search_up line line_len needle needle_len (col + 1)
      } else Some None)"
  by pat_completeness auto
termination
  by (relation "measure (\<lambda>(line, line_len, needle, needle_len, col). Suc line_len - col)") auto

declare search_up.simps [simp del]

definition line_search_forward :: "block \<Rightarrow> nat \<Rightarrow> block \<Rightarrow> nat \<Rightarrow> nat option option" where
  "line_search_forward line start needle needle_len = do {
     line_len \<leftarrow> strlen line;
     if needle_len = 0 \<or> line_len < needle_len then Some None
     else if start > line_len - needle_len then Some None
     else search_up line line_len needle needle_len start
   }"

text \<open>The backward loop also goes up; it keeps the last match it has seen.\<close>

function search_last ::
  "block \<Rightarrow> nat \<Rightarrow> block \<Rightarrow> nat \<Rightarrow> nat option \<Rightarrow> nat \<Rightarrow> nat option option" where
  "search_last line end_col needle needle_len found col =
     (if col \<le> end_col then do {
        m \<leftarrow> needle_matches line col needle 0 needle_len;
        search_last line end_col needle needle_len (if m then Some col else found) (col + 1)
      } else Some found)"
  by pat_completeness auto
termination
  by (relation "measure (\<lambda>(line, end_col, needle, needle_len, found, col). Suc end_col - col)") auto

declare search_last.simps [simp del]

definition line_search_backward :: "block \<Rightarrow> nat \<Rightarrow> block \<Rightarrow> nat \<Rightarrow> nat option option" where
  "line_search_backward line end_col needle needle_len = do {
     line_len \<leftarrow> strlen line;
     if needle_len = 0 \<or> line_len < needle_len then Some None
     else do {
       let max_col = line_len - needle_len;
       let end_col = (if end_col > max_col then max_col else end_col);
       search_last line end_col needle needle_len None 0
     }
   }"

section \<open>Searching the buffer\<close>

function search_rows_down ::
  "editor \<Rightarrow> nat \<Rightarrow> nat \<Rightarrow> nat \<Rightarrow> (nat \<times> nat) option option" where
  "search_rows_down ed start_row start_col row =
     (if row < line_count (ed_buffer ed) then do {
        line \<leftarrow> load_line (ed_buffer ed) row;
        from \<leftarrow> (if row = start_row then do {
                   len \<leftarrow> line_length (ed_buffer ed) row;
                   Some (if start_col > len then len else start_col)
                 } else Some 0);
        m \<leftarrow> line_search_forward line from (ed_isearch_query ed) (ed_isearch_len ed);
        case m of Some col \<Rightarrow> Some (Some (row, col))
        | None \<Rightarrow> search_rows_down ed start_row start_col (row + 1)
      } else Some None)"
  by pat_completeness auto
termination
  by (relation "measure (\<lambda>(ed, start_row, start_col, row). line_count (ed_buffer ed) - row)") auto

declare search_rows_down.simps [simp del]

definition search_forward_from :: "editor \<Rightarrow> nat \<Rightarrow> nat \<Rightarrow> (nat \<times> nat) option option" where
  "search_forward_from ed start_row start_col = search_rows_down ed start_row start_col start_row"

text \<open>The argument counts the rows left, so \<open>Suc i\<close> looks at row \<open>i\<close>.\<close>

fun search_rows_up ::
  "editor \<Rightarrow> nat \<Rightarrow> nat \<Rightarrow> nat \<Rightarrow> (nat \<times> nat) option option" where
  "search_rows_up ed start_row start_col 0 = Some None"
| "search_rows_up ed start_row start_col (Suc i) = do {
     line \<leftarrow> load_line (ed_buffer ed) i;
     start_col \<leftarrow> (if i = start_row then do {
                len \<leftarrow> line_length (ed_buffer ed) i;
                Some (if start_col > len then len else start_col)
              } else Some start_col);
     if i = start_row \<and> start_col < ed_isearch_len ed
     then search_rows_up ed start_row start_col i
     else do {
       let end_col = (if i = start_row then start_col - ed_isearch_len ed else SIZE_MAX);
       m \<leftarrow> line_search_backward line end_col (ed_isearch_query ed) (ed_isearch_len ed);
       case m of Some col \<Rightarrow> Some (Some (i, col))
       | None \<Rightarrow> search_rows_up ed start_row start_col i
     }
   }"

definition search_backward_from :: "editor \<Rightarrow> nat \<Rightarrow> nat \<Rightarrow> (nat \<times> nat) option option" where
  "search_backward_from ed start_row start_col =
     search_rows_up ed start_row start_col (start_row + 1)"

section \<open>The search state\<close>

definition isearch_set_status :: "editor \<Rightarrow> bool \<Rightarrow> editor option" where
  "isearch_set_status ed failed = do {
     query \<leftarrow> c_string (ed_isearch_query ed);
     let prefix = (if failed then
         (if ed_isearch_forward ed then ''Failing I-search forward: ''
          else ''Failing I-search backward: '')
       else
         (if ed_isearch_forward ed then ''I-search forward: '' else ''I-search backward: ''));
     Some (status (bytes_of prefix @ query) ed)
   }"

definition isearch_begin :: "editor \<Rightarrow> bool \<Rightarrow> editor option" where
  "isearch_begin ed forward = do {
     ed \<leftarrow> (if \<not> ed_isearch_active ed then do {
              query \<leftarrow> store (ed_isearch_query ed) 0 0;
              Some (ed\<lparr>ed_isearch_active := True, ed_isearch_len := 0, ed_isearch_query := query,
                       ed_isearch_origin_row := cur_row ed, ed_isearch_origin_col := cur_col ed,
                       ed_isearch_has_match := False\<rparr>)
            } else Some ed);
     isearch_set_status (ed\<lparr>ed_isearch_forward := forward\<rparr>) False
   }"

definition isearch_finish :: "editor \<Rightarrow> bool \<Rightarrow> editor option" where
  "isearch_finish ed restore_origin =
     (if \<not> ed_isearch_active ed then Some ed
      else do {
        let ed = (if restore_origin
                  then set_cursor (ed_isearch_origin_row ed) (ed_isearch_origin_col ed) ed else ed);
        query \<leftarrow> store (ed_isearch_query ed) 0 0;
        Some (ed\<lparr>ed_isearch_active := False, ed_isearch_has_match := False, ed_isearch_len := 0,
                 ed_isearch_query := query, ed_status_msg := []\<rparr>)
      })"

text \<open>Where a search starts: the origin, or one character off the current match.\<close>

definition isearch_start :: "editor \<Rightarrow> bool \<Rightarrow> (nat \<times> nat) option" where
  "isearch_start ed repeat =
     (if repeat \<and> ed_isearch_has_match ed then do {
        let row = cur_row ed;
        line \<leftarrow> load_line (ed_buffer ed) row;
        line_len \<leftarrow> line_length (ed_buffer ed) row;
        col \<leftarrow> (if ed_isearch_forward ed then utf8_next_boundary line line_len (cur_col ed)
               else if cur_col ed > 0 then utf8_prev_boundary line (cur_col ed)
               else Some (cur_col ed));
        Some (row, col)
      } else Some (ed_isearch_origin_row ed, ed_isearch_origin_col ed))"

definition isearch_find :: "editor \<Rightarrow> bool \<Rightarrow> (editor \<times> bool) option" where
  "isearch_find ed repeat =
     (if ed_isearch_len ed = 0 then do {
        ed \<leftarrow> isearch_set_status
               ((set_cursor (ed_isearch_origin_row ed) (ed_isearch_origin_col ed) ed)
                  \<lparr>ed_isearch_has_match := False\<rparr>) False;
        Some (ed, True)
      }
      else do {
        (start_row, start_col) \<leftarrow> isearch_start ed repeat;
        found \<leftarrow> (if ed_isearch_forward ed then search_forward_from ed start_row start_col
                  else search_backward_from ed start_row start_col);
        case found of
          Some (row, col) \<Rightarrow> do {
            ed \<leftarrow> isearch_set_status ((set_cursor row col ed)\<lparr>ed_isearch_has_match := True\<rparr>) False;
            Some (ed, True)
          }
        | None \<Rightarrow> do {
            ed \<leftarrow> isearch_set_status (ed\<lparr>ed_isearch_has_match := False\<rparr>) True;
            Some (ed, False)
          }
      })"

definition isearch_backspace :: "editor \<Rightarrow> editor option" where
  "isearch_backspace ed =
     (if ed_isearch_len ed = 0 then Some ed
      else do {
        prev \<leftarrow> utf8_prev_boundary (ed_isearch_query ed) (ed_isearch_len ed);
        query \<leftarrow> store (ed_isearch_query ed) prev 0;
        (ed, _) \<leftarrow> isearch_find (ed\<lparr>ed_isearch_query := query, ed_isearch_len := prev\<rparr>) False;
        Some ed
      })"

definition isearch_append :: "editor \<Rightarrow> byte \<Rightarrow> editor option" where
  "isearch_append ed key =
     (if ed_isearch_len ed + 1 < FIELD_SIZE then do {
        query \<leftarrow> store (ed_isearch_query ed) (ed_isearch_len ed) key;
        query \<leftarrow> store query (ed_isearch_len ed + 1) 0;
        (ed, _) \<leftarrow> isearch_find (ed\<lparr>ed_isearch_query := query,
                                    ed_isearch_len := ed_isearch_len ed + 1\<rparr>) False;
        Some ed
      } else Some ed)"

definition isearch_handle_key :: "editor \<Rightarrow> byte \<Rightarrow> (editor \<times> bool) option" where
  "isearch_handle_key ed key =
     (if \<not> ed_isearch_active ed then Some (ed, False)
      else if key = ctrl_key 103 then do { ed \<leftarrow> isearch_finish ed True; Some (ed, True) }
      else if key = 13 then do { ed \<leftarrow> isearch_finish ed False; Some (ed, True) }
      else if key = 27 then do { ed \<leftarrow> isearch_finish ed False; Some (ed, False) }
      else if key = ctrl_key 115 then do {
        (ed, _) \<leftarrow> isearch_find (ed\<lparr>ed_isearch_forward := True\<rparr>) True;
        Some (ed, True)
      }
      else if key = ctrl_key 114 then do {
        (ed, _) \<leftarrow> isearch_find (ed\<lparr>ed_isearch_forward := False\<rparr>) True;
        Some (ed, True)
      }
      else if key = KEY_BACKSPACE \<or> key = ctrl_key 104 then do {
        ed \<leftarrow> isearch_backspace ed;
        Some (ed, True)
      }
      else if key \<ge> 32 \<and> key \<noteq> KEY_BACKSPACE \<and> key \<noteq> ctrl_key 104 then do {
        ed \<leftarrow> isearch_append ed key;
        Some (ed, True)
      }
      else do { ed \<leftarrow> isearch_finish ed False; Some (ed, False) })"

section \<open>What a search finds\<close>

text \<open>The query occurs in a line at a column, and in a text at a position.\<close>

definition imatch :: "byte list \<Rightarrow> byte list \<Rightarrow> nat \<Rightarrow> bool" where
  "imatch q s c \<longleftrightarrow> c + length q \<le> length s \<and> map tolower (take (length q) (drop c s)) = map tolower q"

definition imatch_at :: "byte list \<Rightarrow> byte list list \<Rightarrow> pos \<Rightarrow> bool" where
  "imatch_at q T p \<longleftrightarrow> p_row p < length T \<and> imatch q (T ! p_row p) (p_col p)"

lemma needle_matches_eq:
  assumes "wf_block line" "wf_block needle"
  shows "i + n = length (cstr needle) \<Longrightarrow> col + length (cstr needle) \<le> length (cstr line) \<Longrightarrow>
    needle_matches line col needle i n =
      Some (map tolower (take n (drop (col + i) (cstr line))) = map tolower (drop i (cstr needle)))"
proof (induction n arbitrary: i)
  case (Suc n)
  from Suc.prems have "drop i (cstr needle) = cstr needle ! i # drop (Suc i) (cstr needle)"
    "drop (col + i) (cstr line) = cstr line ! (col + i) # drop (Suc (col + i)) (cstr line)"
    by (simp_all add: Cons_nth_drop_Suc)
  with Suc.prems Suc.IH [of "Suc i"] show ?case by (simp add: load_cstr)
qed simp

lemma needle_matches_imatch:
  assumes "wf_block line" "wf_block needle" "col + length (cstr needle) \<le> length (cstr line)"
  shows "needle_matches line col needle 0 (length (cstr needle)) =
    Some (imatch (cstr needle) (cstr line) col)"
  using needle_matches_eq [OF assms(1,2), of 0 "length (cstr needle)" col] assms(3)
  by (simp add: imatch_def)

lemma find_none: "(\<And>x. x \<in> set xs \<Longrightarrow> \<not> P x) \<Longrightarrow> find P xs = None"
  by (simp add: find_None_iff)

lemma upt_split: "i \<le> j \<Longrightarrow> j \<le> k \<Longrightarrow> [i..<k] = [i..<j] @ [j..<k]"
  by (metis le_add_diff_inverse upt_add_eq_append)

lemma search_up_eq:
  "wf_block line \<and> wf_block needle \<Longrightarrow>
   search_up line (length (cstr line)) needle (length (cstr needle)) col =
     Some (find (imatch (cstr needle) (cstr line)) [col..<Suc (length (cstr line))])"
proof (induction line "length (cstr line)" needle "length (cstr needle)" col rule: search_up.induct)
  case (1 line needle col)
  show ?case
  proof (cases "col + length (cstr needle) \<le> length (cstr line)")
    case True
    with 1 show ?thesis
      by (subst search_up.simps) (simp add: needle_matches_imatch upt_conv_Cons del: upt_Suc)
  next
    case False
    then have "find (imatch (cstr needle) (cstr line)) [col..<Suc (length (cstr line))] = None"
      by (intro find_none) (auto simp: imatch_def)
    with False show ?thesis by (subst search_up.simps) simp
  qed
qed

lemma search_last_eq:
  assumes "wf_block line" "wf_block needle" "end_col + length (cstr needle) \<le> length (cstr line)"
  shows "search_last line end_col needle (length (cstr needle)) found col =
     Some (case find (imatch (cstr needle) (cstr line)) (rev [col..<Suc end_col]) of
             None \<Rightarrow> found | Some c \<Rightarrow> Some c)"
  using assms
proof (induction line end_col needle "length (cstr needle)" found col rule: search_last.induct)
  case (1 line end_col needle found col)
  have a: "find P (xs @ [x]) = (case find P xs of None \<Rightarrow> if P x then Some x else None | Some c \<Rightarrow> Some c)"
    for P :: "nat \<Rightarrow> bool" and xs x by (induction xs) auto
  show ?case
  proof (cases "col \<le> end_col")
    case True
    with 1 show ?thesis
      by (subst search_last.simps)
         (simp add: needle_matches_imatch upt_conv_Cons a del: upt_Suc split: option.split)
  qed (subst search_last.simps, simp)
qed

lemma line_search_forward_eq:
  assumes "wf_block line" "wf_block needle" "cstr needle \<noteq> []"
  shows "line_search_forward line start needle (length (cstr needle)) =
    Some (find (imatch (cstr needle) (cstr line)) [start..<Suc (length (cstr line))])"
proof -
  have "length (cstr line) < start + length (cstr needle) \<Longrightarrow>
      find (imatch (cstr needle) (cstr line)) [start..<Suc (length (cstr line))] = None"
    by (intro find_none) (auto simp: imatch_def)
  with assms show ?thesis
    by (auto simp: line_search_forward_def strlen_eq search_up_eq)
qed

lemma line_search_backward_eq:
  assumes "wf_block line" "wf_block needle" "cstr needle \<noteq> []"
  shows "line_search_backward line end_col needle (length (cstr needle)) =
    Some (find (imatch (cstr needle) (cstr line)) (rev [0..<Suc (min end_col (length (cstr line)))]))"
proof (cases "length (cstr line) < length (cstr needle)")
  case True
  then have "find (imatch (cstr needle) (cstr line)) xs = None" for xs
    by (intro find_none) (simp add: imatch_def)
  with True assms show ?thesis
    unfolding line_search_backward_def by (simp add: strlen_eq del: upt_Suc)
next
  case False
  let ?m = "min end_col (length (cstr line) - length (cstr needle))"
  have f: "find P (xs @ ys) = (case find P xs of None \<Rightarrow> find P ys | Some c \<Rightarrow> Some c)"
    for P :: "nat \<Rightarrow> bool" and xs ys by (induction xs) auto
  have "[0..<Suc (min end_col (length (cstr line)))] =
      [0..<Suc ?m] @ [Suc ?m..<Suc (min end_col (length (cstr line)))]"
    by (intro upt_split) auto
  moreover have "find (imatch (cstr needle) (cstr line))
      (rev [Suc ?m..<Suc (min end_col (length (cstr line)))]) = None"
    using False by (intro find_none) (auto simp: imatch_def)
  ultimately have "find (imatch (cstr needle) (cstr line)) (rev [0..<Suc (min end_col (length (cstr line)))]) =
      find (imatch (cstr needle) (cstr line)) (rev [0..<Suc ?m])"
    by (simp add: f del: upt_Suc)
  with False assms show ?thesis
    unfolding line_search_backward_def Let_def min_clip
    by (simp add: strlen_eq search_last_eq del: upt_Suc split: option.split)
qed

text \<open>The first occurrence at or behind a position, and the last one that ends at or before it.\<close>

definition first_match :: "byte list \<Rightarrow> byte list list \<Rightarrow> pos \<Rightarrow> (nat \<times> nat) option \<Rightarrow> bool" where
  "first_match q T p r \<longleftrightarrow>
     (case r of
        Some (row, col) \<Rightarrow> imatch_at q T (Pos row col) \<and> p \<le> Pos row col \<and>
          (\<forall>x. imatch_at q T x \<longrightarrow> p \<le> x \<longrightarrow> Pos row col \<le> x)
      | None \<Rightarrow> \<forall>x. imatch_at q T x \<longrightarrow> \<not> p \<le> x)"

definition ends_by :: "byte list \<Rightarrow> pos \<Rightarrow> pos \<Rightarrow> bool" where
  "ends_by q p x \<longleftrightarrow> Pos (p_row x) (p_col x + length q) \<le> p"

definition last_match :: "byte list \<Rightarrow> byte list list \<Rightarrow> pos \<Rightarrow> (nat \<times> nat) option \<Rightarrow> bool" where
  "last_match q T p r \<longleftrightarrow>
     (case r of
        Some (row, col) \<Rightarrow> imatch_at q T (Pos row col) \<and> ends_by q p (Pos row col) \<and>
          (\<forall>x. imatch_at q T x \<longrightarrow> ends_by q p x \<longrightarrow> x \<le> Pos row col)
      | None \<Rightarrow> \<forall>x. imatch_at q T x \<longrightarrow> \<not> ends_by q p x)"

lemma find_upt_Some:
  "find P [a..<b] = Some c \<Longrightarrow> a \<le> c \<and> c < b \<and> P c \<and> (\<forall>i. a \<le> i \<longrightarrow> i < c \<longrightarrow> \<not> P i)"
proof -
  assume "find P [a..<b] = Some c"
  then obtain k where k: "k < b - a" "P (a + k)" "c = a + k" "\<forall>j<k. \<not> P ([a..<b] ! j)"
    by (auto simp: find_Some_iff)
  have "\<not> P i" if "a \<le> i" "i < c" for i
    using k(4) [rule_format, of "i - a"] that k(1,3) by simp
  with k show ?thesis by auto
qed

lemma find_rev_upt_Some:
  "find P (rev [0..<b]) = Some c \<Longrightarrow> c < b \<and> P c \<and> (\<forall>i. c < i \<longrightarrow> i < b \<longrightarrow> \<not> P i)"
proof (induction b)
  case (Suc b)
  then show ?case by (cases "P b") (auto simp: less_Suc_eq)
qed simp

lemma imatch_le: "imatch q s c \<Longrightarrow> c + length q \<le> length s"
  by (simp add: imatch_def)

lemma first_match_cong:
  "(\<And>x. imatch_at q T x \<Longrightarrow> p \<le> x \<longleftrightarrow> p' \<le> x) \<Longrightarrow> first_match q T p r = first_match q T p' r"
  by (auto simp: first_match_def split: option.split)

lemma last_match_cong:
  "(\<And>x. imatch_at q T x \<Longrightarrow> ends_by q p x \<longleftrightarrow> ends_by q p' x) \<Longrightarrow>
   last_match q T p r = last_match q T p' r"
  by (auto simp: last_match_def split: option.split)

text \<open>The search over rows, once for each direction.\<close>

lemma search_rows_down_first:
  assumes "wf_buffer (ed_buffer ed)" "wf_block (ed_isearch_query ed)"
    "ed_isearch_len ed = length (cstr (ed_isearch_query ed))" "cstr (ed_isearch_query ed) \<noteq> []"
  shows "start_row \<le> row \<Longrightarrow> returns (search_rows_down ed start_row start_col row)
    (first_match (cstr (ed_isearch_query ed)) (texts (ed_buffer ed))
       (Pos row (if row = start_row then start_col else 0)))"
  using assms
proof (induction ed start_row start_col row rule: search_rows_down.induct)
  case (1 ed start_row start_col row)
  let ?B = "ed_buffer ed" and ?q = "cstr (ed_isearch_query ed)" and ?T = "texts (ed_buffer ed)"
  define p where "p = (if row = start_row then start_col else 0)"
  show ?case
  proof (cases "row < line_count ?B")
    case False
    then show ?thesis
      by (subst search_rows_down.simps) (auto simp: first_match_def imatch_at_def less_eq_pos_def)
  next
    case True
    define f where "f = (if row = start_row then min start_col (length (ltext ?B row)) else 0)"
    define m where "m = find (imatch ?q (ltext ?B row)) [f..<Suc (length (ltext ?B row))]"
    have ls: "line_search_forward (b_lines ?B ! row) f (ed_isearch_query ed) (ed_isearch_len ed) = Some m"
      using 1 True unfolding m_def ltext_def by (simp add: line_search_forward_eq wf_buffer_line del: upt_Suc)
    have q: "0 < length ?q" using 1 by simp
    have cl: "imatch ?q (ltext ?B row) c \<Longrightarrow> c < length (ltext ?B row)" for c
      using imatch_le [of ?q "ltext ?B row" c] q by linarith
    have fp: "imatch ?q (ltext ?B row) c \<Longrightarrow> f \<le> c \<longleftrightarrow> p \<le> c" for c
      using cl [of c] by (auto simp: f_def p_def)
    have step: "search_rows_down ed start_row start_col row =
        (case m of Some col \<Rightarrow> Some (Some (row, col)) | None \<Rightarrow> search_rows_down ed start_row start_col (row + 1))"
      using True 1 ls by (subst search_rows_down.simps)
        (auto simp: load_line_eq line_length_eq f_def min_def split: option.splits if_splits)
    show ?thesis
    proof (cases m)
      case (Some c)
      then have "f \<le> c \<and> imatch ?q (ltext ?B row) c \<and> (\<forall>i. f \<le> i \<longrightarrow> i < c \<longrightarrow> \<not> imatch ?q (ltext ?B row) i)"
        using find_upt_Some [of "imatch ?q (ltext ?B row)" f] m_def by metis
      then show ?thesis using step Some True fp unfolding p_def [symmetric]
        by (auto simp: first_match_def imatch_at_def less_eq_pos_def) (metis not_le)
    next
      case None
      then have n: "\<not> imatch ?q (ltext ?B row) c" if "f \<le> c" for c
        using that imatch_le [of ?q "ltext ?B row" c] unfolding m_def find_None_iff by auto
      have "returns (search_rows_down ed start_row start_col (row + 1))
          (first_match ?q ?T (Pos (row + 1) (if row + 1 = start_row then start_col else 0)))"
        using 1(2-) True n None ls
        by (intro "1.IH") (auto simp: load_line_eq line_length_eq f_def min_def)
      moreover have "Pos (row + 1) (if row + 1 = start_row then start_col else 0) \<le> x \<longleftrightarrow> Pos row p \<le> x"
        if "imatch_at ?q ?T x" for x
        using that n fp [of "p_col x"] 1(2) True
        by (cases "p_row x = row") (auto simp: imatch_at_def less_eq_pos_def)
      then have fe: "first_match ?q ?T (Pos (row + 1) (if row + 1 = start_row then start_col else 0))
          = first_match ?q ?T (Pos row p)"
        by (intro ext first_match_cong)
      ultimately show ?thesis
        using step None unfolding p_def [symmetric] fe by simp
    qed
  qed
qed

lemma search_rows_up_col:
  "n \<le> start_row \<Longrightarrow> search_rows_up ed start_row c n = search_rows_up ed start_row d n"
  by (induction n) (simp_all add: Let_def cong: option.case_cong)

lemma search_rows_up_last:
  assumes wf: "wf_buffer (ed_buffer ed)" "wf_block (ed_isearch_query ed)"
    "ed_isearch_len ed = length (cstr (ed_isearch_query ed))" "cstr (ed_isearch_query ed) \<noteq> []"
    and mem: "\<forall>l\<in>set (texts (ed_buffer ed)). length l \<le> SIZE_MAX"
    and start: "start_row < line_count (ed_buffer ed)"
  shows "n \<le> Suc start_row \<Longrightarrow> returns (search_rows_up ed start_row start_col n)
    (last_match (cstr (ed_isearch_query ed)) (texts (ed_buffer ed))
       (if n = Suc start_row then Pos start_row start_col else Pos n 0))"
proof (induction n)
  case 0
  then show ?case
    using wf(4) by (auto simp: last_match_def imatch_at_def ends_by_def less_eq_pos_def)
next
  case (Suc i)
  let ?B = "ed_buffer ed" and ?q = "cstr (ed_isearch_query ed)" and ?T = "texts (ed_buffer ed)"
  let ?s = "ltext ?B i"
  define p where "p = (if i = start_row then Pos start_row start_col else Pos (Suc i) 0)"
  define sc where "sc = (if i = start_row then min start_col (length ?s) else start_col)"
  define e where "e = (if i = start_row then sc - length ?q else SIZE_MAX)"
  define m where "m = (if i = start_row \<and> sc < length ?q then None
     else find (imatch ?q ?s) (rev [0..<Suc (min e (length ?s))]))"
  have i: "i < line_count ?B" using Suc.prems start by simp
  have q: "0 < length ?q" using wf(4) by simp
  have len: "length ?s \<le> SIZE_MAX" using mem i by (metis length_texts nth_mem texts_nth)
  have here: "imatch ?q ?s c \<Longrightarrow> ends_by ?q p (Pos i c) \<longleftrightarrow>
      (\<not> (i = start_row \<and> sc < length ?q) \<and> c \<le> min e (length ?s))" for c
    using imatch_le [of ?q ?s c] q len
    by (auto simp: ends_by_def p_def e_def sc_def less_eq_pos_def)
  have ls: "line_search_backward (b_lines ?B ! i) e' (ed_isearch_query ed) (ed_isearch_len ed) =
      Some (find (imatch ?q ?s) (rev [0..<Suc (min e' (length ?s))]))" for e'
    using wf i by (simp add: line_search_backward_eq wf_buffer_line ltext_def del: upt_Suc)
  have rest: "search_rows_up ed start_row sc i = search_rows_up ed start_row start_col i"
    using Suc.prems by (intro search_rows_up_col) simp
  have step: "search_rows_up ed start_row start_col (Suc i) =
      (case m of Some col \<Rightarrow> Some (Some (i, col)) | None \<Rightarrow> search_rows_up ed start_row start_col i)"
    unfolding rest [symmetric]
    using i wf ls by (auto simp: load_line_eq line_length_eq sc_def m_def e_def Let_def min_clip
        simp del: upt_Suc split: option.splits)
  have p: "(if Suc i = Suc start_row then Pos start_row start_col else Pos (Suc i) 0) = p"
    by (simp add: p_def)
  show ?case
  proof (cases m)
    case (Some c)
    then have c: "imatch ?q ?s c" "c \<le> min e (length ?s)" "\<not> (i = start_row \<and> sc < length ?q)"
      "\<forall>j. c < j \<longrightarrow> j \<le> min e (length ?s) \<longrightarrow> \<not> imatch ?q ?s j"
      using find_rev_upt_Some [of "imatch ?q ?s" "Suc (min e (length ?s))" c]
      by (auto simp: m_def less_Suc_eq_le simp del: upt_Suc split: if_splits)
    have "x \<le> Pos i c" if x: "imatch_at ?q ?T x" "ends_by ?q p x" for x
    proof (cases "p_row x = i")
      case True
      with x i have "imatch ?q ?s (p_col x)" "ends_by ?q p (Pos i (p_col x))"
        by (auto simp: imatch_at_def ends_by_def)
      with c(4) here [of "p_col x"] have "p_col x \<le> c" by (meson not_le)
      with True show ?thesis by (simp add: less_eq_pos_def)
    next
      case False
      with x show ?thesis
        using q by (auto simp: less_eq_pos_def ends_by_def p_def split: if_splits)
    qed
    with c i here [of c] Some step show ?thesis
      unfolding p by (auto simp: last_match_def imatch_at_def simp del: search_rows_up.simps)
  next
    case None
    have "imatch ?q ?s c \<Longrightarrow> \<not> ends_by ?q p (Pos i c)" for c
      using None here [of c] unfolding m_def
      by (auto simp: find_None_iff less_Suc_eq_le simp del: upt_Suc split: if_splits)
    then have "last_match ?q ?T (Pos i 0) = last_match ?q ?T p"
      using i q by (intro ext last_match_cong)
        (auto simp: imatch_at_def ends_by_def less_eq_pos_def p_def less_Suc_eq)
    moreover have "(if i = Suc start_row then Pos start_row start_col else Pos i 0) = Pos i 0"
      using Suc.prems by simp
    ultimately show ?thesis using Suc.IH Suc.prems step None unfolding p by (simp del: search_rows_up.simps)
  qed
qed

section \<open>The search state stays well formed\<close>

lemma wf_query:
  assumes "wf_field (query_field ed)"
  shows "wf_block (ed_isearch_query ed)" "length (cstr (ed_isearch_query ed)) = ed_isearch_len ed"
    "length (ed_isearch_query ed) = FIELD_SIZE" "ed_isearch_len ed < FIELD_SIZE"
  using wf_field_block [OF assms] wf_field_len [OF assms] assms
  by (simp_all add: query_field_def wf_field_def)

lemma wf_query_reset:
  "length q = FIELD_SIZE \<Longrightarrow> wf_field \<lparr>fl_buf = q[0 := 0], fl_len = 0, fl_col = 0\<rparr>"
  by (simp add: wf_field_def field_text_def FIELD_SIZE_def)

lemma wf_query_cut:
  assumes "wf_field (query_field ed)" "n \<le> ed_isearch_len ed"
  shows "wf_field \<lparr>fl_buf = (ed_isearch_query ed)[n := 0], fl_len = n, fl_col = 0\<rparr>"
proof -
  have "take n (ed_isearch_query ed) = take n (field_text (query_field ed))"
    using assms(2) by (simp add: field_text_def query_field_def min_def)
  moreover have "0 \<notin> set (field_text (query_field ed))" using assms(1) by (simp add: wf_field_def)
  ultimately have "0 \<notin> set (take n (ed_isearch_query ed))" by (simp add: set_take_sub)
  with assms show ?thesis by (simp add: wf_field_def field_text_def query_field_def)
qed

lemma wf_query_put:
  assumes "wf_field (query_field ed)" "ed_isearch_len ed + 1 < FIELD_SIZE" "key \<noteq> 0"
  shows "wf_field \<lparr>fl_buf = (ed_isearch_query ed)[ed_isearch_len ed := key, ed_isearch_len ed + 1 := 0],
    fl_len = ed_isearch_len ed + 1, fl_col = 0\<rparr>"
proof -
  let ?n = "ed_isearch_len ed"
  have "take (Suc ?n) ((ed_isearch_query ed)[?n := key]) = field_text (query_field ed) @ [key]"
    using assms by (simp add: field_text_def query_field_def wf_field_def take_Suc_conv_app_nth)
  with assms show ?thesis by (auto simp: wf_field_def field_text_def query_field_def)
qed

lemma wf_isearch_query: "wf_isearch ed \<Longrightarrow> wf_field (query_field ed)"
  by (simp add: wf_isearch_def)

lemma isearch_set_status_eq:
  "wf_field (query_field ed) \<Longrightarrow> \<exists>msg. isearch_set_status ed failed = Some (status msg ed)"
  by (simp add: isearch_set_status_def wf_query c_string_eq Let_def) blast

text \<open>The search itself needs nothing but the query: any start row that exists will do.\<close>

lemma search_forward_from_row:
  assumes "wf_buffer (ed_buffer ed)" "wf_field (query_field ed)" "ed_isearch_len ed \<noteq> 0"
  shows "returns (search_forward_from ed row col)
    (first_match (cstr (ed_isearch_query ed)) (texts (ed_buffer ed)) (Pos row col))"
  using search_rows_down_first [of ed row row col] assms wf_query [OF assms(2)]
  unfolding search_forward_from_def by (metis list.size(3) order_refl)

lemma search_backward_from_row:
  assumes "wf_buffer (ed_buffer ed)" "wf_field (query_field ed)" "ed_isearch_len ed \<noteq> 0"
    "row < line_count (ed_buffer ed)" "\<forall>l\<in>set (texts (ed_buffer ed)). length l \<le> SIZE_MAX"
  shows "returns (search_backward_from ed row col)
    (last_match (cstr (ed_isearch_query ed)) (texts (ed_buffer ed)) (Pos row col))"
proof -
  have q: "ed_isearch_len ed = length (cstr (ed_isearch_query ed))" "cstr (ed_isearch_query ed) \<noteq> []"
    "wf_block (ed_isearch_query ed)"
    using assms(3) wf_query [OF assms(2)] by auto
  show ?thesis
    using search_rows_up_last [OF assms(1) q(3,1,2) assms(5,4), of "Suc row" col]
    unfolding search_backward_from_def by (simp del: search_rows_up.simps)
qed

lemma query_nonempty:
  "wf_field (query_field ed) \<Longrightarrow> ed_isearch_len ed \<noteq> 0 \<Longrightarrow> cstr (ed_isearch_query ed) \<noteq> []"
  using wf_query(2) by force

lemma search_rows_up_in_text:
  assumes "wf_buffer (ed_buffer ed)" "wf_field (query_field ed)" "ed_isearch_len ed \<noteq> 0"
  shows "n \<le> line_count (ed_buffer ed) \<Longrightarrow> returns (search_rows_up ed start_row start_col n)
    (\<lambda>r. case r of None \<Rightarrow> True | Some (row, col) \<Rightarrow> in_text (texts (ed_buffer ed)) row col)"
proof (induction n arbitrary: start_col)
  case (Suc i)
  let ?q = "ed_isearch_query ed" and ?s = "ltext (ed_buffer ed) i"
  have i: "i < line_count (ed_buffer ed)" using Suc.prems by simp
  have ls: "line_search_backward (b_lines (ed_buffer ed) ! i) e ?q (ed_isearch_len ed) =
      Some (find (imatch (cstr ?q) ?s) (rev [0..<Suc (min e (length ?s))]))" for e
    using line_search_backward_eq [of "b_lines (ed_buffer ed) ! i" ?q e] wf_query [OF assms(2)]
      query_nonempty [OF assms(2,3)] assms i
    by (simp add: wf_buffer_line ltext_def del: upt_Suc)
  let ?Q = "\<lambda>r. case r of None \<Rightarrow> True | Some (row, col) \<Rightarrow> in_text (texts (ed_buffer ed)) row col"
  have rec: "returns (search_rows_up ed start_row c i) ?Q" for c
    using Suc.IH [of c] Suc.prems by simp
  have fin: "returns (line_search_backward (b_lines (ed_buffer ed) ! i) e ?q (ed_isearch_len ed))
      (\<lambda>m. returns (case m of Some col \<Rightarrow> Some (Some (i, col)) | None \<Rightarrow> search_rows_up ed start_row c i) ?Q)" for e c
  proof (cases "find (imatch (cstr ?q) ?s) (rev [0..<Suc (min e (length ?s))])")
    case None
    then show ?thesis unfolding ls by (simp add: rec)
  next
    case (Some d)
    then have "d \<le> length ?s" using find_rev_upt_Some by fastforce
    then show ?thesis using i unfolding ls Some by (simp add: in_text_def)
  qed
  from i assms(1) rec fin show ?case
    by (cases "start_row = i") (auto simp: load_line_eq line_length_eq Let_def)
qed simp

lemma first_match_in_text:
  "first_match q T p r \<Longrightarrow> case r of None \<Rightarrow> True | Some (row, col) \<Rightarrow> in_text T row col"
  by (auto simp: first_match_def imatch_at_def in_text_def dest: imatch_le split: option.splits)

lemma isearch_start_ok:
  assumes "wf_editor ed" "ed_isearch_active ed"
  shows "returns (isearch_start ed r) (\<lambda>(row, col). row < line_count (ed_buffer ed))"
proof (cases "r \<and> ed_isearch_has_match ed")
  case True
  with assms have g: "good_cursor (ed_buffer ed) (ed_frame ed)"
    by (simp add: wf_editor_def wf_isearch_def)
  with True wf_editorD(1) [OF assms(1)] show ?thesis
    by (simp add: isearch_start_def Let_def load_line_eq line_length_eq next_boundary_line
        prev_boundary_line good_cursor_def)
next
  case False
  with assms show ?thesis by (auto simp: isearch_start_def wf_editor_def wf_isearch_def)
qed

lemma isearch_find_kept:
  assumes wf: "wf_editor ed" and act: "ed_isearch_active ed"
  shows "returns (isearch_find ed r) (\<lambda>(ed', _). kept ed ed')"
proof (cases "ed_isearch_len ed = 0")
  case True
  let ?e = "(set_cursor (ed_isearch_origin_row ed) (ed_isearch_origin_col ed) ed)\<lparr>ed_isearch_has_match := False\<rparr>"
  have "wf_field (query_field ?e)"
    using wf_editorD(8) [OF wf] by (simp add: query_field_def set_cursor_def)
  then obtain msg where "isearch_set_status ?e False = Some (status msg ?e)"
    using isearch_set_status_eq by blast
  moreover have "kept ed ?e"
    using wf act by (auto simp: state_defs set_cursor_def)
  ultimately show ?thesis using True by (simp add: isearch_find_def)
next
  case False
  note q = wf_editorD(1,8) [OF wf] False
  obtain row col where st: "isearch_start ed r = Some (row, col)" "row < line_count (ed_buffer ed)"
    using isearch_start_ok [OF wf act, of r] by (auto elim!: returnsE)
  let ?m = "if ed_isearch_forward ed then search_forward_from ed row col else search_backward_from ed row col"
  have "returns ?m (\<lambda>r. case r of None \<Rightarrow> True | Some (row, col) \<Rightarrow> in_text (texts (ed_buffer ed)) row col)"
    using search_rows_up_in_text [OF q, of "row + 1" row col] st(2)
      returns_mono [OF search_forward_from_row [OF q, of row col] first_match_in_text]
    unfolding search_backward_from_def by (simp del: search_rows_up.simps)
  then obtain f where f: "?m = Some f"
    "case f of None \<Rightarrow> True | Some (row, col) \<Rightarrow> in_text (texts (ed_buffer ed)) row col"
    by (rule returnsE)
  show ?thesis
  proof (cases f)
    case None
    let ?e = "ed\<lparr>ed_isearch_has_match := False\<rparr>"
    have "wf_field (query_field ?e)" using q(2) by (simp add: query_field_def)
    then obtain msg where "isearch_set_status ?e True = Some (status msg ?e)"
      using isearch_set_status_eq by blast
    moreover have "kept ed ?e" using wf by (auto simp: state_defs)
    ultimately show ?thesis using f None False st by (simp add: isearch_find_def)
  next
    case (Some rc)
    obtain r c where rc: "rc = (r, c)" by (cases rc)
    let ?e = "(set_cursor r c ed)\<lparr>ed_isearch_has_match := True\<rparr>"
    have "wf_field (query_field ?e)" using q(2) by (simp add: query_field_def set_cursor_def)
    then obtain msg where "isearch_set_status ?e False = Some (status msg ?e)"
      using isearch_set_status_eq by blast
    moreover have "kept ed ?e"
      using wf f(2) Some rc by (auto simp: state_defs set_cursor_def dest: in_text_row)
    ultimately show ?thesis using f Some rc False st by (simp add: isearch_find_def)
  qed
qed

lemma isearch_begin_kept:
  assumes wf: "wf_editor ed" and "ed_esc_state ed = ESC_NONE" "\<not> fd_active (ed_finder ed)"
  shows "returns (isearch_begin ed forward) (kept ed)"
proof -
  let ?q = "(ed_isearch_query ed)[0 := 0]"
  let ?e = "if ed_isearch_active ed then ed
    else ed\<lparr>ed_isearch_active := True, ed_isearch_len := 0, ed_isearch_query := ?q,
        ed_isearch_origin_row := cur_row ed, ed_isearch_origin_col := cur_col ed,
        ed_isearch_has_match := False\<rparr>"
  let ?f = "?e\<lparr>ed_isearch_forward := forward\<rparr>"
  note q = wf_query [OF wf_editorD(8) [OF wf]]
  have k: "kept ed ?f"
    using assms wf_query_reset [OF q(3)] by (auto simp: state_defs)
  then have "wf_field (query_field ?f)" using wf_editorD(8) kept_wf by blast
  then obtain msg where "isearch_set_status ?f False = Some (status msg ?f)"
    using isearch_set_status_eq by blast
  moreover have "store (ed_isearch_query ed) 0 0 = Some ?q"
    using q(3) by (simp add: store_def FIELD_SIZE_def)
  ultimately show ?thesis using k by (simp add: isearch_begin_def split: if_splits)
qed

lemma isearch_finish_kept:
  assumes wf: "wf_editor ed"
  shows "returns (isearch_finish ed restore) (\<lambda>ed'. kept ed ed' \<and> \<not> ed_isearch_active ed')"
proof (cases "ed_isearch_active ed")
  case True
  note q = wf_query [OF wf_editorD(8) [OF wf]]
  have "store (ed_isearch_query ed) 0 0 = Some ((ed_isearch_query ed)[0 := 0])"
    using q(3) by (simp add: store_def FIELD_SIZE_def)
  with True wf wf_query_reset [OF q(3)] show ?thesis
    by (auto simp: isearch_finish_def Let_def state_defs set_cursor_def)
qed (use wf in \<open>simp add: isearch_finish_def kept_refl\<close>)

lemma kept_query:
  assumes wf: "wf_editor ed" and "ed_isearch_active ed"
    and "wf_field \<lparr>fl_buf = q, fl_len = n, fl_col = 0\<rparr>"
  shows "returns (isearch_find (ed\<lparr>ed_isearch_query := q, ed_isearch_len := n\<rparr>) False) (\<lambda>(ed', _). kept ed ed')"
proof -
  let ?e = "ed\<lparr>ed_isearch_query := q, ed_isearch_len := n\<rparr>"
  have k: "kept ed ?e" using assms by (auto simp: state_defs)
  have "returns (isearch_find ?e False) (\<lambda>(ed', _). kept ?e ed')"
    using kept_wf [OF k] assms(2) by (intro isearch_find_kept) simp_all
  with k show ?thesis by (auto elim!: returns_mono intro: kept_trans)
qed

lemma isearch_backspace_kept:
  assumes wf: "wf_editor ed" and act: "ed_isearch_active ed"
  shows "returns (isearch_backspace ed) (kept ed)"
proof (cases "ed_isearch_len ed = 0")
  case False
  note q = wf_query [OF wf_editorD(8) [OF wf]]
  let ?p = "prev_bnd (cstr (ed_isearch_query ed)) (ed_isearch_len ed)"
  have p: "utf8_prev_boundary (ed_isearch_query ed) (ed_isearch_len ed) = Some ?p"
    "?p \<le> ed_isearch_len ed"
    using q prev_bnd_le [of "cstr (ed_isearch_query ed)" "ed_isearch_len ed"]
    by (simp_all add: utf8_prev_boundary_cstr)
  then have "store (ed_isearch_query ed) ?p 0 = Some ((ed_isearch_query ed)[?p := 0])"
    using q(3,4) by (simp add: store_def)
  with p kept_query [OF wf act wf_query_cut [OF wf_editorD(8) [OF wf] p(2)]] False show ?thesis
    by (auto simp: isearch_backspace_def elim!: returns_mono)
qed (use wf in \<open>simp add: isearch_backspace_def kept_refl\<close>)

lemma isearch_append_kept:
  assumes wf: "wf_editor ed" and act: "ed_isearch_active ed" and "key \<noteq> 0"
  shows "returns (isearch_append ed key) (kept ed)"
proof (cases "ed_isearch_len ed + 1 < FIELD_SIZE")
  case True
  note q = wf_query [OF wf_editorD(8) [OF wf]]
  from True q have "store (ed_isearch_query ed) (ed_isearch_len ed) key =
      Some ((ed_isearch_query ed)[ed_isearch_len ed := key])"
    "store ((ed_isearch_query ed)[ed_isearch_len ed := key]) (ed_isearch_len ed + 1) 0 =
      Some ((ed_isearch_query ed)[ed_isearch_len ed := key, ed_isearch_len ed + 1 := 0])"
    by (simp_all add: store_def)
  with True kept_query [OF wf act wf_query_put [OF wf_editorD(8) [OF wf] True assms(3)]] show ?thesis
    by (auto simp: isearch_append_def elim!: returns_mono)
qed (use wf in \<open>simp add: isearch_append_def kept_refl\<close>)

lemma isearch_repeat_kept:
  assumes wf: "wf_editor ed" and "ed_isearch_active ed"
  shows "returns (isearch_find (ed\<lparr>ed_isearch_forward := forward\<rparr>) r) (\<lambda>(ed', _). kept ed ed')"
proof -
  let ?e = "ed\<lparr>ed_isearch_forward := forward\<rparr>"
  have k: "kept ed ?e" using wf by (auto simp: state_defs)
  have "returns (isearch_find ?e r) (\<lambda>(ed', _). kept ?e ed')"
    using kept_wf [OF k] assms(2) by (intro isearch_find_kept) simp_all
  with k show ?thesis by (auto elim!: returns_mono intro: kept_trans)
qed

lemma isearch_handle_key_kept:
  assumes "wf_editor ed"
  shows "returns (isearch_handle_key ed key)
    (\<lambda>(ed', handled). kept ed ed' \<and> (\<not> handled \<longrightarrow> \<not> ed_isearch_active ed'))"
proof (cases "ed_isearch_active ed")
  case True
  have f: "returns (isearch_finish ed b) (\<lambda>ed'. returns (Some (ed', h))
      (\<lambda>(ed', handled). kept ed ed' \<and> (\<not> handled \<longrightarrow> \<not> ed_isearch_active ed')))" for b h
    by (rule returns_mono [OF isearch_finish_kept [OF assms]]) simp
  have r: "returns (isearch_find (ed\<lparr>ed_isearch_forward := b\<rparr>) True)
      (\<lambda>x. returns (case x of (ed, _) \<Rightarrow> Some (ed, True))
        (\<lambda>(ed', handled). kept ed ed' \<and> (\<not> handled \<longrightarrow> \<not> ed_isearch_active ed')))" for b
    by (rule returns_mono [OF isearch_repeat_kept [OF assms True]]) auto
  have e: "returns (isearch_backspace ed) (\<lambda>ed'. returns (Some (ed', True))
      (\<lambda>(ed', handled). kept ed ed' \<and> (\<not> handled \<longrightarrow> \<not> ed_isearch_active ed')))"
    by (rule returns_mono [OF isearch_backspace_kept [OF assms True]]) simp
  have a: "32 \<le> key \<Longrightarrow> returns (isearch_append ed key) (\<lambda>ed'. returns (Some (ed', True))
      (\<lambda>(ed', handled). kept ed ed' \<and> (\<not> handled \<longrightarrow> \<not> ed_isearch_active ed')))"
    by (rule returns_mono [OF isearch_append_kept [OF assms True]]) auto
  show ?thesis
    unfolding isearch_handle_key_def using True f r e a
    by (auto simp del: returns_Some)
qed (use assms in \<open>simp add: isearch_handle_key_def kept_refl\<close>)

end
