(* ===== verification/Finder.thy ===== *)
theory Finder
  imports Fuzzy Isearch
begin

text \<open>
  The finder's window and keys (\<open>src/finder.c\<close>, from \<open>finder_list_rows\<close> on). The query is a
  \<open>field\<close>; every edit of it that changes something recomputes the matches. \<open>finder_open\<close> scans the
  project with \<open>PATH_MAX\<close> units of fuel, which \<open>scan_project_dir_ok\<close> shows to be enough.
\<close>

section \<open>The window\<close>

definition FINDER_MAX_ROWS :: int where
  "FINDER_MAX_ROWS = 8"

definition finder_list_rows :: "editor \<Rightarrow> nat" where
  "finder_list_rows ed =
     (let rows = ed_screen_rows ed - 4;
          rows = (if rows < 3 then 3 else rows);
          rows = (if rows > FINDER_MAX_ROWS then FINDER_MAX_ROWS else rows)
      in nat rows)"

definition finder_modal_width :: "editor \<Rightarrow> nat" where
  "finder_modal_width ed =
     (let width = ed_screen_cols ed - 6;
          width = (if width > 70 then 70 else width);
          width = (if width < 30 then ed_screen_cols ed - 2 else width);
          width = (if width < 10 then 10 else width)
      in nat width)"

definition with_finder :: "editor \<Rightarrow> finder option \<Rightarrow> editor option" where
  "with_finder ed m = do { fd \<leftarrow> m; Some (ed\<lparr>ed_finder := fd\<rparr>) }"

definition finder_adjust_scroll :: "editor \<Rightarrow> editor" where
  "finder_adjust_scroll ed =
     (let fd = ed_finder ed; rows = finder_list_rows ed
      in if fd_matches fd = [] then ed\<lparr>ed_finder := fd\<lparr>fd_scroll := 0\<rparr>\<rparr>
         else if fd_selection fd < fd_scroll fd
         then ed\<lparr>ed_finder := fd\<lparr>fd_scroll := fd_selection fd\<rparr>\<rparr>
         else if fd_selection fd \<ge> fd_scroll fd + rows
         then ed\<lparr>ed_finder := fd\<lparr>fd_scroll := fd_selection fd - rows + 1\<rparr>\<rparr>
         else ed)"

definition finder_move_selection :: "editor \<Rightarrow> int \<Rightarrow> editor" where
  "finder_move_selection ed delta =
     (let fd = ed_finder ed
      in if \<not> fd_active fd \<or> fd_matches fd = [] then ed
         else
           let sel = fd_selection fd;
               sel = (if delta < 0 then
                        (let step = nat (- delta) in if sel < step then 0 else sel - step)
                      else if delta > 0 then
                        (let step = nat delta; last_index = length (fd_matches fd) - 1
                         in if sel + step > last_index then last_index else sel + step)
                      else sel)
           in finder_adjust_scroll (ed\<lparr>ed_finder := fd\<lparr>fd_selection := sel\<rparr>\<rparr>))"

section \<open>The query\<close>

definition finder_query_update :: "editor \<Rightarrow> field option \<Rightarrow> editor option" where
  "finder_query_update ed m = do {
     query \<leftarrow> m;
     with_finder ed (finder_update_matches ((ed_finder ed)\<lparr>fd_query := query\<rparr>))
   }"

definition finder_query_set :: "editor \<Rightarrow> field option \<Rightarrow> editor option" where
  "finder_query_set ed m = do {
     query \<leftarrow> m;
     Some (ed\<lparr>ed_finder := (ed_finder ed)\<lparr>fd_query := query\<rparr>\<rparr>)
   }"

definition finder_query_move_start :: "editor \<Rightarrow> editor option" where
  "finder_query_move_start ed = finder_query_set ed (Some (field_move_start (fd_query (ed_finder ed))))"

definition finder_query_move_end :: "editor \<Rightarrow> editor option" where
  "finder_query_move_end ed = finder_query_set ed (Some (field_move_end (fd_query (ed_finder ed))))"

definition finder_query_move_prev :: "editor \<Rightarrow> editor option" where
  "finder_query_move_prev ed = finder_query_set ed (field_move_prev_char (fd_query (ed_finder ed)))"

definition finder_query_move_next :: "editor \<Rightarrow> editor option" where
  "finder_query_move_next ed = finder_query_set ed (field_move_next_char (fd_query (ed_finder ed)))"

definition finder_query_delete_range :: "editor \<Rightarrow> nat \<Rightarrow> nat \<Rightarrow> editor option" where
  "finder_query_delete_range ed start end =
     (let query = fd_query (ed_finder ed)
      in if end \<le> start \<or> end > fl_len query then Some ed
         else finder_query_update ed (field_delete_range query start end))"

definition finder_query_backspace :: "editor \<Rightarrow> editor option" where
  "finder_query_backspace ed =
     (let query = fd_query (ed_finder ed)
      in if fl_col query = 0 then Some ed
         else do {
           start \<leftarrow> utf8_prev_boundary (fl_buf query) (fl_col query);
           finder_query_delete_range ed start (fl_col query)
         })"

definition finder_query_delete_forward :: "editor \<Rightarrow> editor option" where
  "finder_query_delete_forward ed =
     (let query = fd_query (ed_finder ed)
      in if fl_col query \<ge> fl_len query then Some ed
         else do {
           end \<leftarrow> utf8_next_boundary (fl_buf query) (fl_len query) (fl_col query);
           finder_query_delete_range ed (fl_col query) end
         })"

definition finder_not_word_char :: "byte \<Rightarrow> bool" where
  "finder_not_word_char ch \<longleftrightarrow> \<not> finder_is_word_char ch"

definition finder_query_delete_prev_word :: "editor \<Rightarrow> editor option" where
  "finder_query_delete_prev_word ed =
     (let query = fd_query (ed_finder ed)
      in if fl_col query = 0 then Some ed
         else do {
           col \<leftarrow> skip_backward not_space (fl_buf query) (fl_col query);
           col \<leftarrow> skip_backward finder_not_word_char (fl_buf query) col;
           finder_query_delete_range ed col (fl_col query)
         })"

definition finder_query_kill_to_end :: "editor \<Rightarrow> editor option" where
  "finder_query_kill_to_end ed =
     (let query = fd_query (ed_finder ed)
      in finder_query_delete_range ed (fl_col query) (fl_len query))"

definition finder_query_insert :: "editor \<Rightarrow> byte \<Rightarrow> editor option" where
  "finder_query_insert ed key =
     (let query = fd_query (ed_finder ed)
      in if fl_len query + 1 \<ge> FIELD_SIZE then Some ed
         else finder_query_update ed (field_insert query key))"

section \<open>Opening and closing\<close>

definition finder_open_file :: "os \<Rightarrow> editor \<Rightarrow> editor option" where
  "finder_open_file os ed =
     (let fd = ed_finder ed
      in if fd_matches fd = [] then Some ed
         else do {
           index \<leftarrow> load (fd_matches fd) (fd_selection fd);
           if index \<ge> length (fd_files fd) then Some ed
           else do {
             root \<leftarrow> fd_project_root fd;
             let full_path = path_join root (fd_files fd ! index);
             if \<not> os_readable os full_path
             then Some (status (bytes_of ''Open failed: '' @ os_strerror os) ed)
             else do {
               buf \<leftarrow> buffer_load_file (ed_buffer ed) full_path (os_read os full_path);
               let buf = buffer_init_syntax (os_ts os) buf (b_file_path buf);
               Some (status (bytes_of ''Opened '' @ fd_files fd ! index)
                 ((set_cursor 0 0 ed)\<lparr>ed_buffer := buf, ed_dirty := False,
                    ed_row_offset := 0, ed_col_offset := 0\<rparr>))
             }
           }
         })"

definition finder_load_project :: "os \<Rightarrow> finder \<Rightarrow> byte list \<Rightarrow> finder option" where
  "finder_load_project os fd root = do {
     (fd, l) \<leftarrow> scan_project_dir PATH_MAX os root [] ignore_list_init (finder_files_clear fd);
     Some fd
   }"

definition finder_open :: "os \<Rightarrow> editor \<Rightarrow> (editor \<times> bool) option" where
  "finder_open os ed = do {
     root \<leftarrow> project_root_for_editor os ed;
     case root of
       None \<Rightarrow> Some (say ''No project root'' ed, False)
     | Some root \<Rightarrow> do {
         let fd = ed_finder ed;
         fd \<leftarrow> (if fd_project_root fd \<noteq> Some root
                then finder_load_project os (fd\<lparr>fd_project_root := Some root\<rparr>) root
                else if fd_files fd = [] then finder_load_project os fd root
                else Some fd);
         query \<leftarrow> field_reset (fd_query fd);
         fd \<leftarrow> finder_update_matches (fd\<lparr>fd_active := True, fd_query := query\<rparr>);
         Some (ed\<lparr>ed_finder := fd\<rparr>, True)
       }
   }"

definition finder_close :: "editor \<Rightarrow> editor" where
  "finder_close ed = ed\<lparr>ed_finder := (ed_finder ed)\<lparr>fd_active := False\<rparr>\<rparr>"

text \<open>\<open>finder_reset\<close> leaves the selection and the scroll position as they are.\<close>

definition finder_reset :: "editor \<Rightarrow> editor option" where
  "finder_reset ed = do {
     query \<leftarrow> field_reset (fd_query (ed_finder ed));
     Some (ed\<lparr>ed_finder := (finder_files_clear (ed_finder ed))
       \<lparr>fd_active := False, fd_query := query, fd_project_root := None, fd_matches := [],
        fd_match_cap := 0, fd_scored_cap := 0\<rparr>\<rparr>)
   }"

definition finder_handle_key :: "os \<Rightarrow> editor \<Rightarrow> byte \<Rightarrow> editor option" where
  "finder_handle_key os ed key =
     (if \<not> fd_active (ed_finder ed) then Some ed
      else if key = ctrl_key 103 then Some (finder_close ed)
      else if key = 13 then do { ed \<leftarrow> finder_open_file os ed; Some (finder_close ed) }
      else if key = KEY_BACKSPACE then finder_query_backspace ed
      else if key = ctrl_key 104 then finder_query_backspace ed
      else if key = ctrl_key 112 then Some (finder_move_selection ed (-1))
      else if key = ctrl_key 110 then Some (finder_move_selection ed 1)
      else if key = ctrl_key 97 then finder_query_move_start ed
      else if key = ctrl_key 101 then finder_query_move_end ed
      else if key = ctrl_key 98 then finder_query_move_prev ed
      else if key = ctrl_key 102 then finder_query_move_next ed
      else if key = ctrl_key 100 then finder_query_delete_forward ed
      else if key = ctrl_key 119 then finder_query_delete_prev_word ed
      else if key = ctrl_key 107 then finder_query_kill_to_end ed
      else if key \<ge> 32 \<and> key \<noteq> KEY_BACKSPACE \<and> key \<noteq> ctrl_key 104
      then finder_query_insert ed key
      else Some ed)"

section \<open>The invariant\<close>

lemma finder_list_rows_bounds: "3 \<le> finder_list_rows ed \<and> finder_list_rows ed \<le> 8"
  by (auto simp: finder_list_rows_def FINDER_MAX_ROWS_def Let_def)

text \<open>A new finder record in a state that keeps the invariant.\<close>

lemma kept_finder:
  assumes "wf_editor ed" "wf_finder fd"
    "fd_active fd \<Longrightarrow> ed_esc_state ed = ESC_NONE \<and> \<not> ed_isearch_active ed"
  shows "kept ed (ed\<lparr>ed_finder := fd\<rparr>)"
  using assms by (auto simp: state_defs)

lemma wf_editor_active:
  "wf_editor ed \<Longrightarrow> fd_active (ed_finder ed) \<Longrightarrow> ed_esc_state ed = ESC_NONE \<and> \<not> ed_isearch_active ed"
  by (auto simp: wf_editor_def)

lemma adjust_scroll_eq:
  "\<exists>s. finder_adjust_scroll ed = ed\<lparr>ed_finder := (ed_finder ed)\<lparr>fd_scroll := s\<rparr>\<rparr> \<and>
     (fd_matches (ed_finder ed) \<noteq> [] \<longrightarrow>
        s \<le> fd_selection (ed_finder ed) \<and> fd_selection (ed_finder ed) < s + finder_list_rows ed \<and>
        (\<forall>x. x \<le> fd_selection (ed_finder ed) \<longrightarrow> fd_selection (ed_finder ed) < x + finder_list_rows ed \<longrightarrow>
           \<bar>int s - int (fd_scroll (ed_finder ed))\<bar> \<le> \<bar>int x - int (fd_scroll (ed_finder ed))\<bar>))"
proof -
  let ?fd = "ed_finder ed"
  define s where "s = (if fd_matches ?fd = [] then 0 else if fd_selection ?fd < fd_scroll ?fd then fd_selection ?fd
    else if fd_selection ?fd \<ge> fd_scroll ?fd + finder_list_rows ed then fd_selection ?fd - finder_list_rows ed + 1
    else fd_scroll ?fd)"
  have "finder_adjust_scroll ed = ed\<lparr>ed_finder := ?fd\<lparr>fd_scroll := s\<rparr>\<rparr>"
    by (simp add: finder_adjust_scroll_def Let_def s_def)
  moreover have "fd_matches ?fd \<noteq> [] \<longrightarrow> s \<le> fd_selection ?fd \<and> fd_selection ?fd < s + finder_list_rows ed \<and>
      (\<forall>x. x \<le> fd_selection ?fd \<longrightarrow> fd_selection ?fd < x + finder_list_rows ed \<longrightarrow>
         \<bar>int s - int (fd_scroll ?fd)\<bar> \<le> \<bar>int x - int (fd_scroll ?fd)\<bar>)"
    using finder_list_rows_bounds [of ed] by (auto simp: s_def)
  ultimately show ?thesis by blast
qed

lemma finder_move_selection_kept:
  assumes "wf_editor ed"
  shows "kept ed (finder_move_selection ed delta)"
proof (cases "fd_active (ed_finder ed) \<and> fd_matches (ed_finder ed) \<noteq> []")
  case True
  let ?fd = "ed_finder ed"
  define sel where "sel = (if delta < 0 then (if fd_selection ?fd < nat (- delta) then 0 else fd_selection ?fd - nat (- delta))
     else if delta > 0 then
       (if fd_selection ?fd + nat delta > length (fd_matches ?fd) - 1 then length (fd_matches ?fd) - 1
        else fd_selection ?fd + nat delta)
     else fd_selection ?fd)"
  have wf: "wf_finder ?fd" using assms by (rule wf_editorD)
  have s: "sel < length (fd_matches ?fd)"
  proof -
    have "fd_selection ?fd < length (fd_matches ?fd)" using wf True by (simp add: wf_finder_def)
    then show ?thesis by (auto simp: sel_def)
  qed
  obtain s' where "finder_adjust_scroll (ed\<lparr>ed_finder := ?fd\<lparr>fd_selection := sel\<rparr>\<rparr>) =
      ed\<lparr>ed_finder := ?fd\<lparr>fd_selection := sel, fd_scroll := s'\<rparr>\<rparr>"
    using adjust_scroll_eq [of "ed\<lparr>ed_finder := ?fd\<lparr>fd_selection := sel\<rparr>\<rparr>"] by auto
  moreover have "finder_move_selection ed delta = finder_adjust_scroll (ed\<lparr>ed_finder := ?fd\<lparr>fd_selection := sel\<rparr>\<rparr>)"
    using True by (simp add: finder_move_selection_def sel_def Let_def)
  ultimately show ?thesis
    using assms wf s wf_editor_active [OF assms] by (auto simp: wf_finder_def intro!: kept_finder)
qed (use assms in \<open>auto simp: finder_move_selection_def Let_def kept_refl\<close>)

lemma finder_update_wf:
  assumes "wf_field (fd_query fd)" "length (fd_files fd) \<le> fd_file_cap fd"
    "fd_active fd \<longrightarrow> fd_project_root fd \<noteq> None"
  shows "returns (finder_update_matches fd) (\<lambda>fd'. wf_finder fd' \<and> fd_active fd' = fd_active fd \<and>
    fd_query fd' = fd_query fd \<and> fd_files fd' = fd_files fd \<and>
    ranked (field_text (fd_query fd)) (fd_files fd) (fd_matches fd'))"
proof (rule returns_mono [OF finder_update_matches_ok [OF assms(1)]])
  fix fd'
  assume a: "ranked (field_text (fd_query fd)) (fd_files fd) (fd_matches fd') \<and>
    (\<exists>m mc sc. fd' = fd\<lparr>fd_matches := m, fd_match_cap := mc, fd_scored_cap := sc,
                        fd_selection := 0, fd_scroll := 0\<rparr> \<and>
       fd_match_cap fd \<le> mc \<and> length m \<le> mc)"
  then obtain m mc sc where m: "fd' = fd\<lparr>fd_matches := m, fd_match_cap := mc, fd_scored_cap := sc,
      fd_selection := 0, fd_scroll := 0\<rparr>" "length m \<le> mc" by blast
  from a have r: "ranked (field_text (fd_query fd)) (fd_files fd) (fd_matches fd')" ..
  then have "\<forall>i\<in>set m. i < length (fd_files fd)" unfolding ranked_def m(1) by simp
  then have "wf_finder fd'" using assms m(2) unfolding m(1) by (simp add: wf_finder_def)
  with r m(1) show "wf_finder fd' \<and> fd_active fd' = fd_active fd \<and> fd_query fd' = fd_query fd \<and>
    fd_files fd' = fd_files fd \<and> ranked (field_text (fd_query fd)) (fd_files fd) (fd_matches fd')"
    by simp
qed

lemma finder_query_update_kept:
  assumes wf: "wf_editor ed" and "returns m wf_field"
  shows "returns (finder_query_update ed m) (kept ed)"
proof -
  let ?fd = "ed_finder ed"
  obtain q where q: "m = Some q" "wf_field q" using assms(2) by (rule returnsE)
  have wff: "wf_finder ?fd" using wf by (rule wf_editorD)
  let ?g = "?fd\<lparr>fd_query := q\<rparr>"
  have h: "wf_field (fd_query ?g)" "length (fd_files ?g) \<le> fd_file_cap ?g"
    "fd_active ?g \<longrightarrow> fd_project_root ?g \<noteq> None"
    using wff q(2) by (simp_all add: wf_finder_def)
  from finder_update_wf [OF h] obtain fd' where fd': "finder_update_matches ?g = Some fd'" "wf_finder fd'"
    "fd_active fd' = fd_active ?fd" by (elim returnsE) simp
  have "kept ed (ed\<lparr>ed_finder := fd'\<rparr>)"
    using fd' wf_editor_active [OF wf] by (intro kept_finder [OF wf]) simp_all
  with q fd' show ?thesis by (simp add: finder_query_update_def with_finder_def)
qed

lemma finder_query_set_kept:
  assumes wf: "wf_editor ed" and "returns m wf_field"
  shows "returns (finder_query_set ed m) (kept ed)"
proof -
  obtain q where q: "m = Some q" "wf_field q" using assms(2) by (rule returnsE)
  have "wf_finder (ed_finder ed)" using wf by (rule wf_editorD)
  then have "kept ed (ed\<lparr>ed_finder := (ed_finder ed)\<lparr>fd_query := q\<rparr>\<rparr>)"
    using q wf_editor_active [OF wf] by (intro kept_finder [OF wf]) (simp_all add: wf_finder_def)
  with q show ?thesis by (simp add: finder_query_set_def)
qed

lemma finder_moves_kept:
  assumes wf: "wf_editor ed"
  shows "returns (finder_query_move_start ed) (kept ed)" "returns (finder_query_move_end ed) (kept ed)"
    "returns (finder_query_move_prev ed) (kept ed)" "returns (finder_query_move_next ed) (kept ed)"
  using field_moves_ok [OF wf_editorD(9) [OF wf]]
  by (simp_all add: finder_query_move_start_def finder_query_move_end_def finder_query_move_prev_def
      finder_query_move_next_def finder_query_set_kept [OF wf])

lemma finder_delete_range_kept:
  assumes wf: "wf_editor ed"
  shows "returns (finder_query_delete_range ed i j) (kept ed)"
  using field_edits_ok(1) [OF wf_editorD(9) [OF wf], of i j]
  by (simp add: finder_query_delete_range_def Let_def kept_refl [OF wf] finder_query_update_kept [OF wf])

lemma finder_edits_kept:
  assumes wf: "wf_editor ed"
  shows "returns (finder_query_backspace ed) (kept ed)" "returns (finder_query_delete_forward ed) (kept ed)"
    "returns (finder_query_delete_prev_word ed) (kept ed)" "returns (finder_query_kill_to_end ed) (kept ed)"
    "32 \<le> key \<Longrightarrow> returns (finder_query_insert ed key) (kept ed)"
proof -
  let ?q = "fd_query (ed_finder ed)"
  note q = wf_editorD(9) [OF wf] and d = finder_delete_range_kept [OF wf]
  show "returns (finder_query_backspace ed) (kept ed)" "returns (finder_query_delete_forward ed) (kept ed)"
    using q d kept_refl [OF wf]
    by (simp_all add: finder_query_backspace_def finder_query_delete_forward_def Let_def
        field_prev_boundary field_next_boundary)
  show "returns (finder_query_delete_prev_word ed) (kept ed)"
  proof -
    have "fl_col ?q \<le> fl_len ?q" using q by (simp add: wf_field_def)
    then obtain c where c: "skip_backward not_space (fl_buf ?q) (fl_col ?q) = Some c" "c \<le> fl_len ?q"
      using field_skip_backward [OF q, of "fl_col ?q" not_space] by (auto elim!: returnsE)
    obtain e where "skip_backward finder_not_word_char (fl_buf ?q) c = Some e"
      using field_skip_backward [OF q c(2), of finder_not_word_char] by (auto elim!: returnsE)
    with c d kept_refl [OF wf] show ?thesis
      by (simp add: finder_query_delete_prev_word_def Let_def)
  qed
  show "returns (finder_query_kill_to_end ed) (kept ed)"
    using d by (simp add: finder_query_kill_to_end_def Let_def)
  show "returns (finder_query_insert ed key) (kept ed)" if "32 \<le> key"
  proof -
    have "key \<noteq> 0" using that by auto
    with field_edits_ok(7) [OF q this] show ?thesis
      by (simp add: finder_query_insert_def Let_def kept_refl [OF wf] finder_query_update_kept [OF wf])
  qed
qed

text \<open>A byte typed into the query goes to its cursor, and the matches are those of the new query.\<close>

lemma finder_query_insert_ok:
  assumes wf: "wf_editor ed" and key: "key \<noteq> 0"
  shows "returns (finder_query_insert ed key) (\<lambda>e. typed_into (fd_query (ed_finder ed)) key (fd_query (ed_finder e)) \<and>
    (if fl_len (fd_query (ed_finder ed)) < 255
     then ranked (field_text (fd_query (ed_finder e))) (fd_files (ed_finder ed)) (fd_matches (ed_finder e))
     else e = ed))"
proof (cases "fl_len (fd_query (ed_finder ed)) < 255")
  case True
  let ?fd = "ed_finder ed"
  have wff: "wf_finder ?fd" using wf by (rule wf_editorD)
  obtain q where q: "field_insert (fd_query ?fd) key = Some q" "typed_into (fd_query ?fd) key q"
    using field_insert_eq [OF wf_editorD(9) [OF wf] key] by (auto simp: typed_into_def elim: returnsE)
  let ?g = "?fd\<lparr>fd_query := q\<rparr>"
  have "wf_field (fd_query ?g)" "length (fd_files ?g) \<le> fd_file_cap ?g"
    "fd_active ?g \<longrightarrow> fd_project_root ?g \<noteq> None"
    using wff q(2) by (simp_all add: wf_finder_def typed_into_def)
  from finder_update_wf [OF this] obtain fd' where "finder_update_matches ?g = Some fd'"
    "fd_query fd' = q" "ranked (field_text q) (fd_files ?fd) (fd_matches fd')"
    by (elim returnsE) simp
  with True q show ?thesis
    by (simp add: finder_query_insert_def finder_query_update_def with_finder_def FIELD_SIZE_def)
next
  case False
  then show ?thesis
    using wf_editorD(9) [OF wf] by (simp add: finder_query_insert_def FIELD_SIZE_def typed_into_def)
qed

lemma buffer_load_file_wf:
  assumes "wf_buffer buf"
  shows "returns (buffer_load_file buf path content) wf_buffer"
proof (cases content)
  case (Some bytes)
  then show ?thesis using buffer_load_file_eq [of buf path bytes] by (auto elim: returns_mono)
qed (use assms in \<open>simp add: buffer_load_file_def\<close>)

lemma finder_open_file_kept:
  assumes wf: "wf_editor ed" and act: "fd_active (ed_finder ed)"
  shows "returns (finder_open_file os ed) (kept ed)"
proof (cases "fd_matches (ed_finder ed) = []")
  case False
  let ?fd = "ed_finder ed"
  let ?i = "fd_matches ?fd ! fd_selection ?fd"
  have wff: "wf_finder ?fd" using wf by (rule wf_editorD)
  with False have sel: "load (fd_matches ?fd) (fd_selection ?fd) = Some ?i" "?i < length (fd_files ?fd)"
    by (simp_all add: wf_finder_def load_def)
  obtain root where root: "fd_project_root ?fd = Some root" using wff act by (auto simp: wf_finder_def)
  let ?path = "path_join root (fd_files ?fd ! ?i)"
  obtain b where b: "buffer_load_file (ed_buffer ed) ?path (os_read os ?path) = Some b" "wf_buffer b"
    using buffer_load_file_wf [OF wf_editorD(1) [OF wf]] by (auto elim!: returnsE)
  let ?b = "buffer_init_syntax (os_ts os) b (b_file_path b)"
  let ?e = "(set_cursor 0 0 ed)\<lparr>ed_buffer := ?b, ed_dirty := False, ed_row_offset := 0, ed_col_offset := 0\<rparr>"
  have "0 < line_count ?b" using b(2) wf_buffer_count by simp
  then have k: "kept ed ?e"
    using wf b(2) wf_editor_active [OF wf act] by (auto simp: state_defs set_cursor_def in_text_def)
  then show ?thesis
    using False sel root b kept_refl [OF wf] by (simp add: finder_open_file_def Let_def)
qed (use kept_refl [OF wf] in \<open>simp add: finder_open_file_def\<close>)

lemma finder_close_kept: "wf_editor ed \<Longrightarrow> kept ed (finder_close ed)"
  unfolding finder_close_def by (rule kept_finder) (auto simp: wf_editor_def wf_finder_def)

lemma finder_load_project_ok:
  assumes "posix_paths os"
  shows "returns (finder_load_project os fd root) (\<lambda>fd'.
    set (fd_files fd') = {f. visible os root [] [] f} \<and> length (fd_files fd') \<le> fd_file_cap fd' \<and>
    (\<exists>files cap. fd' = fd\<lparr>fd_files := files, fd_file_cap := cap\<rparr>))"
proof -
  have c: "file_growing.fits_cap (finder_files_clear fd)"
    by (simp add: file_growing.fits_cap_def finder_files_clear_def)
  have "returns (scan_project_dir PATH_MAX os root [] ignore_list_init (finder_files_clear fd))
      (\<lambda>(fd', l'). il_rules l' = il_rules ignore_list_init \<and>
        listed (finder_files_clear fd) {f. visible os root [] (il_rules ignore_list_init) f} fd')"
    by (rule scan_project_dir_ok [OF assms]) (simp_all add: PATH_MAX_def)
  then show ?thesis
    unfolding finder_load_project_def
    using c by (auto simp: listed_def file_growing.fits_cap_def finder_files_clear_def ignore_list_init_def
        elim!: returns_mono, blast)
qed

lemma project_root_returns: "\<exists>r. project_root_for_editor os ed = Some r"
  by (auto simp: project_root_for_editor_def path_dirname_def Let_def split: option.split list.split)

text \<open>The project of an opened finder, and its matches: every visible file, ranked for the empty query.\<close>

lemma finder_open_ok:
  assumes posix: "posix_paths os" and wf: "wf_editor ed"
    and esc: "ed_esc_state ed = ESC_NONE" "\<not> ed_isearch_active ed"
  shows "returns (finder_open os ed) (\<lambda>(ed', ok). kept ed ed' \<and>
    (ok \<longrightarrow> fd_active (ed_finder ed') \<and> field_text (fd_query (ed_finder ed')) = [] \<and>
       ranked [] (fd_files (ed_finder ed')) (fd_matches (ed_finder ed')) \<and>
       (fd_project_root (ed_finder ed) \<noteq> fd_project_root (ed_finder ed') \<longrightarrow>
          (\<exists>root. fd_project_root (ed_finder ed') = Some root \<and>
             set (fd_files (ed_finder ed')) = {f. visible os root [] [] f}))))"
proof -
  let ?fd = "ed_finder ed"
  obtain r where r: "project_root_for_editor os ed = Some r" using project_root_returns by blast
  show ?thesis
  proof (cases r)
    case None
    with r show ?thesis by (simp add: finder_open_def kept_refl [OF wf])
  next
    case (Some root)
    have wff: "wf_finder ?fd" using wf by (rule wf_editorD)
    let ?m = "if fd_project_root ?fd \<noteq> Some root
                then finder_load_project os (?fd\<lparr>fd_project_root := Some root\<rparr>) root
                else if fd_files ?fd = [] then finder_load_project os ?fd root
                else Some ?fd"
    obtain fd1 where fd1: "?m = Some fd1" "length (fd_files fd1) \<le> fd_file_cap fd1"
      "fd_project_root fd1 = Some root" "fd_query fd1 = fd_query ?fd"
      "fd_project_root ?fd \<noteq> Some root \<longrightarrow> set (fd_files fd1) = {f. visible os root [] [] f}"
    proof (cases "fd_project_root ?fd = Some root")
      case True
      show thesis
      proof (cases "fd_files ?fd = []")
        case empty: True
        obtain fd' where fd': "finder_load_project os ?fd root = Some fd'"
            "length (fd_files fd') \<le> fd_file_cap fd'" "\<exists>files cap. fd' = ?fd\<lparr>fd_files := files, fd_file_cap := cap\<rparr>"
          using finder_load_project_ok [OF posix, of ?fd root] by (elim returnsE) simp
        from fd'(3) have "fd_project_root fd' = fd_project_root ?fd" "fd_query fd' = fd_query ?fd" by auto
        with that [of fd'] fd' True empty show thesis by simp
      next
        case False
        with that [of ?fd] True wff show thesis by (simp add: wf_finder_def)
      qed
    next
      case False
      let ?g = "?fd\<lparr>fd_project_root := Some root\<rparr>"
      obtain fd' where fd': "finder_load_project os ?g root = Some fd'" "set (fd_files fd') = {f. visible os root [] [] f}"
          "length (fd_files fd') \<le> fd_file_cap fd'" "\<exists>files cap. fd' = ?g\<lparr>fd_files := files, fd_file_cap := cap\<rparr>"
        using finder_load_project_ok [OF posix, of ?g root] by (elim returnsE) simp
      from fd'(4) have "fd_project_root fd' = Some root" "fd_query fd' = fd_query ?fd" by auto
      with that [of fd'] fd' False show thesis by simp
    qed
    obtain q where q: "field_reset (fd_query fd1) = Some q" "wf_field q" "field_text q = []"
      using field_reset_ok [of "fd_query ?fd"] wff fd1(4)
      by (auto simp: wf_finder_def wf_field_def elim!: returnsE)
    let ?h = "fd1\<lparr>fd_active := True, fd_query := q\<rparr>"
    have h: "wf_field (fd_query ?h)" "length (fd_files ?h) \<le> fd_file_cap ?h"
      "fd_active ?h \<longrightarrow> fd_project_root ?h \<noteq> None" using q fd1 by simp_all
    obtain fd2 where fd2: "finder_update_matches ?h = Some fd2" "wf_finder fd2" "fd_active fd2"
      "fd_query fd2 = q" "fd_files fd2 = fd_files fd1" "ranked [] (fd_files fd1) (fd_matches fd2)"
      using finder_update_wf [OF h] q(3) by (elim returnsE) simp
    have root2: "fd_project_root fd2 = Some root"
      using finder_update_matches_ok [OF h(1)] fd2(1) fd1(3) by auto
    have k: "kept ed (ed\<lparr>ed_finder := fd2\<rparr>)"
      using esc fd2(2) by (intro kept_finder [OF wf]) simp_all
    have "finder_open os ed = Some (ed\<lparr>ed_finder := fd2\<rparr>, True)"
      using r Some fd1(1) q(1) fd2(1) by (simp add: finder_open_def Let_def)
    with k fd2 fd1(5) root2 q(3) show ?thesis by simp
  qed
qed

lemma finder_open_kept:
  "posix_paths os \<Longrightarrow> wf_editor ed \<Longrightarrow> ed_esc_state ed = ESC_NONE \<Longrightarrow> \<not> ed_isearch_active ed \<Longrightarrow>
   returns (finder_open os ed) (\<lambda>(ed', ok). kept ed ed')"
  by (rule returns_mono [OF finder_open_ok]) auto

lemma finder_handle_key_kept:
  assumes wf: "wf_editor ed"
  shows "returns (finder_handle_key os ed key) (kept ed)"
proof (cases "fd_active (ed_finder ed)")
  case True
  have o: "returns (finder_open_file os ed) (\<lambda>ed'. kept ed (finder_close ed'))"
    by (rule returns_mono [OF finder_open_file_kept [OF wf True]])
       (blast intro: kept_trans finder_close_kept kept_wf)
  show ?thesis
    unfolding finder_handle_key_def
    using True o finder_moves_kept [OF wf] finder_edits_kept [OF wf] finder_close_kept [OF wf]
      finder_move_selection_kept [OF wf] kept_refl [OF wf]
    by simp
qed (use kept_refl [OF wf] in \<open>simp add: finder_handle_key_def\<close>)

end
