(* ===== verification/Util.thy ===== *)
theory Util
  imports Prelude
begin

text \<open>
  \<open>src/util.c\<close>: the base64 encoder of the clipboard escape sequence. The C code fills an
  array it allocated for the whole result; so does the model, with checked stores, and the main
  lemma says that the array is filled exactly and holds the standard encoding.
  \<open>die\<close> (print and exit) is not modelled: allocation succeeds in the model.
\<close>

section \<open>The encoder\<close>

definition b64_table :: "byte list" where
  "b64_table =
     bytes_of ''ABCDEFGHIJKLMNOPQRSTUVWXYZabcdefghijklmnopqrstuvwxyz0123456789+/''"

definition b64_triple :: "byte \<Rightarrow> byte \<Rightarrow> byte \<Rightarrow> 32 word" where
  "b64_triple a b c = push_bit 16 (ucast a) OR push_bit 8 (ucast b) OR ucast c"

definition b64_digit :: "32 word \<Rightarrow> nat \<Rightarrow> byte" where
  "b64_digit triple n = b64_table ! unat (drop_bit n triple AND 0x3f)"

definition b64_eq :: byte where
  "b64_eq = 61"

function base64_loop :: "block \<Rightarrow> nat \<Rightarrow> nat \<Rightarrow> block \<Rightarrow> nat \<Rightarrow> (block \<times> nat) option" where
  "base64_loop data len i out oi =
     (if i < len then do {
        a \<leftarrow> load data i;
        b \<leftarrow> (if i + 1 < len then load data (i + 1) else Some 0);
        c \<leftarrow> (if i + 2 < len then load data (i + 2) else Some 0);
        let triple = b64_triple a b c;
        out \<leftarrow> store out oi (b64_digit triple 18);
        out \<leftarrow> store out (oi + 1) (b64_digit triple 12);
        out \<leftarrow> store out (oi + 2) (if i + 1 < len then b64_digit triple 6 else b64_eq);
        out \<leftarrow> store out (oi + 3) (if i + 2 < len then b64_digit triple 0 else b64_eq);
        base64_loop data len (i + 3) out (oi + 4)
      } else Some (out, oi))"
  by pat_completeness auto
termination
  by (relation "measure (\<lambda>(data, len, i, out, oi). len - i)") auto

declare base64_loop.simps [simp del]

definition base64_encode :: "block \<Rightarrow> nat \<Rightarrow> block option" where
  "base64_encode data len = do {
     let out_len = ((len + 2) div 3) * 4;
     (out, oi) \<leftarrow> base64_loop data len 0 (replicate (out_len + 1) 0) 0;
     store out oi 0
   }"

section \<open>The encoding it computes\<close>

fun b64_text :: "byte list \<Rightarrow> byte list" where
  "b64_text [] = []"
| "b64_text [a] =
     [b64_digit (b64_triple a 0 0) 18, b64_digit (b64_triple a 0 0) 12, b64_eq, b64_eq]"
| "b64_text [a, b] =
     [b64_digit (b64_triple a b 0) 18, b64_digit (b64_triple a b 0) 12,
      b64_digit (b64_triple a b 0) 6, b64_eq]"
| "b64_text (a # b # c # rest) =
     [b64_digit (b64_triple a b c) 18, b64_digit (b64_triple a b c) 12,
      b64_digit (b64_triple a b c) 6, b64_digit (b64_triple a b c) 0] @ b64_text rest"

lemma length_b64_text: "length (b64_text s) = ((length s + 2) div 3) * 4"
proof (induction s rule: b64_text.induct)
  case (4 a b c rest)
  have "(length (a # b # c # rest) + 2) div 3 = Suc ((length rest + 2) div 3)" by simp
  with 4 show ?case by simp
qed auto

text \<open>Four stores in a row overwrite four neighbouring bytes.\<close>

lemma store4:
  "do { out \<leftarrow> store (o1 @ p # q # r # s # o2) (length o1) w;
        out \<leftarrow> store out (Suc (length o1)) x; out \<leftarrow> store out (Suc (Suc (length o1))) y;
        out \<leftarrow> store out (length o1 + 3) z; f out } =
   f (o1 @ w # x # y # z # o2)"
  by (simp add: store_eq list_update_append nth_Cons numeral_3_eq_3)

lemma length_ge4:
  assumes "length xs = Suc (Suc (Suc (Suc n)))"
  obtains p q r t ys where "xs = p # q # r # t # ys" and "length ys = n"
  using assms by (auto simp: length_Suc_conv)

lemma base64_loop_done: "len \<le> i \<Longrightarrow> base64_loop data len i out oi = Some (out, oi)"
  by (simp add: base64_loop.simps)

lemma base64_loop_text:
  "data = pre @ s @ post \<Longrightarrow> i = length pre \<Longrightarrow> len = length pre + length s \<Longrightarrow>
   oi = length o1 \<Longrightarrow> length o2 = length (b64_text s) + length o3 \<Longrightarrow>
   drop (length (b64_text s)) o2 = o3 \<Longrightarrow>
   base64_loop data len i (o1 @ o2) oi = Some (o1 @ b64_text s @ o3, oi + length (b64_text s))"
proof (induction s arbitrary: pre i oi o1 o2 rule: b64_text.induct)
  case 1
  then show ?case by (simp add: base64_loop.simps)
next
  case (2 a)
  then obtain p q r t where o2: "o2 = p # q # r # t # o3"
    by (auto simp: length_Suc_conv)
  have l: "load data i = Some a" using "2.prems" by (simp add: load_def nth_append)
  have i: "i < len" "\<not> i + 1 < len" "\<not> i + 2 < len" "len \<le> i + 3" using "2.prems" by simp_all
  show ?case unfolding o2 using l i "2.prems"(4)
    by (subst base64_loop.simps) (simp add: store4 Let_def base64_loop_done)
next
  case (3 a b)
  then obtain p q r t where o2: "o2 = p # q # r # t # o3"
    by (auto simp: length_Suc_conv)
  have l: "load data i = Some a" "load data (i + 1) = Some b"
    using "3.prems" by (simp_all add: load_def nth_append)
  have i: "i < len" "i + 1 < len" "\<not> i + 2 < len" "len \<le> i + 3" using "3.prems" by simp_all
  show ?case unfolding o2 using l i "3.prems"(4)
    by (subst base64_loop.simps) (simp add: store4 Let_def base64_loop_done)
next
  case (4 a b c rest)
  from "4.prems"(5) have "length o2 = Suc (Suc (Suc (Suc (length (b64_text rest) + length o3))))"
    by simp
  then obtain p q r t o2' where o2: "o2 = p # q # r # t # o2'"
    and o2': "length o2' = length (b64_text rest) + length o3" by (rule length_ge4)
  have d: "drop (length (b64_text rest)) o2' = o3" using "4.prems"(6) o2 by simp
  let ?ds = "[b64_digit (b64_triple a b c) 18, b64_digit (b64_triple a b c) 12,
              b64_digit (b64_triple a b c) 6, b64_digit (b64_triple a b c) 0]"
  have rec: "base64_loop data len (i + 3) ((o1 @ ?ds) @ o2') (oi + 4) =
      Some ((o1 @ ?ds) @ b64_text rest @ o3, oi + 4 + length (b64_text rest))"
    using "4.prems" o2' d by (intro "4.IH" [where pre = "pre @ [a, b, c]"]) simp_all
  have i: "i < len" "i + 1 < len" "i + 2 < len" using "4.prems" by simp_all
  have l: "load data i = Some a" "load data (i + 1) = Some b" "load data (i + 2) = Some c"
    using "4.prems" by (simp_all add: load_def nth_append)
  show ?case
    unfolding o2 using rec i l "4.prems"(4)
    by (subst base64_loop.simps) (simp add: store4 Let_def)
qed

lemma base64_encode_text:
  assumes "len \<le> length data"
  shows "base64_encode data len = Some (b64_text (take len data) @ [0])"
proof -
  let ?s = "take len data" and ?n = "((len + 2) div 3) * 4"
  have n: "length (b64_text ?s) = ?n" using assms by (simp add: length_b64_text)
  have "base64_loop data len 0 ([] @ replicate (?n + 1) 0) 0 =
      Some ([] @ b64_text ?s @ [0], 0 + length (b64_text ?s))"
    unfolding replicate_add
    by (rule base64_loop_text [where pre = "[]" and post = "drop len data"])
       (use assms n in auto)
  then have l: "base64_loop data len 0 (replicate (?n + 1) 0) 0 = Some (b64_text ?s @ [0], ?n)"
    by (simp only: append.left_neutral add_0_left n)
  show ?thesis
    unfolding base64_encode_def Let_def l
    by (simp add: store_def n list_update_append del: add_2_eq_Suc')
qed

section \<open>Decoding\<close>

text \<open>
  The decoder of RFC 4648, as the reader of the escape sequence applies it: the specification
  against which the encoder is proved.
\<close>

fun index_of :: "'a \<Rightarrow> 'a list \<Rightarrow> nat" where
  "index_of x [] = 0"
| "index_of x (y # ys) = (if x = y then 0 else Suc (index_of x ys))"

definition b64_value :: "byte \<Rightarrow> 32 word" where
  "b64_value d = of_nat (index_of d b64_table)"

definition b64_join :: "byte \<Rightarrow> byte \<Rightarrow> byte \<Rightarrow> byte \<Rightarrow> 32 word" where
  "b64_join p q r s =
     push_bit 18 (b64_value p) OR push_bit 12 (b64_value q) OR
     push_bit 6 (if r = b64_eq then 0 else b64_value r) OR (if s = b64_eq then 0 else b64_value s)"

fun b64_decode :: "byte list \<Rightarrow> byte list" where
  "b64_decode (p # q # r # s # rest) =
     (let t = b64_join p q r s in
      [ucast (drop_bit 16 t)] @ (if r = b64_eq then [] else [ucast (drop_bit 8 t)]) @
      (if s = b64_eq then [] else [ucast t]) @ b64_decode rest)"
| "b64_decode _ = []"

lemma index_of_nth: "distinct xs \<Longrightarrow> i < length xs \<Longrightarrow> index_of (xs ! i) xs = i"
proof (induction xs arbitrary: i)
  case (Cons x xs)
  then show ?case by (cases i) (auto dest: nth_mem)
qed simp

lemma b64_table_facts: "length b64_table = 64" "distinct b64_table" "b64_eq \<notin> set b64_table"
  by (simp_all add: b64_table_def bytes_of_def b64_eq_def)

lemma six_bits_less: "unat (w AND 0x3f :: 32 word) < 64"
  using word_and_le1 [of w "0x3f"] by (simp add: word_le_nat_alt)

lemma b64_digit_value: "b64_value (b64_digit t n) = drop_bit n t AND 0x3f"
  by (simp add: b64_value_def b64_digit_def index_of_nth b64_table_facts six_bits_less)

lemma b64_digit_not_eq: "b64_digit t n \<noteq> b64_eq"
  unfolding b64_digit_def by (metis b64_table_facts(1,3) nth_mem six_bits_less)

lemma and_63: "w AND 0x3f = take_bit 6 (w :: 32 word)"
  by (simp add: take_bit_eq_mask mask_numeral)

lemma b64_triple_bit:
  "n < 32 \<Longrightarrow> bit (b64_triple a b c) n \<longleftrightarrow>
     (16 \<le> n \<and> bit a (n - 16)) \<or> (8 \<le> n \<and> bit b (n - 8)) \<or> bit c n"
  by (auto simp: b64_triple_def bit_or_iff bit_push_bit_iff bit_ucast_iff)

lemma byte_bit: "bit (a :: byte) n \<Longrightarrow> n < 8"
  using bit_imp_le_length by force

lemma six_bits_bit:
  "bit (push_bit k (drop_bit k (t :: 32 word) AND 0x3f)) n \<longleftrightarrow> k \<le> n \<and> n < k + 6 \<and> bit t n"
  by (auto simp: and_63 bit_push_bit_iff bit_take_bit_iff bit_drop_bit_eq dest: bit_imp_le_length)

lemma low_bits_bit: "bit (drop_bit 0 (t :: 32 word) AND 0x3f) n \<longleftrightarrow> n < 6 \<and> bit t n"
  by (auto simp: and_63 bit_take_bit_iff)

lemma mid_bits_bit:
  "bit (push_bit k (take_bit m (drop_bit k (t :: 32 word)))) n \<longleftrightarrow> k \<le> n \<and> n < k + m \<and> bit t n"
  by (auto simp: bit_push_bit_iff bit_take_bit_iff bit_drop_bit_eq dest: bit_imp_le_length)

lemma b64_value_digits:
  "push_bit 18 (drop_bit 18 t AND 0x3f) OR push_bit 12 (drop_bit 12 t AND 0x3f) OR
     push_bit 6 (drop_bit 6 t AND 0x3f) OR (drop_bit 0 t AND 0x3f) = take_bit 24 (t :: 32 word)"
  "push_bit 18 (drop_bit 18 t AND 0x3f) OR push_bit 12 (drop_bit 12 t AND 0x3f) OR
     push_bit 6 (drop_bit 6 t AND 0x3f) = push_bit 6 (take_bit 18 (drop_bit 6 (t :: 32 word)))"
  "push_bit 18 (drop_bit 18 t AND 0x3f) OR push_bit 12 (drop_bit 12 t AND 0x3f) =
     push_bit 12 (take_bit 12 (drop_bit 12 (t :: 32 word)))"
  by (rule bit_word_eqI; auto simp only: bit_or_iff six_bits_bit low_bits_bit mid_bits_bit bit_take_bit_iff; linarith)+

lemma b64_triple_bytes:
  "ucast (drop_bit 16 (take_bit 24 (b64_triple a b c))) = a"
  "ucast (drop_bit 8 (take_bit 24 (b64_triple a b c))) = b"
  "ucast (take_bit 24 (b64_triple a b c)) = c"
  "ucast (drop_bit 16 (push_bit 6 (take_bit 18 (drop_bit 6 (b64_triple a b 0))))) = a"
  "ucast (drop_bit 8 (push_bit 6 (take_bit 18 (drop_bit 6 (b64_triple a b 0))))) = b"
  "ucast (drop_bit 16 (push_bit 12 (take_bit 12 (drop_bit 12 (b64_triple a 0 0))))) = a"
  by (rule bit_word_eqI; auto simp: bit_ucast_iff bit_drop_bit_eq bit_take_bit_iff
        bit_push_bit_iff b64_triple_bit dest: byte_bit)+

lemma b64_join_digits:
  "b64_join (b64_digit t 18) (b64_digit t 12) (b64_digit t 6) (b64_digit t 0) = take_bit 24 t"
  "b64_join (b64_digit t 18) (b64_digit t 12) (b64_digit t 6) b64_eq =
     push_bit 6 (take_bit 18 (drop_bit 6 t))"
  "b64_join (b64_digit t 18) (b64_digit t 12) b64_eq b64_eq =
     push_bit 12 (take_bit 12 (drop_bit 12 t))"
  by (simp_all only: b64_join_def b64_digit_value b64_digit_not_eq b64_value_digits if_True if_False
      or.right_neutral push_bit_of_0 refl)

lemma b64_decode_text: "b64_decode (b64_text s) = s"
  by (induction s rule: b64_text.induct)
     (simp_all add: b64_digit_not_eq b64_join_digits b64_triple_bytes Let_def)

text \<open>The encoding has no NUL, so \<open>strlen\<close> sees all of it.\<close>

lemma b64_digit_not_nul: "b64_digit t n \<noteq> 0"
proof -
  have "b64_digit t n \<in> set b64_table"
    unfolding b64_digit_def by (rule nth_mem) (simp add: b64_table_facts six_bits_less)
  moreover have "0 \<notin> set b64_table" by (simp add: b64_table_def bytes_of_def)
  ultimately show ?thesis by metis
qed

lemma b64_text_no_nul: "0 \<notin> set (b64_text s)"
  by (induction s rule: b64_text.induct) (auto simp: b64_digit_not_nul b64_digit_not_nul [symmetric] b64_eq_def)

end
