(* ===== verification/Kill.thy ===== *)
theory Kill
  imports Invariant Util
begin

text \<open>
  The kill ring, the region and the yank (\<open>src/input.c\<close>: \<open>editor_get_region\<close> to
  \<open>editor_copy_region_text\<close>, and \<open>editor_kill_set\<close> to \<open>editor_kill_region\<close>). The \<open>char *\<close> entries of
  the ring are optional blocks. The text handed to \<open>editor_kill_set\<close> is a source block with an
  offset and a length, as the C calls pass a pointer into a line. What is written to the terminal
  (the OSC 52 sequence) is appended to \<open>ed_tty\<close>.
\<close>

section \<open>The region\<close>

definition editor_get_region :: "editor \<Rightarrow> (nat \<times> nat \<times> nat \<times> nat) option" where
  "editor_get_region ed =
     (if \<not> ed_mark_active ed then None
      else
        let row_a = ed_mark_row ed; col_a = ed_mark_col ed;
            row_b = cur_row ed; col_b = cur_col ed;
            (row_a, col_a, row_b, col_b) =
              (if pos_compare row_a col_a row_b col_b > 0 then (row_b, col_b, row_a, col_a)
               else (row_a, col_a, row_b, col_b))
        in if row_a = row_b \<and> col_a = col_b then None else Some (row_a, col_a, row_b, col_b))"

text \<open>
  The loop over the rows of the region. \<open>out\<close> is the buffer built so far, \<open>None\<close> while it is NULL.
  A row past the last one has length 0; its entry of the array is read but not followed, which is
  harmless as long as the array has room for it.
\<close>

definition region_from :: "nat \<Rightarrow> nat \<Rightarrow> nat \<Rightarrow> nat \<Rightarrow> nat" where
  "region_from row start_row start_col len =
     (if row = start_row then (if start_col < len then start_col else len) else 0)"

definition region_to :: "nat \<Rightarrow> nat \<Rightarrow> nat \<Rightarrow> nat \<Rightarrow> nat" where
  "region_to row end_row end_col len =
     (if row = end_row then (if end_col < len then end_col else len) else len)"

definition region_put :: "block option \<Rightarrow> nat \<Rightarrow> block \<Rightarrow> nat \<Rightarrow> nat \<Rightarrow> (block option \<times> nat) option" where
  "region_put out out_len line from n = do {
     next \<leftarrow> memcpy (realloc (case out of None \<Rightarrow> [] | Some b \<Rightarrow> b) (out_len + n + 1)) out_len line from n;
     next \<leftarrow> store next (out_len + n) 0;
     Some (Some next, out_len + n)
   }"

definition region_newline :: "block option \<Rightarrow> nat \<Rightarrow> (block option \<times> nat) option" where
  "region_newline out out_len = do {
     next \<leftarrow> store (realloc (case out of None \<Rightarrow> [] | Some b \<Rightarrow> b) (out_len + 2)) out_len nl;
     next \<leftarrow> store next (out_len + 1) 0;
     Some (Some next, out_len + 1)
   }"

function region_loop ::
  "buffer \<Rightarrow> nat \<Rightarrow> nat \<Rightarrow> nat \<Rightarrow> nat \<Rightarrow> nat \<Rightarrow> block option \<Rightarrow> nat \<Rightarrow> (block option \<times> nat) option" where
  "region_loop buf start_row start_col end_row end_col row out out_len =
     (if row \<le> end_row then
        if row \<ge> b_slots buf then None
        else do {
          len \<leftarrow> line_length buf row;
          let from = region_from row start_row start_col len;
          let to = region_to row end_row end_col len;
          (out, out_len) \<leftarrow>
            (if to > from then do { line \<leftarrow> load_line buf row; region_put out out_len line from (to - from) }
             else Some (out, out_len));
          (out, out_len) \<leftarrow> (if row < end_row then region_newline out out_len else Some (out, out_len));
          region_loop buf start_row start_col end_row end_col (row + 1) out out_len
        }
      else Some (out, out_len))"
  by pat_completeness auto
termination
  by (relation "measure (\<lambda>(buf, sr, sc, er, ec, row, out, out_len). Suc er - row)") auto

declare region_loop.simps [simp del]

definition editor_copy_region_text :: "editor \<Rightarrow> (block option \<times> nat) option" where
  "editor_copy_region_text ed =
     (case editor_get_region ed of
        None \<Rightarrow> Some (None, 0)
      | Some (start_row, start_col, end_row, end_col) \<Rightarrow>
          region_loop (ed_buffer ed) start_row start_col end_row end_col start_row None 0)"

section \<open>The kill ring\<close>

definition kill_slot :: "editor \<Rightarrow> nat" where
  "kill_slot ed = (if ed_kill_ring_len ed < KILL_RING_MAX then ed_kill_ring_len ed
                   else (ed_kill_ring_index ed + 1) mod KILL_RING_MAX)"

definition editor_kill_set :: "editor \<Rightarrow> block \<Rightarrow> nat \<Rightarrow> nat \<Rightarrow> bool \<Rightarrow> editor option" where
  "editor_kill_set ed data off len app =
     (if len = 0 then Some ed
      else do {
        ed \<leftarrow> (if \<not> app \<or> ed_kill_ring_len ed = 0 then do {
                 ring \<leftarrow> store (ed_kill_ring ed) (kill_slot ed) None;
                 Some (ed\<lparr>ed_kill_ring_len :=
                            (if ed_kill_ring_len ed < KILL_RING_MAX then ed_kill_ring_len ed + 1
                             else ed_kill_ring_len ed),
                          ed_kill_ring_index := kill_slot ed, ed_kill_ring := ring\<rparr>)
               } else Some ed);
        entry \<leftarrow> load (ed_kill_ring ed) (ed_kill_ring_index ed);
        cur_len \<leftarrow> (case entry of None \<Rightarrow> Some 0 | Some b \<Rightarrow> strlen b);
        let buf = realloc (case entry of None \<Rightarrow> [] | Some b \<Rightarrow> b) (cur_len + len + 1);
        buf \<leftarrow> memcpy buf cur_len data off len;
        buf \<leftarrow> store buf (cur_len + len) 0;
        ring \<leftarrow> store (ed_kill_ring ed) (ed_kill_ring_index ed) (Some buf);
        Some (ed\<lparr>ed_kill_ring := ring\<rparr>)
      })"

definition editor_kill_newline_and_next :: "editor \<Rightarrow> editor option" where
  "editor_kill_newline_and_next ed =
     (if cur_row ed + 1 \<ge> line_count (ed_buffer ed) then Some ed
      else do {
        next \<leftarrow> load_line (ed_buffer ed) (cur_row ed + 1);
        next_len \<leftarrow> strlen next;
        ed \<leftarrow> editor_kill_set ed [nl, 0] 0 1 (ed_last_was_kill ed);
        ed \<leftarrow> editor_kill_set ed next 0 next_len True;
        with_buffer ed (join_rows (ed_buffer ed) (cur_row ed))
      })"

definition editor_kill_word_forward :: "editor \<Rightarrow> editor option" where
  "editor_kill_word_forward ed =
     (if cur_row ed \<ge> line_count (ed_buffer ed) then Some ed
      else do {
        line \<leftarrow> load_line (ed_buffer ed) (cur_row ed);
        len \<leftarrow> line_length (ed_buffer ed) (cur_row ed);
        let start = cur_col ed;
        if start \<ge> len then editor_kill_newline_and_next ed
        else do {
          col \<leftarrow> skip_forward not_space line len start;
          col \<leftarrow> skip_forward not_word_char line len col;
          if col > start then do {
            ed \<leftarrow> editor_kill_set ed line start (col - start) (ed_last_was_kill ed);
            with_buffer ed (buffer_delete_range (ed_buffer ed) (cur_row ed) start col)
          } else Some ed
        }
      })"

definition editor_kill_word_backward :: "editor \<Rightarrow> editor option" where
  "editor_kill_word_backward ed =
     (if cur_row ed \<ge> line_count (ed_buffer ed) then Some ed
      else do {
        line \<leftarrow> load_line (ed_buffer ed) (cur_row ed);
        len \<leftarrow> line_length (ed_buffer ed) (cur_row ed);
        if cur_col ed = 0 then
          (if cur_row ed = 0 then Some ed
           else do {
             col \<leftarrow> line_length (ed_buffer ed) (cur_row ed - 1);
             editor_kill_newline_and_next (set_cursor (cur_row ed - 1) col ed)
           })
        else do {
          end \<leftarrow> utf8_clamp_col line len (cur_col ed);
          col \<leftarrow> skip_backward not_space line end;
          col \<leftarrow> skip_backward not_word_char line col;
          if end > col then do {
            ed \<leftarrow> editor_kill_set ed line col (end - col) (ed_last_was_kill ed);
            ed \<leftarrow> with_buffer ed (buffer_delete_range (ed_buffer ed) (cur_row ed) col end);
            Some (set_cursor (cur_row ed) col ed)
          } else Some ed
        }
      })"

text \<open>The case \<open>C-k\<close> of \<open>editor_process_key\<close> up to its flags.\<close>

definition editor_kill_line :: "editor \<Rightarrow> editor option" where
  "editor_kill_line ed = do {
     len \<leftarrow> line_length (ed_buffer ed) (cur_row ed);
     if cur_col ed < len then do {
       line \<leftarrow> load_line (ed_buffer ed) (cur_row ed);
       ed \<leftarrow> editor_kill_set ed line (cur_col ed) (len - cur_col ed) (ed_last_was_kill ed);
       line \<leftarrow> store line (cur_col ed) 0;
       Some (mark_dirty (ed\<lparr>ed_buffer := set_line (ed_buffer ed) (cur_row ed) line\<rparr>))
     }
     else if cur_row ed + 1 < line_count (ed_buffer ed) then do {
       ed \<leftarrow> editor_kill_newline_and_next ed;
       Some (mark_dirty ed)
     }
     else Some ed
   }"

section \<open>Yank, copy and kill of the region\<close>

definition editor_yank_from :: "editor \<Rightarrow> block option \<Rightarrow> (editor \<times> bool) option" where
  "editor_yank_from ed data =
     (case data of
        None \<Rightarrow> Some (ed, False)
      | Some b \<Rightarrow> do {
          s \<leftarrow> c_string b;
          (buf, row, col) \<leftarrow> type_bytes buffer_insert_char buffer_insert_newline
                               (ed_buffer ed) (cur_row ed) (cur_col ed) s;
          Some (mark_dirty ((set_cursor row col ed)
                  \<lparr>ed_buffer := buf, ed_yank_start_row := cur_row ed, ed_yank_start_col := cur_col ed,
                   ed_yank_end_row := row, ed_yank_end_col := col\<rparr>), True)
        })"

definition editor_yank :: "editor \<Rightarrow> (editor \<times> bool) option" where
  "editor_yank ed =
     (if ed_kill_ring_len ed = 0 then Some (ed, False)
      else do {
        entry \<leftarrow> load (ed_kill_ring ed) (ed_kill_ring_index ed);
        editor_yank_from ed entry
      })"

definition osc52_set_clipboard :: "editor \<Rightarrow> block \<Rightarrow> nat \<Rightarrow> editor option" where
  "osc52_set_clipboard ed data len = do {
     b64 \<leftarrow> base64_encode data len;
     s \<leftarrow> c_string b64;
     Some (ed\<lparr>ed_tty := ed_tty ed @ [27] @ bytes_of '']52;c;'' @ s @ [7]\<rparr>)
   }"

definition editor_copy_region :: "editor \<Rightarrow> (editor \<times> bool) option" where
  "editor_copy_region ed = do {
     (out, text_len) \<leftarrow> editor_copy_region_text ed;
     case out of
       None \<Rightarrow> Some (ed, False)
     | Some region \<Rightarrow> do {
         ed \<leftarrow> editor_kill_set ed region 0 text_len False;
         ed \<leftarrow> osc52_set_clipboard ed region text_len;
         Some (ed\<lparr>ed_mark_active := False\<rparr>, True)
       }
   }"

definition editor_kill_region :: "editor \<Rightarrow> (editor \<times> bool) option" where
  "editor_kill_region ed =
     (case editor_get_region ed of
        None \<Rightarrow> Some (ed, False)
      | Some (start_row, start_col, end_row, end_col) \<Rightarrow> do {
          (out, text_len) \<leftarrow> editor_copy_region_text ed;
          case out of
            None \<Rightarrow> Some (ed, False)
          | Some region \<Rightarrow> do {
              ed \<leftarrow> editor_kill_set ed region 0 text_len (ed_last_was_kill ed);
              ed \<leftarrow> osc52_set_clipboard ed region text_len;
              ed \<leftarrow> with_buffer ed (buffer_delete_region (ed_buffer ed) start_row start_col end_row end_col);
              Some ((mark_dirty (set_cursor start_row start_col ed))\<lparr>ed_mark_active := False\<rparr>, True)
            }
        })"

section \<open>The text of a region\<close>

text \<open>The region's rows, from column \<open>c\<close> of row \<open>row\<close> on; \<open>n\<close> more rows follow.\<close>

fun region_rows :: "byte list list \<Rightarrow> nat \<Rightarrow> nat \<Rightarrow> nat \<Rightarrow> nat \<Rightarrow> byte list" where
  "region_rows T row c ec 0 = slice c ec (T ! row)"
| "region_rows T row c ec (Suc n) = drop c (T ! row) @ nl # region_rows T (row + 1) 0 ec n"

lemma drop_offset:
  assumes "in_text T row c"
  shows "drop (offset T row c) (flat T) =
    drop c (T ! row) @ (if Suc row < length T then nl # drop (offset T (Suc row) 0) (flat T) else [])"
proof -
  from assms have "row < length T" by (simp add: in_text_def)
  then obtain A l B where s: "T = A @ l # B" "length A = row" "T ! row = l" "take row T = A" by (rule split_at)
  show ?thesis
  proof (cases B)
    case Nil
    with s assms show ?thesis by (simp add: offset_def flat_split in_text_def)
  next
    case (Cons k C)
    have "flat T = before (A @ [l]) @ k @ after C"
      using s Cons flat_split [of "A @ [l]" k C] by simp
    moreover have "flat T = before A @ l @ nl # k @ after C"
      using s Cons by (simp add: flat_split)
    moreover have "offset T (Suc row) 0 = length (before (A @ [l]))"
      using s by (simp add: offset_def)
    ultimately show ?thesis using s assms Cons by (simp add: offset_def in_text_def)
  qed
qed

lemma region_rows_slice:
  "in_text T row c \<Longrightarrow> in_text T (row + n) ec \<Longrightarrow> (n = 0 \<longrightarrow> c \<le> ec) \<Longrightarrow>
   region_rows T row c ec n = slice (offset T row c) (offset T (row + n) ec) (flat T) \<and>
   offset T row c \<le> offset T (row + n) ec"
proof (induction n arbitrary: row c)
  case 0
  then show ?case
    unfolding slice_def drop_offset [OF 0(1)] by (simp add: slice_def offset_def in_text_def)
next
  case (Suc n)
  have r: "Suc row < length T" using Suc.prems(2) by (simp add: in_text_def)
  have IH: "region_rows T (Suc row) 0 ec n = slice (offset T (Suc row) 0) (offset T (row + Suc n) ec) (flat T)"
    "offset T (Suc row) 0 \<le> offset T (row + Suc n) ec"
    using Suc.IH [of "Suc row" 0] Suc.prems r by (auto simp: in_text_def)
  have o: "offset T (Suc row) 0 = offset T row c + (length (T ! row) - c) + 1"
    using offset_Suc_row [OF r] Suc.prems(1) by (simp add: offset_def in_text_def)
  define k where "k = offset T (row + Suc n) ec - offset T (Suc row) 0"
  have d: "offset T (row + Suc n) ec - offset T row c = (length (T ! row) - c) + Suc k"
    using IH(2) o by (simp add: k_def)
  have "region_rows T row c ec (Suc n) = drop c (T ! row) @ nl # take k (drop (offset T (Suc row) 0) (flat T))"
    using IH(1) by (simp add: slice_def k_def)
  also have "\<dots> = take ((length (T ! row) - c) + Suc k)
      (drop c (T ! row) @ nl # drop (offset T (Suc row) 0) (flat T))" by simp
  also have "\<dots> = slice (offset T row c) (offset T (row + Suc n) ec) (flat T)"
    unfolding slice_def d drop_offset [OF Suc.prems(1)] using r by simp
  finally show ?case using IH(2) o by simp
qed

text \<open>The buffer the loop fills: NULL, or a string with its NUL.\<close>

definition holds_text :: "block option \<Rightarrow> byte list \<Rightarrow> bool" where
  "holds_text out acc \<longleftrightarrow> (case out of None \<Rightarrow> acc = [] | Some b \<Rightarrow> b = acc @ [0])"

lemma length_1: "length xs = 1 \<Longrightarrow> \<exists>z. xs = [z]"
  by (cases xs) auto

lemma store_snoc: "store (xs @ [z]) (length xs) v = Some (xs @ [v])"
  by (simp add: store_def)

lemma holds_grow:
  assumes "holds_text out acc" "src + n \<le> length line"
  shows "Option.bind (memcpy (realloc (case out of None \<Rightarrow> [] | Some b \<Rightarrow> b) (length acc + n + 1))
      (length acc) line src n) (\<lambda>next. Option.bind (store next (length acc + n) 0) f) =
    f (acc @ take n (drop src line) @ [0])"
proof -
  let ?b = "case out of None \<Rightarrow> [] | Some b \<Rightarrow> b"
  have b: "take (length acc) ?b = acc" "length ?b = 0 \<and> acc = [] \<or> length ?b = length acc + 1"
    using assms(1) by (auto simp: holds_text_def split: option.splits)
  then have m: "memcpy (realloc ?b (length acc + n + 1)) (length acc) line src n =
      Some (acc @ take n (drop src line) @ drop (length acc + n) (realloc ?b (length acc + n + 1)))"
    using assms(2) by (auto simp: memcpy_def realloc_with_def)
  have "length (drop (length acc + n) (realloc ?b (length acc + n + 1))) = 1" by simp
  then obtain z where z: "drop (length acc + n) (realloc ?b (length acc + n + 1)) = [z]"
    using length_1 by blast
  have l: "length (acc @ take n (drop src line)) = length acc + n" using assms(2) by simp
  have "store ((acc @ take n (drop src line)) @ [z]) (length acc + n) 0 =
      Some (acc @ take n (drop src line) @ [0])"
    using store_snoc [of "acc @ take n (drop src line)" z 0] unfolding l by simp
  with m z show ?thesis by simp
qed

lemma holds_newline:
  assumes "holds_text out acc"
  shows "Option.bind (store (realloc (case out of None \<Rightarrow> [] | Some b \<Rightarrow> b) (length acc + 2)) (length acc) nl)
      (\<lambda>next. Option.bind (store next (length acc + 1) 0) f) = f (acc @ [nl, 0])"
proof -
  let ?b = "case out of None \<Rightarrow> [] | Some b \<Rightarrow> b"
  have "take (length acc) (realloc ?b (length acc + 2)) = acc"
    using assms by (auto simp: holds_text_def realloc_with_def split: option.splits)
  then obtain x where x: "realloc ?b (length acc + 2) = acc @ x" by (metis append_take_drop_id)
  then have "length x = 2" using length_realloc [of 0 ?b "length acc + 2"] by simp
  then obtain y z where "x = [y, z]" by (auto simp: length_Suc_conv numeral_2_eq_2)
  with x show ?thesis by (simp add: store_def list_update_append)
qed

lemma region_put_eq:
  assumes "holds_text out acc" "src + n \<le> length line"
  shows "region_put out (length acc) line src n = Some (Some (acc @ take n (drop src line) @ [0]), length acc + n)"
  unfolding region_put_def using holds_grow [OF assms, of "\<lambda>next. Some (Some next, length acc + n)"] by simp

lemma region_newline_eq:
  assumes "holds_text out acc"
  shows "region_newline out (length acc) = Some (Some (acc @ [nl, 0]), length acc + 1)"
  unfolding region_newline_def
  using holds_newline [OF assms, of "\<lambda>next. Some (Some next, length acc + 1)"] by simp

lemma region_loop_text:
  assumes "wf_buffer buf" "er < line_count buf"
  shows "row \<le> er \<Longrightarrow> holds_text out acc \<Longrightarrow> out_len = length acc \<Longrightarrow> sr \<le> row \<Longrightarrow>
    (row = sr \<Longrightarrow> c = min sc (length (ltext buf row))) \<Longrightarrow> (row \<noteq> sr \<Longrightarrow> c = 0) \<Longrightarrow>
    returns (region_loop buf sr sc er ec row out out_len)
      (\<lambda>(out', n). let t = acc @ region_rows (texts buf) row c (min ec (length (ltext buf er))) (er - row)
         in holds_text out' t \<and> n = length t)"
  using assms
proof (induction "er - row" arbitrary: row out acc out_len c)
  case 0
  then have [simp]: "row = er" by simp
  let ?s = "ltext buf er" and ?t = "min ec (length (ltext buf er))"
  have f: "region_from er sr sc (length ?s) = c" using 0 by (auto simp: region_from_def)
  have t: "region_to er er ec (length ?s) = ?t" by (simp add: region_to_def)
  have stop: "region_loop buf sr sc er ec (Suc er) o' n' = Some (o', n')" for o' n'
    by (subst region_loop.simps) simp
  obtain r where line: "b_lines buf ! er = ?s @ 0 # r" using line_split 0 by blast
  have slots: "er < b_slots buf" using 0 by (simp add: wf_buffer_def)
  show ?case
  proof (cases "c < ?t")
    case True
    then have "c + (?t - c) \<le> length (b_lines buf ! er)" by (simp add: line)
    from region_put_eq [OF \<open>holds_text out acc\<close> this] True slots \<open>er < line_count buf\<close> \<open>wf_buffer buf\<close> \<open>out_len = length acc\<close>
    have "region_loop buf sr sc er ec er out out_len =
        Some (Some (acc @ slice c ?t ?s @ [0]), length acc + (?t - c))"
      by (subst region_loop.simps) (simp add: line_length_eq load_line_eq f t stop line Let_def slice_def)
    then show ?thesis using True \<open>er < line_count buf\<close> by (simp add: holds_text_def slice_def Let_def)
  next
    case False
    with slots 0 have "region_loop buf sr sc er ec er out out_len = Some (out, out_len)"
      by (subst region_loop.simps) (auto simp: line_length_eq f t stop Let_def)
    moreover have "?t \<le> c" "?t - c = 0" using False by auto
    ultimately show ?thesis using 0 by (simp add: slice_def Let_def)
  qed
next
  case (Suc m)
  then have r: "row < er" by simp
  let ?s = "ltext buf row"
  have f: "region_from row sr sc (length ?s) = c" using Suc by (auto simp: region_from_def)
  have t: "region_to row er ec (length ?s) = length ?s" using r by (simp add: region_to_def)
  obtain x where line: "b_lines buf ! row = ?s @ 0 # x" using line_split Suc r by (meson less_trans)
  have cl: "c \<le> length ?s" using Suc by (cases "row = sr") auto
  let ?acc = "acc @ drop c ?s @ [nl]"
  have IH: "returns (region_loop buf sr sc er ec (Suc row) (Some (?acc @ [0])) (length ?acc))
      (\<lambda>(out', n). let t = ?acc @ region_rows (texts buf) (Suc row) 0 (min ec (length (ltext buf er))) (er - Suc row)
         in holds_text out' t \<and> n = length t)"
    using Suc.prems Suc.hyps(2) r by (intro Suc.hyps(1)) (simp_all add: holds_text_def)
  have slots: "row < b_slots buf" "row < line_count buf" using Suc r by (simp_all add: wf_buffer_def)
  have n: "er - row = Suc (er - Suc row)" using r by simp
  have step: "region_loop buf sr sc er ec row out out_len =
      region_loop buf sr sc er ec (Suc row) (Some (?acc @ [0])) (length ?acc)"
  proof (cases "c < length ?s")
    case True
    have h: "holds_text (Some (acc @ drop c ?s @ [0])) (acc @ drop c ?s)" by (simp add: holds_text_def)
    define k where "k = length ?s - c"
    have k: "length ?s = c + k" "0 < k" using True by (simp_all add: k_def)
    have "c + k \<le> length (b_lines buf ! row)" by (simp add: line k)
    have tk: "take k (drop c (b_lines buf ! row)) = drop c ?s" by (simp add: line k)
    have "region_put out (length acc) (b_lines buf ! row) c k = Some (Some (acc @ drop c ?s @ [0]), length acc + k)"
      "region_newline (Some (acc @ drop c ?s @ [0])) (length acc + k) = Some (Some (?acc @ [0]), length ?acc)"
      using region_put_eq [OF Suc.prems(2) \<open>c + k \<le> length (b_lines buf ! row)\<close>] tk
        region_newline_eq [OF h] k by simp_all
    with Suc.prems r slots k show ?thesis
      by (subst region_loop.simps)
         (simp add: line_length_eq load_line_eq f [unfolded k(1)] t [unfolded k(1)] Let_def)
  next
    case False
    with cl have "c = length ?s" by simp
    with Suc.prems r slots region_newline_eq [OF Suc.prems(2)] show ?thesis
      by (subst region_loop.simps) (simp add: line_length_eq load_line_eq f t Let_def)
  qed
  show ?case
    unfolding step n using IH slots by (simp add: Let_def)
qed

lemma editor_get_region_SomeD:
  assumes "editor_get_region ed = Some (sr, sc, er, ec)"
  shows "ed_mark_active ed" "Pos sr sc < Pos er ec"
    "(Pos sr sc = Pos (ed_mark_row ed) (ed_mark_col ed) \<and> Pos er ec = Pos (cur_row ed) (cur_col ed)) \<or>
     (Pos er ec = Pos (ed_mark_row ed) (ed_mark_col ed) \<and> Pos sr sc = Pos (cur_row ed) (cur_col ed))"
  using assms
  by (auto simp: editor_get_region_def pos_compare_def less_pos_def Let_def split: if_splits)

text \<open>Copying a region whose ends are in the text returns exactly its part of the flat text.\<close>

definition region_text :: "editor \<Rightarrow> nat \<Rightarrow> nat \<Rightarrow> nat \<Rightarrow> nat \<Rightarrow> byte list" where
  "region_text ed sr sc er ec =
     (let T = texts (ed_buffer ed) in slice (offset T sr sc) (offset T er ec) (flat T))"

lemma copy_region_ok:
  assumes "wf_buffer (ed_buffer ed)" "editor_get_region ed = Some (sr, sc, er, ec)"
    "in_text (texts (ed_buffer ed)) sr sc" "in_text (texts (ed_buffer ed)) er ec"
  shows "editor_copy_region_text ed =
      Some (Some (region_text ed sr sc er ec @ [0]), length (region_text ed sr sc er ec))"
    "region_text ed sr sc er ec \<noteq> []"
    "length (region_text ed sr sc er ec) =
       offset (texts (ed_buffer ed)) er ec - offset (texts (ed_buffer ed)) sr sc"
    "offset (texts (ed_buffer ed)) sr sc < offset (texts (ed_buffer ed)) er ec"
proof -
  let ?B = "ed_buffer ed"
  let ?T = "texts ?B"
  have lt: "sr < er \<or> sr = er \<and> sc < ec"
    using editor_get_region_SomeD(2) [OF assms(2)] by (simp add: less_pos_def)
  have rows: "sr < line_count ?B" "er < line_count ?B" using assms(3,4) by (simp_all add: in_text_def)
  have cl: "min sc (length (ltext ?B sr)) = sc" "min ec (length (ltext ?B er)) = ec"
    using assms(3,4) by (auto simp: in_text_def)
  have "returns (region_loop ?B sr sc er ec sr None 0)
      (\<lambda>(out', n). let t = [] @ region_rows ?T sr sc (min ec (length (ltext ?B er))) (er - sr)
         in holds_text out' t \<and> n = length t)"
    using lt by (intro region_loop_text [OF assms(1) rows(2)]) (auto simp: holds_text_def cl)
  moreover have rr: "region_rows ?T sr sc ec (er - sr) = region_text ed sr sc er ec \<and> offset ?T sr sc \<le> offset ?T er ec"
    using region_rows_slice [of ?T sr sc "er - sr" ec] assms(3,4) lt by (auto simp: region_text_def Let_def)
  moreover have "region_rows ?T sr sc ec (er - sr) \<noteq> []"
    using lt assms(3,4) by (cases "er - sr") (auto simp: slice_def in_text_def)
  ultimately have c: "returns (editor_copy_region_text ed) (\<lambda>(out', n).
      holds_text out' (region_text ed sr sc er ec) \<and> n = length (region_text ed sr sc er ec))"
    and ne: "region_text ed sr sc er ec \<noteq> []"
    using assms(2) unfolding cl by (simp_all add: editor_copy_region_text_def Let_def)
  show "region_text ed sr sc er ec \<noteq> []" by (rule ne)
  show "editor_copy_region_text ed =
      Some (Some (region_text ed sr sc er ec @ [0]), length (region_text ed sr sc er ec))"
    using c ne by (auto simp: holds_text_def elim!: returnsE split: option.splits)
  show len: "length (region_text ed sr sc er ec) = offset ?T er ec - offset ?T sr sc"
    using offset_le_length [OF assms(4)] by (simp add: region_text_def slice_def Let_def)
  show "offset ?T sr sc < offset ?T er ec" using len ne by (metis length_greater_0_conv zero_less_diff)
qed

lemma flat_no_nul:
  assumes "\<forall>l\<in>set T. 0 \<notin> set l" shows "0 \<notin> set (flat T)"
  using assms by (induction T rule: flat.induct) (auto simp: nl_def)

lemma region_text_no_nul: "0 \<notin> set (region_text ed sr sc er ec)"
  using flat_no_nul [of "texts (ed_buffer ed)"] texts_no_nul
  by (auto simp: region_text_def slice_def Let_def dest!: in_set_takeD in_set_dropD)

section \<open>Killing\<close>

text \<open>The entry a yank would insert.\<close>

definition kill_top :: "editor \<Rightarrow> byte list" where
  "kill_top ed = (if ed_kill_ring_len ed = 0 then []
     else case ed_kill_ring ed ! ed_kill_ring_index ed of None \<Rightarrow> [] | Some b \<Rightarrow> cstr b)"

lemma kill_top_simps [simp]: "kill_top (mark_dirty ed) = kill_top ed" "kill_top (ed\<lparr>ed_buffer := b\<rparr>) = kill_top ed"
  "kill_top (set_cursor row col ed) = kill_top ed" "kill_top (ed\<lparr>ed_tty := t\<rparr>) = kill_top ed"
  "kill_top (ed\<lparr>ed_mark_active := m\<rparr>) = kill_top ed"
  by (simp_all add: kill_top_def mark_dirty_def set_cursor_def)

lemma kill_slot_less: "wf_kill_ring ed \<Longrightarrow> kill_slot ed < KILL_RING_MAX"
  by (simp add: kill_slot_def KILL_RING_MAX_def)

lemma append_entry:
  assumes "wf_block b" "off + len \<le> length data" "0 \<notin> set (take len (drop off data))"
  shows "Option.bind (memcpy (realloc b (length (cstr b) + len + 1)) (length (cstr b)) data off len)
      (\<lambda>x. Option.bind (store x (length (cstr b) + len) 0) f) =
    f (cstr b @ take len (drop off data) @ [0])"
proof -
  have "holds_text (Some (cstr b @ [0])) (cstr b)" by (simp add: holds_text_def)
  note g = holds_grow [OF this assms(2)]
  obtain r where r: "b = cstr b @ 0 # r" using wf_block_split [OF assms(1)] by metis
  have t: "take (length (cstr b)) (realloc b n) = take (length (cstr b)) (realloc (cstr b @ [0]) n)" if "length (cstr b) < n" for n
  proof -
    have "realloc b n = cstr b @ drop (length (cstr b)) (realloc b n)"
      by (subst r, subst (2) r) (use that in \<open>simp add: realloc_with_def\<close>)
    moreover have "take (length (cstr b)) (realloc (cstr b @ [0]) n) = cstr b"
      using that by (simp add: realloc_with_def)
    ultimately show ?thesis by (metis append_eq_conv_conj)
  qed
  have "memcpy (realloc b (length (cstr b) + len + 1)) (length (cstr b)) data off len =
      Some (cstr b @ take len (drop off data) @ drop (length (cstr b) + len) (realloc b (length (cstr b) + len + 1)))"
    using assms(2) t [of "length (cstr b) + len + 1"] by (simp add: memcpy_def realloc_with_def)
  moreover have "length (drop (length (cstr b) + len) (realloc b (length (cstr b) + len + 1))) = 1" by simp
  then obtain z where "drop (length (cstr b) + len) (realloc b (length (cstr b) + len + 1)) = [z]"
    using length_1 by blast
  ultimately show ?thesis
    using store_snoc [of "cstr b @ take len (drop off data)" z 0] assms(2) by simp
qed

text \<open>What \<open>editor_kill_set\<close> may change.\<close>

definition ring_only :: "editor \<Rightarrow> editor \<Rightarrow> bool" where
  "ring_only ed ed' \<longleftrightarrow>
     (\<exists>ring n i. ed' = ed\<lparr>ed_kill_ring := ring, ed_kill_ring_len := n, ed_kill_ring_index := i\<rparr>)"

lemma ring_only_refl: "ring_only ed ed"
  unfolding ring_only_def
  by (rule exI [of _ "ed_kill_ring ed"], rule exI [of _ "ed_kill_ring_len ed"],
      rule exI [of _ "ed_kill_ring_index ed"]) simp

lemma ring_only_trans: "ring_only ed ed' \<Longrightarrow> ring_only ed' ed'' \<Longrightarrow> ring_only ed ed''"
proof -
  assume a: "ring_only ed ed'" "ring_only ed' ed''"
  from a(1) obtain r n i where 1: "ed' = ed\<lparr>ed_kill_ring := r, ed_kill_ring_len := n, ed_kill_ring_index := i\<rparr>"
    by (auto simp: ring_only_def)
  from a(2) obtain r2 n2 i2 where 2: "ed'' = ed'\<lparr>ed_kill_ring := r2, ed_kill_ring_len := n2, ed_kill_ring_index := i2\<rparr>"
    by (auto simp: ring_only_def)
  show ?thesis
    unfolding ring_only_def 1 2
    by (rule exI [of _ r2], rule exI [of _ n2], rule exI [of _ i2]) simp
qed

lemma ring_only_sel:
  assumes "ring_only ed ed'"
  shows "ed_buffer ed' = ed_buffer ed" "ed_frame ed' = ed_frame ed" "ed_mark_active ed' = ed_mark_active ed"
    "ed_last_was_kill ed' = ed_last_was_kill ed" "ed_tty ed' = ed_tty ed"
  using assms by (auto simp: ring_only_def)

definition killed :: "editor \<Rightarrow> byte list \<Rightarrow> bool \<Rightarrow> editor \<Rightarrow> bool" where
  "killed ed t app ed' \<longleftrightarrow> ring_only ed ed' \<and> wf_kill_ring ed' \<and>
     kill_top ed' = (if t = [] then kill_top ed else if app then kill_top ed @ t else t) \<and>
     (t \<noteq> [] \<longrightarrow> 0 < ed_kill_ring_len ed')"

lemma editor_kill_set_ok:
  assumes wf: "wf_kill_ring ed" and len: "off + len \<le> length data"
    and nul: "0 \<notin> set (take len (drop off data))"
  shows "returns (editor_kill_set ed data off len app) (killed ed (take len (drop off data)) app)"
proof (cases "len = 0")
  case True
  then show ?thesis using wf by (simp add: editor_kill_set_def killed_def ring_only_refl)
next
  case False
  let ?t = "take len (drop off data)"
  have t: "?t \<noteq> []" using False len by auto
  have wfb: "wf_block (s @ t @ [0])" for s t :: "byte list" by (simp add: wf_block_def)
  show ?thesis
  proof (cases "\<not> app \<or> ed_kill_ring_len ed = 0")
    case True
    let ?k = "kill_slot ed"
    have k: "?k < length (ed_kill_ring ed)"
      using kill_slot_less [OF wf] wf by (simp add: wf_kill_ring_def)
    let ?n = "if ed_kill_ring_len ed < KILL_RING_MAX then ed_kill_ring_len ed + 1 else ed_kill_ring_len ed"
    have m: "Option.bind (memcpy (realloc [] (len + 1)) 0 data off len) (\<lambda>x. Option.bind (store x len 0) f) =
        f (?t @ [0])" for f :: "block \<Rightarrow> editor option"
      using holds_grow [of None "[]" off len data f] len by (simp add: holds_text_def)
    have e: "editor_kill_set ed data off len app =
        Some (ed\<lparr>ed_kill_ring_len := ?n, ed_kill_ring_index := ?k,
                 ed_kill_ring := (ed_kill_ring ed)[?k := Some (?t @ [0])]\<rparr>)"
      using True False k m by (simp add: editor_kill_set_def store_eq load_eq)
    have n: "0 < ?n" "?n \<le> KILL_RING_MAX" "?k < ?n"
      using wf kill_slot_less [OF wf] by (auto simp: wf_kill_ring_def kill_slot_def KILL_RING_MAX_def)
    have i: "i < ?n \<Longrightarrow> i \<noteq> ?k \<Longrightarrow> i < ed_kill_ring_len ed" for i
      by (auto simp: kill_slot_def split: if_splits)
    let ?e = "ed\<lparr>ed_kill_ring_len := ?n, ed_kill_ring_index := ?k,
                 ed_kill_ring := (ed_kill_ring ed)[?k := Some (?t @ [0])]\<rparr>"
    have entries: "\<exists>b. (ed_kill_ring ed)[?k := Some (?t @ [0])] ! i = Some b \<and> wf_block b" if "i < ?n" for i
      using that i [of i] wf k wfb [of "[]" ?t] by (cases "i = ?k") (auto simp: wf_kill_ring_def)
    have "wf_kill_ring ?e"
      using wf n entries unfolding wf_kill_ring_def by simp
    moreover have "kill_top ?e = ?t"
      using n k nul by (simp add: kill_top_def)
    moreover have "ring_only ed ?e"
      unfolding ring_only_def
      by (rule exI [of _ "(ed_kill_ring ed)[?k := Some (?t @ [0])]"], rule exI [of _ ?n], rule exI [of _ ?k]) simp
    ultimately show ?thesis
      unfolding e using t True n by (auto simp: killed_def kill_top_def)
  next
    case app: False
    let ?i = "ed_kill_ring_index ed"
    from app wf obtain b where b: "ed_kill_ring ed ! ?i = Some b" "wf_block b" "?i < ed_kill_ring_len ed"
      "?i < length (ed_kill_ring ed)" by (auto simp: wf_kill_ring_def)
    have m: "Option.bind (memcpy (realloc b (length (cstr b) + len + 1)) (length (cstr b)) data off len)
        (\<lambda>x. Option.bind (store x (length (cstr b) + len) 0) f) = f (cstr b @ ?t @ [0])"
      for f :: "block \<Rightarrow> editor option"
      by (rule append_entry [OF b(2) len nul])
    have e: "editor_kill_set ed data off len app =
        Some (ed\<lparr>ed_kill_ring := (ed_kill_ring ed)[?i := Some (cstr b @ ?t @ [0])]\<rparr>)"
      using app False b m by (simp add: editor_kill_set_def store_eq load_eq strlen_eq)
    let ?e = "ed\<lparr>ed_kill_ring := (ed_kill_ring ed)[?i := Some (cstr b @ ?t @ [0])]\<rparr>"
    have entries: "\<exists>c. (ed_kill_ring ed)[?i := Some (cstr b @ ?t @ [0])] ! j = Some c \<and> wf_block c"
      if "j < ed_kill_ring_len ed" for j
      using that wf b wfb [of "cstr b" ?t] by (cases "j = ?i") (auto simp: wf_kill_ring_def)
    have "wf_kill_ring ?e" using wf entries by (simp add: wf_kill_ring_def)
    moreover have "cstr (cstr b @ ?t @ [0]) = cstr b @ ?t"
      using cstr_append_nul [of "cstr b @ ?t" "[]"] nul by (simp del: cstr_append_nul)
    then have "kill_top ?e = kill_top ed @ ?t"
      using b by (simp add: kill_top_def)
    moreover have "ring_only ed ?e"
      unfolding ring_only_def
      by (rule exI [of _ "(ed_kill_ring ed)[?i := Some (cstr b @ ?t @ [0])]"],
          rule exI [of _ "ed_kill_ring_len ed"], rule exI [of _ ?i]) simp
    ultimately show ?thesis
      unfolding e using t app b by (simp add: killed_def)
  qed
qed

lemma killedD:
  assumes "killed ed t app ed'"
  shows "ring_only ed ed'" "wf_kill_ring ed'" "ed_frame ed' = ed_frame ed" "ed_buffer ed' = ed_buffer ed"
  using assms ring_only_sel [of ed ed'] by (simp_all add: killed_def)

lemma killed_trans:
  assumes "killed ed t app e1" "killed e1 u app' e2"
  shows "ring_only ed e2" "wf_kill_ring e2" "ed_frame e2 = ed_frame ed" "ed_buffer e2 = ed_buffer ed"
proof -
  show r: "ring_only ed e2"
    using killedD(1) [OF assms(1)] killedD(1) [OF assms(2)] by (rule ring_only_trans)
  show "wf_kill_ring e2" using assms(2) by (rule killedD)
  show "ed_frame e2 = ed_frame ed" "ed_buffer e2 = ed_buffer ed" using r by (rule ring_only_sel)+
qed

text \<open>The state after a command that changed the ring, the buffer and the cursor.\<close>

lemma kept_edit:
  assumes "wf_editor ed" "\<not> ed_isearch_active ed" "ring_only ed e1" "wf_kill_ring e1"
    "wf_buffer buf" "row < line_count buf" "calm ed \<Longrightarrow> in_text (texts buf) row col"
  shows "kept ed (e1\<lparr>ed_buffer := buf, ed_frame := \<lparr>f_row = row, f_col = col\<rparr>\<rparr>)"
proof -
  from assms(3) obtain r n i where
    e: "e1 = ed\<lparr>ed_kill_ring := r, ed_kill_ring_len := n, ed_kill_ring_index := i\<rparr>"
    by (auto simp: ring_only_def)
  show ?thesis
    using assms(1,2,4-7) unfolding e by (auto simp: state_defs)
qed

lemma frame_eta: "\<lparr>f_row = f_row fr, f_col = f_col fr\<rparr> = fr"
  by simp

lemma kept_buffer:
  assumes "wf_editor ed" "\<not> ed_isearch_active ed" "ring_only ed e1" "wf_kill_ring e1"
    "wf_buffer buf" "cur_row ed < line_count buf" "calm ed \<Longrightarrow> in_text (texts buf) (cur_row ed) (cur_col ed)"
  shows "kept ed (e1\<lparr>ed_buffer := buf\<rparr>)"
proof -
  have "e1\<lparr>ed_buffer := buf, ed_frame := \<lparr>f_row = cur_row ed, f_col = cur_col ed\<rparr>\<rparr> = e1\<lparr>ed_buffer := buf\<rparr>"
    using ring_only_sel(2) [OF assms(3)] by simp
  with kept_edit [OF assms] show ?thesis by simp
qed

lemma calm_col: "calm ed \<Longrightarrow> cur_col ed \<le> length (ltext (ed_buffer ed) (cur_row ed))"
  by (simp add: calm_def good_cursor_def)

lemma join_rows_texts:
  assumes "wf_buffer buf" "Suc row < line_count buf"
  shows "returns (join_rows buf row) (\<lambda>b'. wf_buffer b' \<and> line_count b' = line_count buf - 1 \<and>
    texts b' = take row (texts buf) @ [ltext buf row @ ltext buf (Suc row)] @ drop (row + 2) (texts buf))"
proof -
  let ?l = "ltext buf row @ ltext buf (Suc row)"
  have b: "cstr (?l @ [0]) = ?l" using cstr_append_nul [of ?l "[]"] by (simp del: cstr_append_nul)
  have "wf_block (?l @ [0])" by (simp add: wf_block_def)
  with assms b show ?thesis
    by (auto simp: join_rows_eq wf_buffer_def texts_def take_map drop_map dest: in_set_takeD in_set_dropD)
qed

lemma kill_newline_ok:
  assumes wf: "wf_editor ed" and act: "\<not> ed_isearch_active ed" and row: "Suc (cur_row ed) < line_count (ed_buffer ed)"
  shows "returns (editor_kill_newline_and_next ed) (\<lambda>ed'. kept ed ed' \<and> ed_frame ed' = ed_frame ed \<and>
    texts (ed_buffer ed') = take (cur_row ed) (texts (ed_buffer ed)) @
      [ltext (ed_buffer ed) (cur_row ed) @ ltext (ed_buffer ed) (Suc (cur_row ed))] @
      drop (cur_row ed + 2) (texts (ed_buffer ed)) \<and>
    kill_top ed' = (if ed_last_was_kill ed then kill_top ed else []) @
      nl # ltext (ed_buffer ed) (Suc (cur_row ed)) \<and>
    (\<exists>e b. ed' = e\<lparr>ed_buffer := b\<rparr> \<and> ring_only ed e \<and> join_rows (ed_buffer ed) (cur_row ed) = Some b))"
proof -
  let ?B = "ed_buffer ed" and ?r = "cur_row ed"
  let ?next = "b_lines ?B ! Suc ?r"
  note wfb = wf_editorD(1) [OF wf]
  have nx: "wf_block ?next" "cstr ?next = ltext ?B (Suc ?r)"
    using wf_buffer_line [OF wfb row] by (simp_all add: ltext_def)
  have tk: "take (length (ltext ?B (Suc ?r))) ?next = ltext ?B (Suc ?r)"
    "length (ltext ?B (Suc ?r)) \<le> length ?next"
    using take_cstr [of "length (cstr ?next)" ?next] nx length_cstr_less [OF nx(1)] by simp_all
  have "returns (editor_kill_set ed [nl, 0] 0 1 (ed_last_was_kill ed)) (killed ed [nl] (ed_last_was_kill ed))"
    using editor_kill_set_ok [of ed 0 1 "[nl, 0]" "ed_last_was_kill ed"] wf_editorD(6) [OF wf]
    by (simp add: nl_def)
  then obtain e1 where e1: "editor_kill_set ed [nl, 0] 0 1 (ed_last_was_kill ed) = Some e1"
    "killed ed [nl] (ed_last_was_kill ed) e1" by (rule returnsE)
  have "returns (editor_kill_set e1 ?next 0 (length (ltext ?B (Suc ?r))) True) (killed e1 (ltext ?B (Suc ?r)) True)"
    using editor_kill_set_ok [of e1 0 "length (ltext ?B (Suc ?r))" ?next True] e1(2) tk
    by (simp add: killed_def)
  then obtain e2 where e2: "editor_kill_set e1 ?next 0 (length (ltext ?B (Suc ?r))) True = Some e2"
    "killed e1 (ltext ?B (Suc ?r)) True e2" by (rule returnsE)
  have ro: "ring_only ed e2" "wf_kill_ring e2" "ed_frame e2 = ed_frame ed" "ed_buffer e2 = ?B"
    using killed_trans [OF e1(2) e2(2)] by auto
  have top: "kill_top e2 = (if ed_last_was_kill ed then kill_top ed else []) @ nl # ltext ?B (Suc ?r)"
    using e1(2) e2(2) by (auto simp: killed_def)
  obtain b' where b': "join_rows ?B ?r = Some b'" "wf_buffer b'" "line_count b' = line_count ?B - 1"
    "texts b' = take ?r (texts ?B) @ [ltext ?B ?r @ ltext ?B (Suc ?r)] @ drop (?r + 2) (texts ?B)"
    using join_rows_texts [OF wfb row] by (auto elim: returnsE)
  have k: "kept ed (e2\<lparr>ed_buffer := b'\<rparr>)"
  proof (rule kept_buffer [OF wf act ro(1,2) b'(2)])
    show "cur_row ed < line_count b'" using b'(3) row by simp
    show "in_text (texts b') (cur_row ed) (cur_col ed)" if "calm ed"
      using calm_col [OF that] b'(3) row by (simp add: in_text_def b'(4) nth_append)
  qed
  have "editor_kill_newline_and_next ed = Some (e2\<lparr>ed_buffer := b'\<rparr>)"
    using row e1 e2 b' ro nx by (simp add: editor_kill_newline_and_next_def load_line_eq strlen_eq with_buffer_def)
  moreover have "kill_top (e2\<lparr>ed_buffer := b'\<rparr>) = kill_top e2" by (simp add: kill_top_def)
  ultimately show ?thesis using k ro(1,3) top b'(1,4) by auto
qed

lemma kill_newline_kept:
  assumes "wf_editor ed" "\<not> ed_isearch_active ed"
  shows "returns (editor_kill_newline_and_next ed) (kept ed)"
proof (cases "Suc (cur_row ed) < line_count (ed_buffer ed)")
  case True
  then show ?thesis using kill_newline_ok [OF assms] by (auto elim: returns_mono)
qed (use assms in \<open>simp add: editor_kill_newline_and_next_def kept_refl\<close>)

lemma delete_range_texts:
  assumes "wf_buffer buf" "row < line_count buf" "i < j" "j \<le> length (ltext buf row)"
  shows "returns (buffer_delete_range buf row i j) (\<lambda>b'. wf_buffer b' \<and> line_count b' = line_count buf \<and>
    texts b' = (texts buf)[row := del i j (ltext buf row)])"
proof -
  have m: "min i (length (ltext buf row)) = i" "min j (length (ltext buf row)) = j"
    using assms(3,4) by simp_all
  show ?thesis
    unfolding buffer_delete_range_eq [OF assms(1,2)] Let_def m
    using assms by (simp add: wf_set_line del_def) (simp add: ltext_def)
qed

text \<open>Killing bytes \<open>i\<close> to \<open>j\<close> of the cursor's line: both word kills end like this.\<close>

definition kill_span :: "editor \<Rightarrow> nat \<Rightarrow> nat \<Rightarrow> editor option" where
  "kill_span ed i j = do {
     line \<leftarrow> load_line (ed_buffer ed) (cur_row ed);
     ed \<leftarrow> editor_kill_set ed line i (j - i) (ed_last_was_kill ed);
     with_buffer ed (buffer_delete_range (ed_buffer ed) (cur_row ed) i j)
   }"

definition span_killed :: "editor \<Rightarrow> nat \<Rightarrow> nat \<Rightarrow> editor \<Rightarrow> bool" where
  "span_killed ed i j ed' \<longleftrightarrow>
     texts (ed_buffer ed') =
       (texts (ed_buffer ed))[cur_row ed := del i j (ltext (ed_buffer ed) (cur_row ed))] \<and>
     kill_top ed' = (if ed_last_was_kill ed then kill_top ed else []) @
       slice i j (ltext (ed_buffer ed) (cur_row ed))"

lemma kill_span_ok:
  assumes wf: "wf_editor ed" and "i < j" "j \<le> length (ltext (ed_buffer ed) (cur_row ed))"
  shows "returns (kill_span ed i j) (\<lambda>ed'. \<exists>e1 b'. ed' = e1\<lparr>ed_buffer := b'\<rparr> \<and> ring_only ed e1 \<and>
     wf_kill_ring e1 \<and> wf_buffer b' \<and> line_count b' = line_count (ed_buffer ed) \<and>
     texts b' = (texts (ed_buffer ed))[cur_row ed := del i j (ltext (ed_buffer ed) (cur_row ed))] \<and>
     ed_frame ed' = ed_frame ed \<and> span_killed ed i j ed')"
proof -
  let ?B = "ed_buffer ed" and ?r = "cur_row ed"
  let ?l = "ltext ?B ?r" and ?line = "b_lines ?B ! cur_row ed"
  note wfb = wf_editorD(1,3) [OF wf]
  have ln: "wf_block ?line" "cstr ?line = ?l" using wf_buffer_line [OF wfb] by (simp_all add: ltext_def)
  have j: "j \<le> length (cstr ?line)" using assms(3) ln by simp
  have tk: "take (j - i) (drop i ?line) = slice i j ?l"
    using take_cstr [OF j] assms(2) ln unfolding slice_def
    by (metis drop_take)
  have len: "i + (j - i) \<le> length ?line" using assms j length_cstr_less [OF ln(1)] by simp
  have nn: "0 \<notin> set (slice i j ?l)" by (simp add: slice_def set_take_sub set_drop_sub)
  obtain e1 where e1: "editor_kill_set ed ?line i (j - i) (ed_last_was_kill ed) = Some e1"
    "killed ed (slice i j ?l) (ed_last_was_kill ed) e1"
    using editor_kill_set_ok [OF wf_editorD(6) [OF wf] len, of "ed_last_was_kill ed"] tk nn
    by (auto elim!: returnsE)
  obtain b' where b': "buffer_delete_range ?B ?r i j = Some b'" "wf_buffer b'" "line_count b' = line_count ?B"
    "texts b' = (texts ?B)[?r := del i j ?l]"
    using delete_range_texts [OF wfb assms(2,3)] by (auto elim!: returnsE)
  note k = killedD [OF e1(2)]
  have "slice i j ?l \<noteq> []" using assms by (simp add: slice_def)
  then have top: "kill_top (e1\<lparr>ed_buffer := b'\<rparr>) = (if ed_last_was_kill ed then kill_top ed else []) @ slice i j ?l"
    using e1(2) by (auto simp: killed_def kill_top_def)
  have "kill_span ed i j = Some (e1\<lparr>ed_buffer := b'\<rparr>)"
    using e1(1) b'(1) k wfb by (simp add: kill_span_def load_line_eq with_buffer_def)
  then show ?thesis
    using k b' top by (auto simp: span_killed_def)
qed

lemma kill_word_forward_ok:
  assumes wf: "wf_editor ed" and act: "\<not> ed_isearch_active ed"
  shows "returns (editor_kill_word_forward ed) (\<lambda>ed'. kept ed ed' \<and>
    (cur_col ed < length (ltext (ed_buffer ed) (cur_row ed)) \<longrightarrow>
      (\<exists>c d. forward_stop not_space (ltext (ed_buffer ed) (cur_row ed)) (cur_col ed) c \<and>
         forward_stop not_word_char (ltext (ed_buffer ed) (cur_row ed)) c d \<and>
         (if cur_col ed < d then span_killed ed (cur_col ed) d ed' else ed' = ed))))"
proof (cases "cur_col ed < length (ltext (ed_buffer ed) (cur_row ed))")
  case False
  then show ?thesis
    using kill_newline_kept [OF assms] wf_editorD(1,3) [OF wf]
    by (simp add: editor_kill_word_forward_def load_line_eq line_length_eq Let_def)
next
  case True
  let ?B = "ed_buffer ed" and ?r = "cur_row ed" and ?c = "cur_col ed"
  let ?l = "ltext ?B ?r"
  note wfb = wf_editorD(1,3) [OF wf]
  obtain c where c: "skip_forward not_space (b_lines ?B ! ?r) (length ?l) ?c = Some c" "c \<le> length ?l"
    "?c \<le> c" "forward_stop not_space ?l ?c c"
    using skip_forward_line [OF wfb, of ?c not_space] True by (auto elim!: returnsE)
  obtain d where d: "skip_forward not_word_char (b_lines ?B ! ?r) (length ?l) c = Some d" "d \<le> length ?l"
    "c \<le> d" "forward_stop not_word_char ?l c d"
    using skip_forward_line [OF wfb c(2), of not_word_char] by (auto elim!: returnsE)
  have e: "editor_kill_word_forward ed = (if ?c < d then kill_span ed ?c d else Some ed)"
    using True c d wfb by (simp add: editor_kill_word_forward_def kill_span_def load_line_eq line_length_eq Let_def)
  have "?c < d \<Longrightarrow> kept ed ed'" if ed': "ed' = e1\<lparr>ed_buffer := b'\<rparr>" "ring_only ed e1" "wf_kill_ring e1" "wf_buffer b'"
    "line_count b' = line_count ?B" "texts b' = (texts ?B)[?r := del ?c d ?l]" for ed' e1 b'
    unfolding ed'(1) using wfb(2) d(2) True ed'(5,6)
    by (intro kept_buffer [OF wf act ed'(2-4)]) (auto simp: in_text_def del_def)
  note k = this
  have "returns (kill_span ed ?c d) (\<lambda>ed'. kept ed ed' \<and> span_killed ed ?c d ed')" if "?c < d"
    by (rule returns_mono [OF kill_span_ok [OF wf that d(2)]]) (use k that in blast)
  then have "returns (editor_kill_word_forward ed)
      (\<lambda>ed'. kept ed ed' \<and> (if ?c < d then span_killed ed ?c d ed' else ed' = ed))"
    unfolding e using wf by (simp add: kept_refl)
  then show ?thesis
    using c(4) d(4) by (elim returns_mono) blast
qed

lemma kill_word_backward_ok:
  assumes wf: "wf_editor ed" and act: "\<not> ed_isearch_active ed"
  shows "returns (editor_kill_word_backward ed) (kept ed)"
proof (cases "cur_col ed = 0")
  case True
  let ?p = "cur_row ed - 1"
  note wfb = wf_editorD(1,3) [OF wf]
  show ?thesis
  proof (cases "cur_row ed = 0")
    case False
    let ?e = "set_cursor ?p (length (ltext (ed_buffer ed) ?p)) ed"
    have p: "?p < line_count (ed_buffer ed)" using wfb by simp
    have k: "kept ed ?e"
      using wf act p by (auto simp: state_defs set_cursor_def in_text_def)
    have "returns (editor_kill_newline_and_next ?e) (kept ?e)"
      using kept_wf [OF k] act by (intro kill_newline_kept) (simp_all add: set_cursor_def)
    then have "returns (editor_kill_newline_and_next ?e) (kept ed)"
      by (rule returns_mono) (rule kept_trans [OF k])
    with True False p wfb show ?thesis
      by (simp add: editor_kill_word_backward_def load_line_eq line_length_eq)
  qed (use True wf wfb in \<open>simp add: editor_kill_word_backward_def load_line_eq line_length_eq kept_refl\<close>)
next
  case False
  let ?B = "ed_buffer ed" and ?r = "cur_row ed"
  let ?l = "ltext ?B ?r"
  let ?e = "clamp_bnd ?l (cur_col ed)"
  note wfb = wf_editorD(1,3) [OF wf]
  have el: "?e \<le> length ?l" by (rule clamp_bnd_le)
  obtain c where c: "skip_backward not_space (b_lines ?B ! ?r) ?e = Some c" "c \<le> ?e"
    using skip_backward_line [OF wfb el, of not_space] by (auto elim!: returnsE)
  obtain d where d: "skip_backward not_word_char (b_lines ?B ! ?r) c = Some d" "d \<le> c"
    using skip_backward_line [OF wfb, of c not_word_char] c el by (auto elim!: returnsE)
  have e: "editor_kill_word_backward ed =
      (if d < ?e then do { ed' \<leftarrow> kill_span ed d ?e; Some (set_cursor (cur_row ed') d ed') } else Some ed)"
    using False c d wfb
    by (simp add: editor_kill_word_backward_def kill_span_def load_line_eq line_length_eq clamp_line with_buffer_def)
  have "kept ed (set_cursor (cur_row ed') d ed')" if ed': "ed' = e1\<lparr>ed_buffer := b'\<rparr>" "ring_only ed e1" "wf_kill_ring e1"
    "wf_buffer b'" "line_count b' = line_count ?B" "texts b' = (texts ?B)[?r := del d ?e ?l]" "ed_frame ed' = ed_frame ed"
    for ed' e1 b'
  proof -
    have "kept ed (e1\<lparr>ed_buffer := b', ed_frame := \<lparr>f_row = ?r, f_col = d\<rparr>\<rparr>)"
      using wfb(2) d(2) c(2) el ed'(5,6)
      by (intro kept_edit [OF wf act ed'(2-4)]) (auto simp: in_text_def del_def)
    then show ?thesis by (simp add: set_cursor_def ed'(7)) (simp add: ed'(1))
  qed
  note k = this
  have "returns (kill_span ed d ?e) (\<lambda>ed'. kept ed (set_cursor (cur_row ed') d ed'))" if "d < ?e"
    by (rule returns_mono [OF kill_span_ok [OF wf that el]]) (use k in blast)
  then show ?thesis
    unfolding e using wf by (simp add: kept_refl)
qed

lemma kill_line_ok:
  assumes wf: "wf_editor ed" and act: "\<not> ed_isearch_active ed"
  shows "returns (editor_kill_line ed) (\<lambda>ed'. kept ed ed' \<and>
    (cur_col ed < length (ltext (ed_buffer ed) (cur_row ed)) \<longrightarrow>
       span_killed ed (cur_col ed) (length (ltext (ed_buffer ed) (cur_row ed))) ed'))"
proof (cases "cur_col ed < length (ltext (ed_buffer ed) (cur_row ed))")
  case False
  then show ?thesis
    using kill_newline_kept [OF assms] wf_editorD(1,3) [OF wf] wf
    by (auto simp: editor_kill_line_def line_length_eq kept_refl)
next
  case True
  let ?B = "ed_buffer ed" and ?r = "cur_row ed" and ?c = "cur_col ed"
  let ?l = "ltext ?B ?r" and ?line = "b_lines ?B ! cur_row ed"
  note wfb = wf_editorD(1,3) [OF wf]
  have ln: "wf_block ?line" "cstr ?line = ?l" using wf_buffer_line [OF wfb] by (simp_all add: ltext_def)
  have s: "take (length ?l - ?c) (drop ?c ?line) = slice ?c (length ?l) ?l"
    using take_cstr [of "length ?l" ?line] ln unfolding slice_def by (metis drop_take order_refl)
  have len: "?c + (length ?l - ?c) \<le> length ?line" using True ln length_cstr_less [OF ln(1)] by simp
  have nn: "0 \<notin> set (slice ?c (length ?l) ?l)" by (simp add: slice_def set_take_sub set_drop_sub)
  obtain e1 where e1: "editor_kill_set ed ?line ?c (length ?l - ?c) (ed_last_was_kill ed) = Some e1"
    "killed ed (slice ?c (length ?l) ?l) (ed_last_was_kill ed) e1"
    using editor_kill_set_ok [OF wf_editorD(6) [OF wf] len, of "ed_last_was_kill ed"] s nn
    by (auto elim!: returnsE)
  note k = killedD [OF e1(2)]
  let ?b = "?line[?c := 0]"
  have cl: "?c < length ?line" using True ln length_cstr_less [OF ln(1)] by simp
  obtain r where r: "?line = ?l @ 0 # r" using line_split [OF wfb] by blast
  have "?b = take ?c ?l @ 0 # drop (Suc ?c) ?line"
    using True by (simp add: list_update_split cl r)
  then have b: "wf_block ?b" "cstr ?b = take ?c ?l"
    by (simp_all add: wf_block_def set_take_sub)
  let ?B' = "set_line ?B ?r ?b"
  have wfb': "wf_buffer ?B'" using wfb b by (intro wf_set_line)
  have k': "kept ed (e1\<lparr>ed_buffer := ?B'\<rparr>)"
    using wfb b True by (intro kept_buffer [OF wf act k(1,2) wfb']) (auto simp: in_text_def)
  have "editor_kill_line ed = Some (mark_dirty (e1\<lparr>ed_buffer := ?B'\<rparr>))"
    using True wfb e1(1) cl k by (simp add: editor_kill_line_def line_length_eq load_line_eq store_eq)
  moreover have "slice ?c (length ?l) ?l \<noteq> []" using True by (simp add: slice_def)
  then have "kill_top (e1\<lparr>ed_buffer := ?B'\<rparr>) = (if ed_last_was_kill ed then kill_top ed else []) @ slice ?c (length ?l) ?l"
    using e1(2) by (auto simp: killed_def kill_top_def)
  then have "span_killed ed ?c (length ?l) (mark_dirty (e1\<lparr>ed_buffer := ?B'\<rparr>))"
    using b by (simp add: span_killed_def del_def)
  ultimately show ?thesis using k' by simp
qed

section \<open>Yanking\<close>

lemma type_bytes_wf:
  "wf_buffer b \<Longrightarrow> row < line_count b \<Longrightarrow> 0 \<notin> set data \<Longrightarrow>
   returns (type_bytes buffer_insert_char buffer_insert_newline b row col data)
     (\<lambda>(b', row', col'). wf_buffer b' \<and> row' < line_count b')"
proof (induction data arbitrary: b row col)
  case (Cons ch data)
  note p = buffer_insert_char_texts [OF Cons.prems(1,2), of ch col]
    and k = buffer_insert_newline_texts [OF Cons.prems(1,2), of col]
  show ?case
  proof (cases "ch = nl")
    case True
    from k obtain b' where b': "buffer_insert_newline b row col = Some b'" "wf_buffer b'"
      "line_count b' = line_count b + 1" by (auto elim!: returnsE)
    with True Cons show ?thesis by simp
  next
    case False
    from p Cons.prems obtain b' where b': "buffer_insert_char b row col ch = Some b'" "wf_buffer b'"
      "line_count b' = line_count b" by (auto elim!: returnsE)
    with False Cons show ?thesis by simp
  qed
qed simp

lemma editor_yank_from_ok:
  assumes wf: "wf_editor ed" and act: "\<not> ed_isearch_active ed" and b: "wf_block b"
  shows "returns (editor_yank_from ed (Some b)) (\<lambda>(ed', y). kept ed ed' \<and> y \<and>
    (good_cursor (ed_buffer ed) (ed_frame ed) \<longrightarrow>
       flat (texts (ed_buffer ed')) =
         ins (offset (texts (ed_buffer ed)) (cur_row ed) (cur_col ed)) (cstr b) (flat (texts (ed_buffer ed))) \<and>
       good_cursor (ed_buffer ed') (ed_frame ed') \<and>
       offset (texts (ed_buffer ed')) (cur_row ed') (cur_col ed') =
         offset (texts (ed_buffer ed)) (cur_row ed) (cur_col ed) + length (cstr b)))"
proof -
  let ?B = "ed_buffer ed"
  note wfb = wf_editorD(1,3) [OF wf]
  obtain b' r c where t: "type_bytes buffer_insert_char buffer_insert_newline ?B (cur_row ed) (cur_col ed) (cstr b) =
      Some (b', r, c)" "wf_buffer b'" "r < line_count b'"
    using type_bytes_wf [OF wfb cstr_no_nul [of b], of "cur_col ed"] by (auto elim!: returnsE)
  have f: "flat (texts b') = ins (offset (texts ?B) (cur_row ed) (cur_col ed)) (cstr b) (flat (texts ?B)) \<and>
      in_text (texts b') r c \<and> offset (texts b') r c = offset (texts ?B) (cur_row ed) (cur_col ed) + length (cstr b)"
    if "good_cursor ?B (ed_frame ed)"
    using ved.type_bytes_ins [OF wfb(1) that [unfolded good_cursor_in_text] cstr_no_nul [of b]] t(1)
    by (auto elim!: returnsE)
  let ?e = "(set_cursor r c ed)\<lparr>ed_buffer := b', ed_yank_start_row := cur_row ed, ed_yank_start_col := cur_col ed,
      ed_yank_end_row := r, ed_yank_end_col := c\<rparr>"
  have "kept ed ?e"
    using wf act t f by (auto simp: state_defs set_cursor_def)
  moreover have "editor_yank_from ed (Some b) = Some (mark_dirty ?e, True)"
    using t(1) b by (simp add: editor_yank_from_def c_string_eq)
  ultimately show ?thesis
    using f by (simp add: good_cursor_in_text) (simp add: set_cursor_def)
qed

lemma editor_yank_ok:
  assumes wf: "wf_editor ed" and act: "\<not> ed_isearch_active ed"
  shows "returns (editor_yank ed) (\<lambda>(ed', y). kept ed ed')"
proof (cases "ed_kill_ring_len ed = 0")
  case False
  with wf_editorD(6) [OF wf] obtain b where "ed_kill_ring ed ! ed_kill_ring_index ed = Some b" "wf_block b"
    "ed_kill_ring_index ed < length (ed_kill_ring ed)"
    by (auto simp: wf_kill_ring_def)
  with False editor_yank_from_ok [OF assms, of b] show ?thesis
    by (auto simp: editor_yank_def load_eq elim!: returns_mono)
qed (use wf in \<open>simp add: editor_yank_def kept_refl\<close>)

section \<open>Copying and killing the region\<close>

lemma osc52_ok:
  assumes "len \<le> length data"
  shows "osc52_set_clipboard ed data len = Some (ed\<lparr>ed_tty := ed_tty ed @ [27] @ bytes_of '']52;c;'' @
    b64_text (take len data) @ [7]\<rparr>)"
proof -
  have "c_string (b64_text (take len data) @ [0]) = Some (b64_text (take len data))"
    using cstr_append_nul [OF b64_text_no_nul, of "take len data" "[]"]
    by (simp add: c_string_eq wf_block_def del: cstr_append_nul)
  with assms show ?thesis by (simp add: osc52_set_clipboard_def base64_encode_text)
qed

text \<open>
  With the mark in the text, \<open>C-w\<close> removes the region from the text, puts exactly its bytes on the
  kill ring (behind the last kill, if the last command was one) and sends them to the terminal.
\<close>

lemma editor_kill_region_ok:
  assumes wf: "wf_editor ed" and act: "\<not> ed_isearch_active ed"
    and reg: "editor_get_region ed = Some (sr, sc, er, ec)"
    and inn: "in_text (texts (ed_buffer ed)) sr sc" "in_text (texts (ed_buffer ed)) er ec"
  shows "returns (editor_kill_region ed) (\<lambda>(ed', k). kept ed ed' \<and> k \<and>
    kill_top ed' = (if ed_last_was_kill ed then kill_top ed else []) @ region_text ed sr sc er ec \<and>
    flat (texts (ed_buffer ed')) = del (offset (texts (ed_buffer ed)) sr sc)
      (offset (texts (ed_buffer ed)) er ec) (flat (texts (ed_buffer ed))) \<and>
    in_text (texts (ed_buffer ed')) sr sc \<and> ed_frame ed' = \<lparr>f_row = sr, f_col = sc\<rparr> \<and>
    offset (texts (ed_buffer ed')) sr sc = offset (texts (ed_buffer ed)) sr sc \<and>
    \<not> ed_mark_active ed' \<and>
    ed_tty ed' = ed_tty ed @ [27] @ bytes_of '']52;c;'' @ b64_text (region_text ed sr sc er ec) @ [7])"
proof -
  let ?B = "ed_buffer ed" and ?t = "region_text ed sr sc er ec"
  note wfb = wf_editorD(1) [OF wf]
  note c = copy_region_ok [OF wfb reg inn]
  obtain e1 where e1: "editor_kill_set ed (?t @ [0]) 0 (length ?t) (ed_last_was_kill ed) = Some e1"
    "killed ed ?t (ed_last_was_kill ed) e1"
    using editor_kill_set_ok [of ed 0 "length ?t" "?t @ [0]" "ed_last_was_kill ed"] wf_editorD(6) [OF wf]
      region_text_no_nul by (auto elim!: returnsE)
  note k = killedD [OF e1(2)]
  have "Pos sr sc \<le> Pos er ec" using editor_get_region_SomeD(2) [OF reg] by simp
  then obtain b' where b': "buffer_delete_region ?B sr sc er ec = Some b'" "wf_buffer b'"
    "flat (texts b') = del (offset (texts ?B) sr sc) (offset (texts ?B) er ec) (flat (texts ?B))"
    "in_text (texts b') sr sc" "offset (texts b') sr sc = offset (texts ?B) sr sc"
    using ved.cut_law [OF wfb inn] by (auto elim!: returnsE)
  let ?tty = "ed_tty ed @ [27] @ bytes_of '']52;c;'' @ b64_text ?t @ [7]"
  have o: "osc52_set_clipboard e1 (?t @ [0]) (length ?t) = Some (e1\<lparr>ed_tty := ?tty\<rparr>)"
    using osc52_ok [of "length ?t" "?t @ [0]" e1] ring_only_sel(5) [OF k(1)] by simp
  let ?e = "e1\<lparr>ed_buffer := b', ed_frame := \<lparr>f_row = sr, f_col = sc\<rparr>\<rparr>"
  have "kept ed ?e"
    using b'(4) by (intro kept_edit [OF wf act k(1,2) b'(2)]) (auto dest: in_text_row)
  then have k2: "kept ed (?e\<lparr>ed_tty := ?tty, ed_mark_active := False\<rparr>)"
    by (intro kept_unmark) simp
  have r: "editor_kill_region ed =
      Some ((mark_dirty (?e\<lparr>ed_tty := ?tty\<rparr>))\<lparr>ed_mark_active := False\<rparr>, True)"
    using reg c(1) e1(1) o b'(1) k
    by (simp add: editor_kill_region_def with_buffer_def set_cursor_def mark_dirty_def)
  have m: "(mark_dirty (?e\<lparr>ed_tty := ?tty\<rparr>))\<lparr>ed_mark_active := False\<rparr> =
      mark_dirty (?e\<lparr>ed_tty := ?tty, ed_mark_active := False\<rparr>)" by (simp add: mark_dirty_def)
  have top: "kill_top (?e\<lparr>ed_tty := ?tty, ed_mark_active := False\<rparr>) = kill_top e1"
    by (simp add: kill_top_def)
  show ?thesis
    unfolding r m using k2 b' top e1(2) c(2) by (simp add: killed_def) (simp add: mark_dirty_def)
qed

lemma editor_copy_region_ok:
  assumes wf: "wf_editor ed"
    and reg: "editor_get_region ed = Some (sr, sc, er, ec)"
    and inn: "in_text (texts (ed_buffer ed)) sr sc" "in_text (texts (ed_buffer ed)) er ec"
  shows "returns (editor_copy_region ed) (\<lambda>(ed', k). kept ed ed' \<and> k \<and>
    kill_top ed' = region_text ed sr sc er ec \<and> ed_buffer ed' = ed_buffer ed \<and> ed_frame ed' = ed_frame ed)"
proof -
  let ?B = "ed_buffer ed" and ?t = "region_text ed sr sc er ec"
  note wfb = wf_editorD(1) [OF wf]
  note c = copy_region_ok [OF wfb reg inn]
  obtain e1 where e1: "editor_kill_set ed (?t @ [0]) 0 (length ?t) False = Some e1" "killed ed ?t False e1"
    using editor_kill_set_ok [of ed 0 "length ?t" "?t @ [0]" False] wf_editorD(6) [OF wf]
      region_text_no_nul by (auto elim!: returnsE)
  note k = killedD [OF e1(2)]
  obtain r n i where e: "e1 = ed\<lparr>ed_kill_ring := r, ed_kill_ring_len := n, ed_kill_ring_index := i\<rparr>"
    using k(1) by (auto simp: ring_only_def)
  obtain t where o: "osc52_set_clipboard e1 (?t @ [0]) (length ?t) = Some (e1\<lparr>ed_tty := t\<rparr>)"
    using osc52_ok [of "length ?t" "?t @ [0]" e1] by simp
  have "kept ed (e1\<lparr>ed_tty := t, ed_mark_active := False\<rparr>)"
    using wf k(2) unfolding e by (auto simp: state_defs)
  moreover have "kill_top (e1\<lparr>ed_tty := t, ed_mark_active := False\<rparr>) = ?t"
    using e1(2) c(2) by (simp add: killed_def)
  ultimately show ?thesis
    using c(1) e1(1) o k by (simp add: editor_copy_region_def)
qed

section \<open>Regions with a stale mark\<close>

text \<open>
  The mark is not moved by edits, so it may lie behind the end of its line or of the buffer. A
  region command may then read out of bounds; when it does not, it still keeps the invariant.
\<close>

text \<open>One row: the loop goes on with a string, which is not empty if this was not the last row.\<close>

lemma region_loop_step:
  assumes wf: "wf_buffer buf" and h: "holds_text out acc" and n: "out_len = length acc" and no: "0 \<notin> set acc"
    and row: "row \<le> er" and slots: "row < b_slots buf"
  shows "\<exists>out' acc'. region_loop buf sr sc er ec row out out_len = region_loop buf sr sc er ec (row + 1) out' (length acc') \<and>
    holds_text out' acc' \<and> 0 \<notin> set acc' \<and> (out \<noteq> None \<or> row < er \<longrightarrow> out' \<noteq> None)"
proof -
  obtain len where len: "line_length buf row = Some len" "row < line_count buf \<Longrightarrow> len = length (ltext buf row)"
    "line_count buf \<le> row \<Longrightarrow> len = 0"
    using line_length_eq [OF wf, of row] line_length_beyond [of buf row] by (cases "row < line_count buf") auto
  let ?f = "region_from row sr sc len" and ?t = "region_to row er ec len"
  have t: "?t \<le> len" by (simp add: region_to_def)
  define k where "k = ?t - ?f"
  define acc1 where "acc1 = (if ?f < ?t then acc @ take k (drop ?f (ltext buf row)) else acc)"
  define out1 where "out1 = (if ?f < ?t then Some (acc1 @ [0]) else out)"
  have h1: "holds_text out1 acc1" "0 \<notin> set acc1"
    using h no by (auto simp: holds_text_def acc1_def out1_def set_take_sub set_drop_sub dest!: in_set_takeD in_set_dropD)
  have copy: "(if ?t > ?f then do { line \<leftarrow> load_line buf row; region_put out out_len line ?f (?t - ?f) }
      else Some (out, out_len)) = Some (out1, length acc1)"
  proof (cases "?f < ?t")
    case True
    then have row: "row < line_count buf" using t len(3) by (metis leI less_nat_zero_code order_less_le_trans)
    obtain r where line: "b_lines buf ! row = ltext buf row @ 0 # r" using line_split [OF wf row] by blast
    have b: "?f + (?t - ?f) \<le> length (b_lines buf ! row)"
      using t len(2) [OF row] True by (simp add: line)
    have tk: "take (?t - ?f) (drop ?f (b_lines buf ! row)) = take k (drop ?f (ltext buf row))"
      using t len(2) [OF row] True by (simp add: line k_def)
    have "length (take k (drop ?f (ltext buf row))) = ?t - ?f"
      using t len(2) [OF row] True by (simp add: k_def)
    with True row n region_put_eq [OF h b] tk show ?thesis
      by (simp add: load_line_eq acc1_def out1_def)
  qed (use n in \<open>simp add: acc1_def out1_def\<close>)
  define acc2 where "acc2 = (if row < er then acc1 @ [nl] else acc1)"
  define out2 where "out2 = (if row < er then Some (acc2 @ [0]) else out1)"
  have h2: "holds_text out2 acc2" "0 \<notin> set acc2"
    using h1 by (auto simp: holds_text_def acc2_def out2_def nl_def)
  have "region_loop buf sr sc er ec row out out_len = region_loop buf sr sc er ec (row + 1) out2 (length acc2)"
    using row slots len(1) copy region_newline_eq [OF h1(1)]
    by (subst region_loop.simps) (simp add: Let_def acc2_def out2_def)
  moreover have "out \<noteq> None \<or> row < er \<longrightarrow> out2 \<noteq> None" by (simp add: out2_def out1_def)
  ultimately show ?thesis using h2 by blast
qed

text \<open>So it ends in a string, or fails at the first row that the array has no entry for.\<close>

lemma region_loop_holds:
  assumes "wf_buffer buf"
  shows "holds_text out acc \<Longrightarrow> out_len = length acc \<Longrightarrow> 0 \<notin> set acc \<Longrightarrow>
    region_loop buf sr sc er ec row out out_len = Some (out', n) \<Longrightarrow>
    \<exists>acc'. holds_text out' acc' \<and> n = length acc' \<and> 0 \<notin> set acc'"
proof (induction "Suc er - row" arbitrary: row out acc out_len)
  case 0
  then show ?case by (auto simp: region_loop.simps [of _ _ _ _ _ row])
next
  case (Suc m)
  then have "row < b_slots buf" "row \<le> er"
    by (auto simp: region_loop.simps [of _ _ _ _ _ row] split: if_splits)
  with region_loop_step [OF assms Suc.prems(1-3), of row er sr sc ec] Suc.prems(4) obtain out2 acc2 where
    "region_loop buf sr sc er ec (row + 1) out2 (length acc2) = Some (out', n)"
    "holds_text out2 acc2" "0 \<notin> set acc2" by auto
  with Suc.hyps(1) [of "row + 1" out2 acc2] Suc.hyps(2) show ?case by simp
qed

lemma region_loop_slots:
  assumes "wf_buffer buf"
  shows "holds_text out acc \<Longrightarrow> out_len = length acc \<Longrightarrow> 0 \<notin> set acc \<Longrightarrow> row \<le> Suc er \<Longrightarrow>
    (out = None \<longrightarrow> row < er) \<Longrightarrow>
    if er < b_slots buf \<or> er < row then returns (region_loop buf sr sc er ec row out out_len) (\<lambda>(out', n). out' \<noteq> None)
    else region_loop buf sr sc er ec row out out_len = None"
proof (induction "Suc er - row" arbitrary: row out acc out_len)
  case 0
  then show ?case by (auto simp: region_loop.simps [of _ _ _ _ _ row])
next
  case (Suc m)
  then have row: "row \<le> er" by simp
  show ?case
  proof (cases "row < b_slots buf")
    case False
    with row show ?thesis by (simp add: region_loop.simps [of _ _ _ _ _ row])
  next
    case True
    from region_loop_step [OF assms Suc.prems(1-3) row True, of sr sc ec] obtain out2 acc2 where st:
      "region_loop buf sr sc er ec row out out_len = region_loop buf sr sc er ec (row + 1) out2 (length acc2)"
      "holds_text out2 acc2" "0 \<notin> set acc2" "out \<noteq> None \<or> row < er \<longrightarrow> out2 \<noteq> None" by blast
    from Suc.hyps(1) [OF _ st(2) refl st(3), of "row + 1"] Suc.hyps(2) Suc.prems(4,5) row st(4)
    show ?thesis unfolding st(1) using True by (auto split: if_splits)
  qed
qed

lemma copy_region_holds:
  assumes "wf_buffer (ed_buffer ed)" "editor_copy_region_text ed = Some (Some region, n)"
  shows "\<exists>t. region = t @ [0] \<and> n = length t \<and> 0 \<notin> set t"
proof -
  from assms(2) obtain sr sc er ec where
    "region_loop (ed_buffer ed) sr sc er ec sr None 0 = Some (Some region, n)"
    by (auto simp: editor_copy_region_text_def split: option.splits)
  from region_loop_holds [OF assms(1) _ _ _ this, of "[]"] show ?thesis
    by (auto simp: holds_text_def)
qed

lemma delete_region_wf:
  assumes "wf_buffer buf" "Pos sr sc < Pos er ec" "sr < line_count buf"
  shows "returns (buffer_delete_region buf sr sc er ec) (\<lambda>b'. wf_buffer b' \<and> sr < line_count b')"
proof (cases "er < line_count buf")
  case True
  have ord: "\<not> (er < sr \<or> sr = er \<and> ec < sc)" using assms(2) by (auto simp: less_pos_def)
  show ?thesis
  proof (cases "sr = er")
    case True
    with assms \<open>er < line_count buf\<close> ord show ?thesis
      by (auto simp: buffer_delete_region_def buffer_delete_ordered_def buffer_delete_range_eq Let_def
          intro: wf_set_line)
  next
    case False
    with ord have "sr < er" by auto
    with assms True ord show ?thesis
      by (auto simp: buffer_delete_region_def buffer_delete_ordered_rows_eq Let_def wf_buffer_def wf_block_def
          dest: in_set_takeD in_set_dropD)
  qed
qed (use assms in \<open>simp add: buffer_delete_region_def\<close>)

lemma region_start_row:
  assumes "wf_editor ed" "editor_get_region ed = Some (sr, sc, er, ec)"
  shows "sr < line_count (ed_buffer ed)"
  using editor_get_region_SomeD [OF assms(2)] wf_editorD(3) [OF assms(1)]
  by (auto simp: less_pos_def)

lemma editor_copy_region_wf:
  assumes wf: "wf_editor ed" and r: "editor_copy_region ed = Some (ed', k)"
  shows "kept ed ed'"
proof -
  from r obtain out n where c: "editor_copy_region_text ed = Some (out, n)"
    by (auto simp: editor_copy_region_def bind_eq_Some_conv)
  show ?thesis
  proof (cases out)
    case None
    with r c wf show ?thesis by (simp add: editor_copy_region_def kept_refl)
  next
    case (Some region)
    obtain t where t: "region = t @ [0]" "n = length t" "0 \<notin> set t"
      using copy_region_holds [OF wf_editorD(1) [OF wf]] c Some by blast
    obtain e1 where e1: "editor_kill_set ed region 0 n False = Some e1" "killed ed t False e1"
      using editor_kill_set_ok [of ed 0 n region False] wf_editorD(6) [OF wf] t by (auto elim!: returnsE)
    note kd = killedD [OF e1(2)]
    obtain rg m i where e: "e1 = ed\<lparr>ed_kill_ring := rg, ed_kill_ring_len := m, ed_kill_ring_index := i\<rparr>"
      using kd(1) by (auto simp: ring_only_def)
    obtain ty where o: "osc52_set_clipboard e1 region n = Some (e1\<lparr>ed_tty := ty\<rparr>)"
      using osc52_ok [of n region e1] t by simp
    have "ed' = e1\<lparr>ed_tty := ty, ed_mark_active := False\<rparr>"
      using r c Some e1(1) o by (simp add: editor_copy_region_def)
    with wf kd(2) show ?thesis unfolding e by (auto simp: state_defs)
  qed
qed

lemma editor_kill_region_wf:
  assumes wf: "wf_editor ed" and act: "\<not> ed_isearch_active ed"
    and r: "editor_kill_region ed = Some (ed', k)"
  shows "wf_editor ed' \<and> (ed_mark_active ed' \<longrightarrow> ed_mark_active ed)"
proof (cases "editor_get_region ed")
  case None
  with r wf show ?thesis by (simp add: editor_kill_region_def)
next
  case (Some reg)
  obtain sr sc er ec where reg: "reg = (sr, sc, er, ec)" by (cases reg)
  with Some r obtain out n where c: "editor_copy_region_text ed = Some (out, n)"
    by (auto simp: editor_kill_region_def bind_eq_Some_conv)
  show ?thesis
  proof (cases out)
    case None
    with r c wf Some reg show ?thesis by (simp add: editor_kill_region_def)
  next
    case (Some region)
    obtain t where t: "region = t @ [0]" "n = length t" "0 \<notin> set t"
      using copy_region_holds [OF wf_editorD(1) [OF wf]] c Some by blast
    obtain e1 where e1: "editor_kill_set ed region 0 n (ed_last_was_kill ed) = Some e1"
      "killed ed t (ed_last_was_kill ed) e1"
      using editor_kill_set_ok [of ed 0 n region "ed_last_was_kill ed"] wf_editorD(6) [OF wf] t
      by (auto elim!: returnsE)
    note kd = killedD [OF e1(2)]
    obtain rg m i where e: "e1 = ed\<lparr>ed_kill_ring := rg, ed_kill_ring_len := m, ed_kill_ring_index := i\<rparr>"
      using kd(1) by (auto simp: ring_only_def)
    obtain ty where o: "osc52_set_clipboard e1 region n = Some (e1\<lparr>ed_tty := ty\<rparr>)"
      using osc52_ok [of n region e1] t by simp
    have g: "editor_get_region ed = Some (sr, sc, er, ec)" using \<open>editor_get_region ed = Some reg\<close> reg by simp
    obtain b' where b': "buffer_delete_region (ed_buffer ed) sr sc er ec = Some b'" "wf_buffer b'" "sr < line_count b'"
      using delete_region_wf [OF wf_editorD(1) [OF wf] editor_get_region_SomeD(2) [OF g] region_start_row [OF wf g]]
      by (auto elim!: returnsE)
    have "ed' = (mark_dirty (set_cursor sr sc ((e1\<lparr>ed_tty := ty\<rparr>)\<lparr>ed_buffer := b'\<rparr>)))\<lparr>ed_mark_active := False\<rparr>"
      using r c Some e1(1) o g b'(1) kd by (simp add: editor_kill_region_def with_buffer_def)
    with wf act kd(2) b' show ?thesis
      unfolding e by (auto simp: state_defs mark_dirty_def set_cursor_def)
  qed
qed

text \<open>
  A mark behind the last line. If the line array still has an entry for its row, a kill puts the text
  up to the end and the newlines of the missing rows into the ring and deletes nothing; otherwise
  the copy reads behind the array.
\<close>

lemma stale_region:
  assumes wf: "wf_editor ed" and mark: "ed_mark_active ed" "line_count (ed_buffer ed) \<le> ed_mark_row ed"
  shows "editor_get_region ed = Some (cur_row ed, cur_col ed, ed_mark_row ed, ed_mark_col ed)"
    "if ed_mark_row ed < b_slots (ed_buffer ed) then returns (editor_copy_region_text ed) (\<lambda>(out, n). out \<noteq> None)
     else editor_copy_region_text ed = None"
proof -
  have lt: "cur_row ed < ed_mark_row ed" using wf_editorD(3) [OF wf] mark(2) by (simp add: good_row_def)
  then show g: "editor_get_region ed = Some (cur_row ed, cur_col ed, ed_mark_row ed, ed_mark_col ed)"
    using mark(1) by (simp add: editor_get_region_def pos_compare_def)
  show "if ed_mark_row ed < b_slots (ed_buffer ed) then returns (editor_copy_region_text ed) (\<lambda>(out, n). out \<noteq> None)
     else editor_copy_region_text ed = None"
    using region_loop_slots [OF wf_editorD(1) [OF wf], of None "[]" 0 "cur_row ed" "ed_mark_row ed" "cur_row ed"
        "cur_col ed" "ed_mark_col ed"] lt
    by (simp add: editor_copy_region_text_def g holds_text_def del: not_None_eq)
qed

lemma stale_mark_fails:
  assumes "wf_editor ed" "ed_mark_active ed" "line_count (ed_buffer ed) \<le> ed_mark_row ed"
    and "b_slots (ed_buffer ed) \<le> ed_mark_row ed"
  shows "editor_kill_region ed = None" "editor_copy_region ed = None"
  using stale_region [OF assms(1-3)] assms(4)
  by (simp_all add: editor_kill_region_def editor_copy_region_def)

lemma stale_mark_kills_nothing:
  assumes wf: "wf_editor ed" and mark: "ed_mark_active ed" "line_count (ed_buffer ed) \<le> ed_mark_row ed"
    and slots: "ed_mark_row ed < b_slots (ed_buffer ed)"
  shows "returns (editor_kill_region ed) (\<lambda>(ed', k). k \<and> texts (ed_buffer ed') = texts (ed_buffer ed) \<and>
    ed_frame ed' = ed_frame ed \<and> \<not> ed_mark_active ed')"
proof -
  note g = stale_region [OF wf mark]
  from g(2) slots obtain region n where c: "editor_copy_region_text ed = Some (Some region, n)"
    by (auto elim!: returnsE)
  obtain t where t: "region = t @ [0]" "n = length t" "0 \<notin> set t"
    using copy_region_holds [OF wf_editorD(1) [OF wf] c] by blast
  obtain e1 where e1: "editor_kill_set ed region 0 n (ed_last_was_kill ed) = Some e1"
    "killed ed t (ed_last_was_kill ed) e1"
    using editor_kill_set_ok [of ed 0 n region "ed_last_was_kill ed"] wf_editorD(6) [OF wf] t
    by (auto elim!: returnsE)
  note kd = killedD [OF e1(2)]
  obtain rg m i where e: "e1 = ed\<lparr>ed_kill_ring := rg, ed_kill_ring_len := m, ed_kill_ring_index := i\<rparr>"
    using kd(1) by (auto simp: ring_only_def)
  obtain ty where o: "osc52_set_clipboard e1 region n = Some (e1\<lparr>ed_tty := ty\<rparr>)"
    using osc52_ok [of n region e1] t by simp
  have d: "buffer_delete_region (ed_buffer ed) (cur_row ed) (cur_col ed) (ed_mark_row ed) (ed_mark_col ed) = Some (ed_buffer ed)"
    using mark(2) by (simp add: buffer_delete_region_def)
  show ?thesis
    using c g(1) e1(1) o d kd by (simp add: editor_kill_region_def with_buffer_def e mark_dirty_def set_cursor_def)
qed

end
