(* ===== verification/Output.thy ===== *)
theory Output
  imports Utf8
begin

text \<open>
  The output side of \<open>src/render.c\<close>: the growing buffer \<open>AppendBuf\<close>, the helpers that append to it,
  and \<open>write_all\<close>, which \<open>src/input.c\<close> has a copy of. The allocation behind the buffer is a block
  of \<open>ab_cap\<close> bytes, so that every \<open>memcpy\<close> and the closing NUL are checked accesses. A frame is
  drawn by a long sequence of appends; the locale \<open>sink\<close> says what an append does to the text, and
  \<open>emits\<close> composes it.
\<close>

section \<open>The buffer\<close>

record append_buf =
  ab_data :: block
  ab_len :: nat
  ab_cap :: nat

definition ab_init :: append_buf where
  "ab_init = \<lparr>ab_data = [], ab_len = 0, ab_cap = 0\<rparr>"

definition ab_free :: "append_buf \<Rightarrow> append_buf" where
  "ab_free ab = ab\<lparr>ab_data := [], ab_len := 0, ab_cap := 0\<rparr>"

text \<open>\<open>while (next < needed) next *= 2;\<close>, a loop that would not end from 0.\<close>

partial_function (option) grow_to :: "nat \<Rightarrow> nat \<Rightarrow> nat option" where
  "grow_to next needed = (if next < needed then grow_to (next * 2) needed else Some next)"

text \<open>The first part of \<open>ab_append\<close>, up to the \<open>realloc\<close>.\<close>

definition ab_reserve :: "append_buf \<Rightarrow> nat \<Rightarrow> append_buf option" where
  "ab_reserve ab needed =
     (if needed > ab_cap ab then do {
        next \<leftarrow> grow_to (if ab_cap ab \<noteq> 0 then ab_cap ab * 2 else 256) needed;
        Some (ab\<lparr>ab_data := realloc (ab_data ab) next, ab_cap := next\<rparr>)
      } else Some ab)"

definition ab_append :: "append_buf \<Rightarrow> block \<Rightarrow> nat \<Rightarrow> append_buf option" where
  "ab_append ab data len =
     (if len = 0 then Some ab
      else do {
        ab \<leftarrow> ab_reserve ab (ab_len ab + len + 1);
        d \<leftarrow> memcpy (ab_data ab) (ab_len ab) data 0 len;
        d \<leftarrow> store d (ab_len ab + len) 0;
        Some (ab\<lparr>ab_data := d, ab_len := ab_len ab + len\<rparr>)
      })"

text \<open>A literal or another C string: \<open>strlen\<close> bytes of it.\<close>

definition ab_append_str :: "append_buf \<Rightarrow> byte list \<Rightarrow> append_buf option" where
  "ab_append_str ab str = ab_append ab str (length str)"

definition ab_append_char :: "append_buf \<Rightarrow> byte \<Rightarrow> append_buf option" where
  "ab_append_char ab ch = ab_append ab [ch] 1"

fun ab_append_repeat :: "append_buf \<Rightarrow> byte list \<Rightarrow> nat \<Rightarrow> append_buf option" where
  "ab_append_repeat ab str 0 = Some ab"
| "ab_append_repeat ab str (Suc count) = do {
     ab \<leftarrow> ab_append_str ab str;
     ab_append_repeat ab str count
   }"

text \<open>\<open>%d\<close> and \<open>%zu\<close> of \<open>snprintf\<close>.\<close>

fun dec_nat :: "nat \<Rightarrow> byte list" where
  "dec_nat n = (if n < 10 then [of_nat (48 + n)] else dec_nat (n div 10) @ [of_nat (48 + n mod 10)])"

declare dec_nat.simps [simp del]

definition dec_int :: "int \<Rightarrow> byte list" where
  "dec_int i = (if i < 0 then 45 # dec_nat (nat (- i)) else dec_nat (nat i))"

definition csi :: "byte list \<Rightarrow> byte list" where
  "csi s = [27, 91] @ s"

definition move_cursor_text :: "int \<Rightarrow> int \<Rightarrow> byte list" where
  "move_cursor_text row col = csi (dec_int row @ [59] @ dec_int col @ [72])"

definition ab_move_cursor :: "append_buf \<Rightarrow> int \<Rightarrow> int \<Rightarrow> append_buf option" where
  "ab_move_cursor ab row col = ab_append_str ab (take 31 (move_cursor_text row col))"

definition ab_append_padded :: "append_buf \<Rightarrow> byte list \<Rightarrow> nat \<Rightarrow> append_buf option" where
  "ab_append_padded ab str width = do {
     let len = length str;
     let len = (if len > width then width else len);
     ab \<leftarrow> (if len > 0 then ab_append ab str len else Some ab);
     ab_append_repeat ab [32] (width - len)
   }"

text \<open>\<open>data\<close> is a pointer into a line: the block and the offset \<open>off\<close> in it.\<close>

fun ab_append_expanding_tabs ::
  "append_buf \<Rightarrow> block \<Rightarrow> nat \<Rightarrow> nat \<Rightarrow> nat \<Rightarrow> append_buf option" where
  "ab_append_expanding_tabs ab line off 0 col = Some ab"
| "ab_append_expanding_tabs ab line off (Suc len) col = do {
     ch \<leftarrow> load line off;
     if ch = 9 then do {
       ab \<leftarrow> ab_append_repeat ab [32] (tab_width_at col);
       ab_append_expanding_tabs ab line (off + 1) len (col + tab_width_at col)
     }
     else do {
       ab \<leftarrow> ab_append_char ab ch;
       ab_append_expanding_tabs ab line (off + 1) len (col + 1)
     }
   }"

section \<open>Writing it out\<close>

text \<open>
  What one \<open>write\<close> (and the \<open>poll\<close> after it) does. \<open>written == 0\<close> and an error other than
  \<open>EINTR\<close>, \<open>EAGAIN\<close> and \<open>EWOULDBLOCK\<close> leave the loop. The loop takes the results of the calls one
  by one; \<open>None\<close> is a loop that is still waiting when they end.
\<close>

datatype write_result = Wrote nat | Interrupted | Would_block | Write_error

fun write_all_loop :: "write_result list \<Rightarrow> byte list \<Rightarrow> nat \<Rightarrow> byte list option" where
  "write_all_loop [] data off = (if off < length data then None else Some [])"
| "write_all_loop (w # ws) data off =
     (if off < length data then
        (case w of
           Wrote n \<Rightarrow>
             if n > 0 then do {
               out \<leftarrow> write_all_loop ws data (off + n);
               Some (take n (drop off data) @ out)
             } else Some []
         | Interrupted \<Rightarrow> write_all_loop ws data off
         | Would_block \<Rightarrow> write_all_loop ws data off
         | Write_error \<Rightarrow> Some [])
      else Some [])"

definition write_all :: "write_result list \<Rightarrow> block \<Rightarrow> nat \<Rightarrow> byte list option" where
  "write_all ws data len = write_all_loop ws (take len data) 0"

text \<open>Whatever the calls return, what reaches the terminal is a prefix of the data.\<close>

lemma write_all_loop_prefix:
  "write_all_loop ws data off = Some out \<Longrightarrow> \<exists>k. out = take k (drop off data)"
proof (induction ws data off arbitrary: out rule: write_all_loop.induct)
  case (1 data off)
  then have "out = take 0 (drop off data)" by (simp split: if_splits)
  then show ?case by blast
next
  case (2 w ws data off)
  show ?case
  proof (cases "\<exists>n. w = Wrote n \<and> 0 < n \<and> off < length data")
    case True
    then obtain n where n: "w = Wrote n" "0 < n" "off < length data" by blast
    with 2(4) obtain o' where o': "write_all_loop ws data (off + n) = Some o'"
      "out = take n (drop off data) @ o'" by (auto simp: bind_eq_Some_conv)
    with 2(1) n obtain k where "o' = take k (drop (off + n) data)" by blast
    with o' have "out = take (n + k) (drop off data)"
      by (simp only: take_add drop_drop add.commute [of off])
    then show ?thesis by blast
  next
    case False
    with 2 show ?thesis
      by (cases "off < length data"; cases w) (auto intro: exI [of _ "0 :: nat"])
  qed
qed

text \<open>All of it, once the calls have taken that many bytes without an error.\<close>

fun progress :: "write_result list \<Rightarrow> nat" where
  "progress [] = 0"
| "progress (Wrote n # ws) = n + progress ws"
| "progress (_ # ws) = progress ws"

lemma write_all_loop_complete:
  "Write_error \<notin> set ws \<Longrightarrow> Wrote 0 \<notin> set ws \<Longrightarrow> length data \<le> off + progress ws \<Longrightarrow>
   write_all_loop ws data off = Some (drop off data)"
proof (induction ws data off rule: write_all_loop.induct)
  case (2 w ws data off)
  have e: "take n (drop off data) @ drop (off + n) data = drop off data" for n
    by (metis add.commute append_take_drop_id drop_drop)
  show ?case
  proof (cases "off < length data")
    case True
    with 2 show ?thesis by (cases w) (auto simp: add.assoc e)
  qed (use 2 in simp)
qed simp

section \<open>Drawing by appends\<close>

text \<open>
  The contract of an output: putting \<open>len\<close> bytes appends them to the text. What a drawing function
  emits is then the concatenation of what its parts emit.
\<close>

locale sink =
  fixes ok :: "'s \<Rightarrow> bool" and tx :: "'s \<Rightarrow> byte list" and put :: "'s \<Rightarrow> block \<Rightarrow> nat \<Rightarrow> 's option"
  assumes put_law: "ok s \<Longrightarrow> len \<le> length data \<Longrightarrow>
    returns (put s data len) (\<lambda>s'. ok s' \<and> tx s' = tx s @ take len data)"
begin

definition emits :: "('s \<Rightarrow> 's option) \<Rightarrow> byte list \<Rightarrow> bool" where
  "emits f out \<longleftrightarrow> (\<forall>s. ok s \<longrightarrow> returns (f s) (\<lambda>s'. ok s' \<and> tx s' = tx s @ out))"

lemma emits_put: "len \<le> length data \<Longrightarrow> emits (\<lambda>s. put s data len) (take len data)"
  using put_law by (simp add: emits_def)

lemma emits_nothing: "emits Some []"
  by (simp add: emits_def)

lemma emits_seq:
  "emits f a \<Longrightarrow> emits g b \<Longrightarrow> emits (\<lambda>s. Option.bind (f s) g) (a @ b)"
  unfolding emits_def by (fastforce elim!: returnsE)

lemma emits_if:
  "(c \<Longrightarrow> emits f a) \<Longrightarrow> (\<not> c \<Longrightarrow> emits g b) \<Longrightarrow>
   emits (\<lambda>s. if c then f s else g s) (if c then a else b)"
  by simp

lemma emitsD: "emits f out \<Longrightarrow> ok s \<Longrightarrow> returns (f s) (\<lambda>s'. ok s' \<and> tx s' = tx s @ out)"
  by (simp add: emits_def)

end

definition wf_ab :: "append_buf \<Rightarrow> bool" where
  "wf_ab ab \<longleftrightarrow> length (ab_data ab) = ab_cap ab \<and> ab_len ab \<le> ab_cap ab \<and>
     (ab_cap ab \<noteq> 0 \<longrightarrow> ab_len ab < ab_cap ab \<and> ab_data ab ! ab_len ab = 0)"

definition ab_text :: "append_buf \<Rightarrow> byte list" where
  "ab_text ab = take (ab_len ab) (ab_data ab)"

lemma wf_ab_init: "wf_ab ab_init" "ab_text ab_init = []"
  by (simp_all add: wf_ab_def ab_init_def ab_text_def)

text \<open>The doubling ends, and no later than at twice what is needed.\<close>

lemma grow_to_ok:
  "0 < next \<Longrightarrow> returns (grow_to next needed) (\<lambda>c. needed \<le> c \<and> next \<le> c \<and> c \<le> max next (2 * needed))"
proof (induction "needed - next" arbitrary: "next" rule: less_induct)
  case less
  show ?case
  proof (cases "next < needed")
    case True
    with less.prems have "returns (grow_to (next * 2) needed)
        (\<lambda>c. needed \<le> c \<and> next * 2 \<le> c \<and> c \<le> max (next * 2) (2 * needed))"
      by (intro less.hyps) auto
    then have "returns (grow_to (next * 2) needed) (\<lambda>c. needed \<le> c \<and> next \<le> c \<and> c \<le> max next (2 * needed))"
      by (rule returns_mono) (use True in auto)
    with True show ?thesis by (simp add: grow_to.simps [of "next"])
  qed (simp add: grow_to.simps)
qed

lemma ab_reserve_ok:
  assumes wf: "wf_ab ab"
  shows "returns (ab_reserve ab n) (\<lambda>b. length (ab_data b) = ab_cap b \<and> n \<le> ab_cap b \<and>
    ab_len b = ab_len ab \<and> take (ab_len ab) (ab_data b) = ab_text ab \<and>
    ab_cap b \<le> max (max 256 (2 * ab_cap ab)) (2 * n))"
proof (cases "n > ab_cap ab")
  case True
  define first where "first = (if ab_cap ab \<noteq> 0 then ab_cap ab * 2 else 256)"
  have "0 < first" by (simp add: first_def)
  from grow_to_ok [OF this, of n]
  obtain c where c: "grow_to first n = Some c" "n \<le> c" "c \<le> max first (2 * n)" by (rule returnsE) simp
  have "take (ab_len ab) (realloc (ab_data ab) c) = ab_text ab"
    using wf c(2) True by (simp add: wf_ab_def ab_text_def realloc_with_def)
  moreover have "first \<le> max 256 (2 * ab_cap ab)" 
    by (cases "ab_cap ab = 0") (simp_all add: first_def le_max_iff_disj)
  moreover have "ab_reserve ab n = Some (ab\<lparr>ab_data := realloc (ab_data ab) c, ab_cap := c\<rparr>)"
    using True c(1) unfolding ab_reserve_def first_def by simp
  ultimately show ?thesis using c(2,3) by simp
next
  case False
  with wf show ?thesis by (auto simp: ab_reserve_def wf_ab_def ab_text_def)
qed

lemma ab_append_ok:
  assumes wf: "wf_ab ab" and len: "len \<le> length data"
  shows "returns (ab_append ab data len) (\<lambda>ab'. wf_ab ab' \<and> ab_text ab' = ab_text ab @ take len data \<and>
    ab_len ab' = ab_len ab + len \<and> ab_cap ab' \<le> max (max 256 (2 * ab_cap ab)) (2 * (ab_len ab + len + 1)))"
proof (cases "len = 0")
  case True
  with wf show ?thesis by (simp add: ab_append_def)
next
  case False
  from ab_reserve_ok [OF wf, of "ab_len ab + len + 1"] obtain b where
    b: "ab_reserve ab (ab_len ab + len + 1) = Some b" "length (ab_data b) = ab_cap b"
      "ab_len ab + len + 1 \<le> ab_cap b" "ab_len b = ab_len ab" "take (ab_len ab) (ab_data b) = ab_text ab"
      "ab_cap b \<le> max (max 256 (2 * ab_cap ab)) (2 * (ab_len ab + len + 1))" by (rule returnsE) simp
  let ?d = "take (ab_len ab) (ab_data b) @ take len data @ drop (ab_len ab + len) (ab_data b)"
  let ?e = "?d[ab_len ab + len := 0]"
  have lt: "length (ab_text ab) = ab_len ab"
    using wf by (simp add: wf_ab_def ab_text_def)
  have m: "memcpy (ab_data b) (ab_len ab) data 0 len = Some ?d"
    using b(2,3) len by (simp add: memcpy_def)
  have ld: "length ?d = ab_cap b" using b(2,3,5) len by (simp add: lt)
  have i: "ab_len ab + len < length ?d" unfolding ld using b(3) by simp
  have e: "ab_append ab data len = Some (b\<lparr>ab_data := ?e, ab_len := ab_len ab + len\<rparr>)"
    using False b(1,4) m store_eq [OF i] by (simp add: ab_append_def)
  have t: "take (ab_len ab + len) ?e = ab_text ab @ take len data"
    unfolding b(5) using len by (simp add: lt)
  define d where "d = ?e"
  have "length d = ab_cap b" "d ! (ab_len ab + len) = 0"
    using ld i unfolding d_def by (simp_all only: length_list_update nth_list_update_eq)
  then show ?thesis
    using t b(3,6) unfolding e d_def [symmetric] by (simp add: wf_ab_def ab_text_def)
qed

interpretation ab_sink: sink wf_ab ab_text ab_append
  by unfold_locales (rule returns_mono [OF ab_append_ok]; simp)

section \<open>What the helpers emit\<close>

lemma emits_str: "ab_sink.emits (\<lambda>ab. ab_append_str ab s) s"
  using ab_sink.emits_put [of "length s" s] by (simp add: ab_append_str_def)

lemma emits_char: "ab_sink.emits (\<lambda>ab. ab_append_char ab ch) [ch]"
  using ab_sink.emits_put [of 1 "[ch]"] by (simp add: ab_append_char_def)

lemma emits_repeat: "ab_sink.emits (\<lambda>ab. ab_append_repeat ab s n) (concat (replicate n s))"
proof (induction n)
  case 0
  then show ?case using ab_sink.emits_nothing by simp
next
  case (Suc n)
  show ?case using ab_sink.emits_seq [OF emits_str Suc] by simp
qed

lemma emits_move_cursor: "ab_sink.emits (\<lambda>ab. ab_move_cursor ab row col) (take 31 (move_cursor_text row col))"
  by (simp add: ab_move_cursor_def emits_str)

definition padded :: "byte list \<Rightarrow> nat \<Rightarrow> byte list" where
  "padded s width = take width s @ replicate (width - length s) 32"

lemma length_padded: "length (padded s width) = width"
  by (simp add: padded_def)

lemma concat_replicate_single: "concat (replicate n [x]) = replicate n x"
  by (induction n) simp_all

lemma emits_padded: "ab_sink.emits (\<lambda>ab. ab_append_padded ab s width) (padded s width)"
proof -
  define n where "n = (if length s > width then width else length s)"
  have n: "n \<le> length s" "take n s = take width s" "width - n = width - length s"
    by (simp_all add: n_def)
  have "ab_sink.emits (\<lambda>ab. if n > 0 then ab_append ab s n else Some ab) (take n s)"
    using ab_sink.emits_put [OF n(1)] ab_sink.emits_nothing by (cases "n > 0") auto
  from ab_sink.emits_seq [OF this emits_repeat [of "[32]" "width - n"]]
  show ?thesis
    unfolding ab_append_padded_def Let_def n_def [symmetric] padded_def
    by (simp only: n concat_replicate_single)
qed

text \<open>Tabs become spaces up to the next tab stop.\<close>

fun expand :: "nat \<Rightarrow> byte list \<Rightarrow> byte list" where
  "expand col [] = []"
| "expand col (ch # s) =
     (if ch = 9 then replicate (tab_width_at col) 32 @ expand (col + tab_width_at col) s
      else ch # expand (col + 1) s)"

lemma expand_append: "expand col (s @ t) = expand col s @ expand (vis_width col s) t"
  by (induction s arbitrary: col) (simp_all add: vis_step_def)

text \<open>As many bytes are drawn as the text is columns wide.\<close>

lemma length_expand: "col + length (expand col s) = vis_width col s"
proof (induction s arbitrary: col)
  case (Cons ch s)
  show ?case using Cons [of "vis_step col ch"] by (simp add: vis_step_def split: if_splits)
qed simp

lemma expand_no_tab: "9 \<notin> set (expand col s)"
  by (induction col s rule: expand.induct) auto

lemma emits_expanding_tabs:
  "off + len \<le> length line \<Longrightarrow> ab_sink.emits (\<lambda>ab. ab_append_expanding_tabs ab line off len col)
     (expand col (take len (drop off line)))"
proof (induction len arbitrary: off col)
  case 0
  then show ?case using ab_sink.emits_nothing by simp
next
  case (Suc len)
  then have l: "load line off = Some (line ! off)" and
    d: "drop off line = line ! off # drop (Suc off) line"
    by (simp_all add: load_eq Cons_nth_drop_Suc)
  show ?case
  proof (cases "line ! off = 9")
    case True
    have "ab_sink.emits (\<lambda>ab. ab_append_expanding_tabs ab line (off + 1) len (col + tab_width_at col))
        (expand (col + tab_width_at col) (take len (drop (Suc off) line)))"
      using Suc.IH [of "Suc off"] Suc.prems by simp
    from ab_sink.emits_seq [OF emits_repeat [of "[32]" "tab_width_at col"] this]
    show ?thesis by (simp add: l d True concat_replicate_single)
  next
    case False
    have "ab_sink.emits (\<lambda>ab. ab_append_expanding_tabs ab line (off + 1) len (col + 1))
        (expand (col + 1) (take len (drop (Suc off) line)))"
      using Suc.IH [of "Suc off"] Suc.prems by simp
    from ab_sink.emits_seq [OF emits_char this]
    show ?thesis by (simp add: l d False)
  qed
qed

end
