(* ===== verification/Mouse.thy ===== *)
theory Mouse
  imports Invariant Output
begin

text \<open>
  SGR mouse reports (\<open>handle_mouse_event\<close> of \<open>src/input.c\<close>): the three numbers are read with
  \<open>strtol\<close> from the escape buffer, then the wheel scrolls, a press or release moves the cursor and
  sets or clears the mark, and a drag extends the region. The wheel changes the cursor's row
  without clamping its column, and a press stores a mark column that may lie behind the line: the
  only commands that leave a cursor or a mark outside the text.
\<close>

section \<open>\<open>strtol\<close>\<close>

definition LONG_MAX :: int where
  "LONG_MAX = 2 ^ 63 - 1"

definition LONG_MIN :: int where
  "LONG_MIN = - (2 ^ 63)"

definition is_digit :: "byte \<Rightarrow> bool" where
  "is_digit ch \<longleftrightarrow> 48 \<le> ch \<and> ch \<le> 57"

function skip_while :: "(byte \<Rightarrow> bool) \<Rightarrow> block \<Rightarrow> nat \<Rightarrow> nat option" where
  "skip_while p b i = do { ch \<leftarrow> load b i; if p ch then skip_while p b (i + 1) else Some i }"
  by pat_completeness auto
termination
  by (relation "measure (\<lambda>(p, b, i). length b - i)") (auto simp: load_def split: if_splits)

declare skip_while.simps [simp del]

definition digits_value :: "byte list \<Rightarrow> int" where
  "digits_value ds = foldl (\<lambda>v d. 10 * v + (uint d - 48)) 0 ds"

definition strtol :: "block \<Rightarrow> nat \<Rightarrow> (int \<times> nat) option" where
  "strtol b off = do {
     i \<leftarrow> skip_while isspace b off;
     ch \<leftarrow> load b i;
     let i = (if ch = 43 \<or> ch = 45 then i + 1 else i);
     j \<leftarrow> skip_while is_digit b i;
     if j = i then Some (0, off)
     else
       let v = digits_value (take (j - i) (drop i b));
           v = (if ch = 45 then - v else v)
       in Some (min LONG_MAX (max LONG_MIN v), j)
   }"

section \<open>The event\<close>

definition mouse_row :: "editor \<Rightarrow> int \<Rightarrow> nat" where
  "mouse_row ed y =
     (let row = ed_row_offset ed + nat (y - 1)
      in if row \<ge> line_count (ed_buffer ed) then line_count (ed_buffer ed) - 1 else row)"

definition mouse_col :: "editor \<Rightarrow> int \<Rightarrow> nat" where
  "mouse_col ed x = ed_col_offset ed + nat (x - 1)"

definition set_mark :: "nat \<Rightarrow> nat \<Rightarrow> editor \<Rightarrow> editor" where
  "set_mark row col ed = ed\<lparr>ed_mark_active := True, ed_mark_row := row, ed_mark_col := col\<rparr>"

text \<open>The wheel, up (64) and down (65).\<close>

definition mouse_wheel_up :: "editor \<Rightarrow> editor" where
  "mouse_wheel_up ed =
     (if ed_row_offset ed > 0 then
        let ed = ed\<lparr>ed_row_offset := ed_row_offset ed - 1\<rparr>
        in if cur_row ed > 0 then set_cursor (cur_row ed - 1) (cur_col ed) ed else ed
      else ed)"

definition mouse_wheel_down :: "editor \<Rightarrow> editor" where
  "mouse_wheel_down ed =
     (if ed_row_offset ed + 1 < line_count (ed_buffer ed) then
        let ed = ed\<lparr>ed_row_offset := ed_row_offset ed + 1\<rparr>
        in if cur_row ed + 1 < line_count (ed_buffer ed) then set_cursor (cur_row ed + 1) (cur_col ed) ed
           else ed
      else ed)"

definition mouse_goto :: "editor \<Rightarrow> nat \<Rightarrow> nat \<Rightarrow> editor option" where
  "mouse_goto ed row col =
     (let ed = set_cursor row col ed
      in with_frame ed (frame_clamp_col (ed_buffer ed) (ed_frame ed)))"

definition mouse_button :: "editor \<Rightarrow> int \<Rightarrow> int \<Rightarrow> bool \<Rightarrow> editor option" where
  "mouse_button ed x y pressed =
     (let row = mouse_row ed y; col = mouse_col ed x;
          ed = (if pressed then set_mark row col ed
                else if ed_mark_active ed \<and> ed_mark_row ed = row \<and> ed_mark_col ed = col
                then ed\<lparr>ed_mark_active := False\<rparr> else ed)
      in mouse_goto ed row col)"

definition mouse_drag :: "editor \<Rightarrow> int \<Rightarrow> int \<Rightarrow> editor option" where
  "mouse_drag ed x y =
     (let row = mouse_row ed y; col = mouse_col ed x;
          ed = (if \<not> ed_mark_active ed then set_mark (cur_row ed) (cur_col ed) ed else ed)
      in mouse_goto ed row col)"

definition handle_mouse_event :: "editor \<Rightarrow> block \<Rightarrow> byte \<Rightarrow> (editor \<times> bool) option" where
  "handle_mouse_event ed seq type = do {
     (b, i) \<leftarrow> strtol seq 0;
     sep \<leftarrow> load seq i;
     if sep \<noteq> 59 then Some (ed, False)
     else do {
       (x, i) \<leftarrow> strtol seq (i + 1);
       sep \<leftarrow> load seq i;
       if sep \<noteq> 59 then Some (ed, False)
       else do {
         (y, i) \<leftarrow> strtol seq (i + 1);
         let pressed = (type = 77);
         let text_rows = (if ed_screen_rows ed > 1 then ed_screen_rows ed - 1 else 0);
         if x \<le> 0 \<or> y \<le> 0 \<or> y > text_rows then Some (ed, True)
         else if b = 64 then Some (mouse_wheel_up ed, True)
         else if b = 65 then Some (mouse_wheel_down ed, True)
         else if b = 0 then do { ed \<leftarrow> mouse_button ed x y pressed; Some (ed, True) }
         else if b \<noteq> 32 then Some (ed, True)
         else do { ed \<leftarrow> mouse_drag ed x y; Some (ed, True) }
       }
     }
   }"

section \<open>It keeps the invariant\<close>

lemma skip_while_ok:
  "\<not> p 0 \<Longrightarrow> i \<le> n \<Longrightarrow> n < length b \<Longrightarrow> b ! n = 0 \<Longrightarrow>
    returns (skip_while p b i) (\<lambda>j. i \<le> j \<and> j \<le> n \<and> (\<forall>k. i \<le> k \<longrightarrow> k < j \<longrightarrow> p (b ! k)) \<and> \<not> p (b ! j))"
proof (induction p b i rule: skip_while.induct)
  case (1 p b i)
  show ?case
  proof (cases "p (b ! i)")
    case True
    with 1(2-5) have "i < n" by (metis le_neq_implies_less)
    then have "returns (skip_while p b (i + 1))
        (\<lambda>j. i + 1 \<le> j \<and> j \<le> n \<and> (\<forall>k. i + 1 \<le> k \<longrightarrow> k < j \<longrightarrow> p (b ! k)) \<and> \<not> p (b ! j))"
      using 1 True by (simp add: load_eq)
    then have "returns (skip_while p b (i + 1))
        (\<lambda>j. i \<le> j \<and> j \<le> n \<and> (\<forall>k. i \<le> k \<longrightarrow> k < j \<longrightarrow> p (b ! k)) \<and> \<not> p (b ! j))"
    proof (rule returns_mono)
      fix j assume j: "i + 1 \<le> j \<and> j \<le> n \<and> (\<forall>k. i + 1 \<le> k \<longrightarrow> k < j \<longrightarrow> p (b ! k)) \<and> \<not> p (b ! j)"
      have "p (b ! k)" if "i \<le> k" "k < j" for k
        using that j True by (cases "k = i") auto
      with j show "i \<le> j \<and> j \<le> n \<and> (\<forall>k. i \<le> k \<longrightarrow> k < j \<longrightarrow> p (b ! k)) \<and> \<not> p (b ! j)" by simp
    qed
    with True 1(3,4) show ?thesis by (subst skip_while.simps) (simp add: load_eq)
  next
    case False
    with 1(3,4) show ?thesis by (subst skip_while.simps) (simp add: load_eq)
  qed
qed

lemma strtol_in:
  assumes "off \<le> n" "n < length b" "b ! n = 0"
  shows "returns (strtol b off) (\<lambda>(v, j). off \<le> j \<and> j \<le> n)"
proof -
  have sp: "\<not> isspace 0" "\<not> is_digit 0" by (simp_all add: isspace_def is_digit_def)
  obtain i where i: "skip_while isspace b off = Some i" "off \<le> i" "i \<le> n"
    using skip_while_ok [of isspace off n b, OF sp(1) assms] by (auto elim: returnsE)
  let ?i = "if b ! i = 43 \<or> b ! i = 45 then i + 1 else i"
  have "b ! i = 43 \<or> b ! i = 45 \<Longrightarrow> i \<noteq> n" using assms(3) by auto
  then have i2: "?i \<le> n" "off \<le> ?i" using i by auto
  obtain j where j: "skip_while is_digit b ?i = Some j" "?i \<le> j" "j \<le> n"
    using skip_while_ok [of is_digit ?i n b, OF sp(2) i2(1) assms(2,3)] by (elim returnsE) simp
  have l: "load b i = Some (b ! i)" using i(3) assms(2) by (simp add: load_def)
  show ?thesis
    using i j l i2 assms(1) unfolding strtol_def by (simp add: Let_def)
qed

lemma mouse_goto_ok:
  assumes "wf_editor ed" "\<not> ed_isearch_active ed" "row < line_count (ed_buffer ed)"
  shows "returns (mouse_goto ed row col) (\<lambda>ed'. wf_editor ed' \<and> good_cursor (ed_buffer ed') (ed_frame ed') \<and>
    cur_row ed' = row \<and> ed_buffer ed' = ed_buffer ed \<and> ed_mark_active ed' = ed_mark_active ed)"
proof -
  let ?fr = "\<lparr>f_row = row, f_col = col\<rparr>"
  obtain fr where "frame_clamp_col (ed_buffer ed) ?fr = Some fr" "good_cursor (ed_buffer ed) fr" "f_row fr = row"
    using frame_clamp_col_ok [of "ed_buffer ed" ?fr] assms wf_editorD(1)
    by (auto simp: good_row_def elim!: returnsE)
  with assms show ?thesis
    by (auto simp: mouse_goto_def Let_def with_frame_def set_cursor_def wf_editor_def wf_isearch_def
        query_field_def wf_kill_ring_def good_row_def good_cursor_def)
qed

lemma mouse_row_less: "wf_editor ed \<Longrightarrow> mouse_row ed y < line_count (ed_buffer ed)"
  using wf_buffer_count wf_editorD(1) by (auto simp: mouse_row_def Let_def)

lemma wf_mark [simp]: "wf_editor (set_mark row col ed) = wf_editor ed"
  "wf_editor (ed\<lparr>ed_mark_active := m\<rparr>) = wf_editor ed"
  "mouse_row (set_mark r c ed) y = mouse_row ed y" "ed_isearch_active (set_mark r c ed) = ed_isearch_active ed"
  "ed_buffer (set_mark r c ed) = ed_buffer ed"
  by (simp_all add: state_defs set_mark_def mouse_row_def Let_def)

text \<open>A click or a drag leaves the cursor in the text; the wheel leaves it on a row of the text.\<close>

lemma mouse_wheel_wf:
  assumes "wf_editor ed" "\<not> ed_isearch_active ed"
  shows "wf_editor (mouse_wheel_up ed)" "wf_editor (mouse_wheel_down ed)"
  using assms
  by (auto simp: mouse_wheel_up_def mouse_wheel_down_def Let_def set_cursor_def state_defs)

lemma mouse_button_ok:
  assumes "wf_editor ed" "\<not> ed_isearch_active ed"
  shows "returns (mouse_button ed x y pressed)
      (\<lambda>ed'. wf_editor ed' \<and> good_cursor (ed_buffer ed') (ed_frame ed'))"
    "returns (mouse_drag ed x y) (\<lambda>ed'. wf_editor ed' \<and> good_cursor (ed_buffer ed') (ed_frame ed'))"
  using assms mouse_row_less [OF assms(1), of y]
  unfolding mouse_button_def mouse_drag_def Let_def
  by (auto intro!: returns_mono [OF mouse_goto_ok])

lemma handle_mouse_event_wf:
  assumes wf: "wf_editor ed" "\<not> ed_isearch_active ed" and seq: "n < length seq" "seq ! n = 0"
  shows "returns (handle_mouse_event ed seq type) (\<lambda>(ed', h). wf_editor ed')"
proof -
  obtain b i where b: "strtol seq 0 = Some (b, i)" "i \<le> n"
    using strtol_in [of 0 n seq] seq by (auto elim!: returnsE)
  have li: "j \<le> n \<Longrightarrow> load seq j = Some (seq ! j)" for j using seq(1) by (simp add: load_def)
  have dr: "returns (mouse_drag ed x y) (\<lambda>ed'. wf_editor ed')"
    "returns (mouse_button ed x y p) (\<lambda>ed'. wf_editor ed')" for x y p
    by (rule returns_mono [OF mouse_button_ok(2) [OF wf]], simp)
       (rule returns_mono [OF mouse_button_ok(1) [OF wf]], simp)
  show ?thesis
  proof (cases "seq ! i = 59")
    case True
    then have "i \<noteq> n" using seq(2) by auto
    then have i: "i + 1 \<le> n" using b(2) by simp
    obtain x j where x: "strtol seq (i + 1) = Some (x, j)" "j \<le> n"
      using strtol_in [OF i seq] by (auto elim!: returnsE)
    show ?thesis
    proof (cases "seq ! j = 59")
      case sep: True
      then have "j \<noteq> n" using seq(2) by auto
      then have j: "j + 1 \<le> n" using x(2) by simp
      obtain y k where y: "strtol seq (j + 1) = Some (y, k)"
        using strtol_in [OF j seq] by (auto elim!: returnsE)
      show ?thesis
        using b x y True sep li dr wf mouse_wheel_wf [OF wf]
        by (simp add: handle_mouse_event_def Let_def)
    qed (use b x True li wf in \<open>simp add: handle_mouse_event_def\<close>)
  qed (use b li wf in \<open>simp add: handle_mouse_event_def\<close>)
qed

section \<open>Decimal numbers and reports\<close>

text \<open>\<open>strtol\<close> reads back what a terminal prints with \<open>%d\<close>.\<close>

lemma digit_uint: "m < 10 \<Longrightarrow> uint (of_nat (48 + m) :: byte) = int (48 + m)"
  by (simp only: unsigned_of_nat) (simp add: take_bit_nat_eq_self)

lemma dec_nat_digits: "d \<in> set (dec_nat n) \<Longrightarrow> is_digit d"
proof (induction n rule: dec_nat.induct)
  case (1 n)
  have d: "is_digit (of_nat (48 + m))" if "m < 10" for m
    using digit_uint [OF that] that by (simp add: is_digit_def word_le_def)
  from 1 d [of n] d [of "n mod 10"] show ?case
    by (subst (asm) (2) dec_nat.simps) (auto split: if_splits)
qed

lemma dec_nat_ne: "dec_nat n \<noteq> []"
  by (subst dec_nat.simps) simp

lemma dec_nat_value: "digits_value (dec_nat n) = int n"
proof (induction n rule: dec_nat.induct)
  case (1 n)
  have d: "uint (of_nat (48 + m) :: byte) - 48 = int m" if "m < 10" for m
    using digit_uint [OF that] by simp
  show ?case
  proof (cases "n < 10")
    case True
    then show ?thesis using d [OF True] by (subst dec_nat.simps) (simp add: digits_value_def)
  next
    case False
    have "n = 10 * (n div 10) + n mod 10" by simp
    then have n: "int n = 10 * int (n div 10) + int (n mod 10)"
      by (metis of_nat_add of_nat_mult of_nat_numeral)
    from False show ?thesis
      using 1 d [of "n mod 10"] n by (subst dec_nat.simps) (simp add: digits_value_def)
  qed
qed

lemma skip_while_all:
  "(\<And>d. d \<in> set ds \<Longrightarrow> p d) \<Longrightarrow> \<not> p c \<Longrightarrow>
   skip_while p (pre @ ds @ c # rest) (length pre) = Some (length pre + length ds)"
proof (induction ds arbitrary: pre)
  case Nil
  then show ?case by (subst skip_while.simps) (simp add: load_def nth_append)
next
  case (Cons d ds)
  from Cons.IH [of "pre @ [d]"] Cons.prems show ?case
    by (subst skip_while.simps) (simp add: load_def nth_append)
qed

lemma strtol_dec:
  assumes c: "\<not> is_digit c" and n: "int n \<le> LONG_MAX"
  shows "strtol (pre @ dec_nat n @ c # rest) (length pre) = Some (int n, length pre + length (dec_nat n))"
proof -
  obtain d ds where d: "dec_nat n = d # ds" using dec_nat_ne [of n] by (cases "dec_nat n") auto
  have dig: "is_digit d" using dec_nat_digits [of d n] by (simp add: d)
  then have w: "\<not> isspace d" "d \<noteq> 43" "d \<noteq> 45"
    by (auto simp: is_digit_def isspace_def word_le_nat_alt)
  have "skip_while isspace (pre @ [] @ d # ds @ c # rest) (length pre) = Some (length pre + length ([] :: byte list))"
    by (rule skip_while_all) (use w in auto)
  then have s: "skip_while isspace (pre @ dec_nat n @ c # rest) (length pre) = Some (length pre)" by (simp add: d)
  have l: "load (pre @ dec_nat n @ c # rest) (length pre) = Some d" by (simp add: load_def nth_append d)
  have j: "skip_while is_digit (pre @ dec_nat n @ c # rest) (length pre) = Some (length pre + length (dec_nat n))"
    by (rule skip_while_all [of "dec_nat n" is_digit c pre rest]) (use dec_nat_digits c in auto)
  have v: "digits_value (take (length (dec_nat n)) (drop (length pre) (pre @ dec_nat n @ c # rest))) = int n"
    by (simp add: dec_nat_value)
  show ?thesis
    using w n dec_nat_ne [of n] v by (simp add: strtol_def s l j Let_def LONG_MAX_def LONG_MIN_def)
qed

text \<open>A report as the terminal sends it: button, column and row, in the escape buffer.\<close>

definition report_text :: "nat \<Rightarrow> nat \<Rightarrow> nat \<Rightarrow> byte list" where
  "report_text b x y = dec_nat b @ [59] @ dec_nat x @ [59] @ dec_nat y"

lemma mouse_report:
  assumes "int b \<le> LONG_MAX" "int x \<le> LONG_MAX" "int y \<le> LONG_MAX"
  shows "handle_mouse_event ed (report_text b x y @ 0 # rest) type =
    (if x = 0 \<or> y = 0 \<or> int y > (if ed_screen_rows ed > 1 then ed_screen_rows ed - 1 else 0) then Some (ed, True)
     else if b = 64 then Some (mouse_wheel_up ed, True)
     else if b = 65 then Some (mouse_wheel_down ed, True)
     else if b = 0 then do { ed \<leftarrow> mouse_button ed (int x) (int y) (type = 77); Some (ed, True) }
     else if b \<noteq> 32 then Some (ed, True)
     else do { ed \<leftarrow> mouse_drag ed (int x) (int y); Some (ed, True) })"
proof -
  let ?s = "report_text b x y @ 0 # rest"
  have nd: "\<not> is_digit 59" "\<not> is_digit 0" by (simp_all add: is_digit_def)
  define p1 where "p1 = dec_nat b @ [59]"
  define p2 where "p2 = p1 @ dec_nat x @ [59]"
  have b: "strtol ?s 0 = Some (int b, length (dec_nat b))" "load ?s (length (dec_nat b)) = Some 59"
    using strtol_dec [OF nd(1) assms(1), of "[]"] by (simp_all add: report_text_def load_def nth_append)
  have "?s = p1 @ dec_nat x @ 59 # dec_nat y @ 0 # rest" by (simp add: report_text_def p1_def)
  then have x: "strtol ?s (length (dec_nat b) + 1) = Some (int x, length p1 + length (dec_nat x))"
    "load ?s (length p1 + length (dec_nat x)) = Some 59"
    using strtol_dec [OF nd(1) assms(2), of p1 "dec_nat y @ 0 # rest"]
    by (simp_all add: p1_def load_def nth_append)
  have "?s = p2 @ dec_nat y @ 0 # rest" by (simp add: report_text_def p1_def p2_def)
  then have y: "strtol ?s (length p1 + length (dec_nat x) + 1) = Some (int y, length p2 + length (dec_nat y))"
    using strtol_dec [OF nd(2) assms(3), of p2 rest] by (simp add: p2_def)
  have n: "int b = 64 \<longleftrightarrow> b = 64" "int b = 65 \<longleftrightarrow> b = 65" "int b = 0 \<longleftrightarrow> b = 0" "int b \<noteq> 32 \<longleftrightarrow> b \<noteq> 32"
    "int x \<le> 0 \<longleftrightarrow> x = 0" "int y \<le> 0 \<longleftrightarrow> y = 0" by simp_all
  define s where "s = ?s"
  show ?thesis
    unfolding handle_mouse_event_def s_def [symmetric]
    by (simp only: b [folded s_def] x [folded s_def] y [folded s_def] bind.bind_lunit prod.case Let_def n simp_thms if_False)
qed

text \<open>A press or release puts the cursor on the last character start up to the pointer.\<close>

lemma mouse_button_cursor:
  assumes wf: "wf_editor ed"
  shows "returns (mouse_button ed x y pressed) (\<lambda>e. ed_buffer e = ed_buffer ed \<and> cur_row e = mouse_row ed y \<and>
    cur_col e = clamp_bnd (ltext (ed_buffer ed) (mouse_row ed y)) (mouse_col ed x) \<and>
    (pressed \<longrightarrow> ed_mark_active e \<and> ed_mark_row e = mouse_row ed y \<and> ed_mark_col e = mouse_col ed x) \<and>
    (\<not> pressed \<longrightarrow> ed_mark_row e = ed_mark_row ed \<and> ed_mark_col e = ed_mark_col ed \<and>
       (ed_mark_active e \<longleftrightarrow> ed_mark_active ed \<and> (ed_mark_row ed \<noteq> mouse_row ed y \<or> ed_mark_col ed \<noteq> mouse_col ed x))))"
proof -
  have g: "good_row (ed_buffer ed) \<lparr>f_row = mouse_row ed y, f_col = c\<rparr>" for c
    using mouse_row_less [OF wf] by (simp add: good_row_def)
  obtain fr where fr: "frame_clamp_col (ed_buffer ed) \<lparr>f_row = mouse_row ed y, f_col = mouse_col ed x\<rparr> = Some fr"
    "f_row fr = mouse_row ed y" "f_col fr = clamp_bnd (ltext (ed_buffer ed) (mouse_row ed y)) (mouse_col ed x)"
    using frame_clamp_col_ok [OF wf_editorD(1) [OF wf] g] by (auto elim!: returnsE)
  then show ?thesis
    by (auto simp: mouse_button_def mouse_goto_def Let_def with_frame_def set_cursor_def set_mark_def)
qed

end
