(* ===== verification/Keys.thy ===== *)
theory Keys
  imports Finder Kill Mouse
begin

text \<open>
  One key press: \<open>handle_meta_key\<close>, \<open>handle_escape\<close> and \<open>editor_process_key\<close> of \<open>src/input.c\<close>. The
  flags \<open>reset_kill\<close> and \<open>reset_yank\<close>, which the C functions take by pointer, are arguments and
  results. \<open>editor_process_key\<close> is cut where the source has its blocks: the escape parser, the
  prompt, the \<open>C-x\<close> prefix and the switch over the key; \<open>editor_done\<close> is the label \<open>done\<close>. The
  branch of the prompt for key 27 is in the model as it is in the source, although the escape key
  never gets there.
\<close>

section \<open>Saving\<close>

definition editor_save_to :: "os \<Rightarrow> editor \<Rightarrow> byte list \<Rightarrow> (editor \<times> bool) option" where
  "editor_save_to os ed path = do {
     (ok, out) \<leftarrow> buffer_write_file (os_save os path) (ed_buffer ed);
     Some (ed\<lparr>ed_saves := ed_saves ed @ [(path, ok, out)]\<rparr>, ok)
   }"

definition save_failed :: "os \<Rightarrow> editor \<Rightarrow> editor" where
  "save_failed os ed = status (bytes_of ''Save failed: '' @ os_strerror os) ed"

definition editor_prompt_save_as :: "editor \<Rightarrow> editor option" where
  "editor_prompt_save_as ed = do {
     f \<leftarrow> field_reset (ed_prompt ed);
     Some (ed\<lparr>ed_prompt_active := True, ed_prompt_save_as := True, ed_prompt := f\<rparr>)
   }"

text \<open>\<open>C-x C-s\<close>.\<close>

definition editor_save :: "os \<Rightarrow> editor \<Rightarrow> editor option" where
  "editor_save os ed =
     (case b_file_path (ed_buffer ed) of
        None \<Rightarrow> editor_prompt_save_as ed
      | Some path \<Rightarrow> do {
          (ed, ok) \<leftarrow> editor_save_to os ed path;
          Some (if ok then say ''Saved'' (ed\<lparr>ed_dirty := False\<rparr>) else save_failed os ed)
        })"

section \<open>The prompt\<close>

definition prompt_accept :: "os \<Rightarrow> editor \<Rightarrow> editor option" where
  "prompt_accept os ed = do {
     ed \<leftarrow> (if fl_len (ed_prompt ed) = 0 then Some (say ''No file name'' ed)
           else if ed_prompt_save_as ed then do {
             copy \<leftarrow> strndup (fl_buf (ed_prompt ed)) (fl_len (ed_prompt ed));
             path \<leftarrow> c_string copy;
             (ed, ok) \<leftarrow> editor_save_to os ed path;
             Some (if ok then
                     say ''Saved'' (ed\<lparr>ed_buffer := (ed_buffer ed)\<lparr>b_file_path := Some path,
                        b_mode := detect_mode (Some path)\<rparr>, ed_dirty := False\<rparr>)
                   else save_failed os ed)
           }
           else Some ed);
     Some (ed\<lparr>ed_prompt_active := False, ed_prompt_save_as := False,
              ed_prompt := (ed_prompt ed)\<lparr>fl_col := 0\<rparr>\<rparr>)
   }"

definition prompt_handle_key :: "os \<Rightarrow> editor \<Rightarrow> byte \<Rightarrow> editor option" where
  "prompt_handle_key os ed key =
     (if key = 27 then
        Some (say ''Save canceled''
          (ed\<lparr>ed_prompt_active := False, ed_prompt_save_as := False,
              ed_prompt := (ed_prompt ed)\<lparr>fl_col := 0\<rparr>\<rparr>))
      else if key = 13 then prompt_accept os ed
      else if key = ctrl_key 97 then with_prompt ed (Some (field_move_start (ed_prompt ed)))
      else if key = ctrl_key 101 then with_prompt ed (Some (field_move_end (ed_prompt ed)))
      else if key = ctrl_key 98 then with_prompt ed (field_move_prev_char (ed_prompt ed))
      else if key = ctrl_key 102 then with_prompt ed (field_move_next_char (ed_prompt ed))
      else if key = ctrl_key 100 then with_prompt ed (field_delete_forward (ed_prompt ed))
      else if key = ctrl_key 104 then with_prompt ed (field_delete_backward (ed_prompt ed))
      else if key = ctrl_key 119 then with_prompt ed (field_delete_prev_word (ed_prompt ed))
      else if key = ctrl_key 107 then with_prompt ed (field_kill_to_end (ed_prompt ed))
      else if key = KEY_BACKSPACE then with_prompt ed (field_delete_backward (ed_prompt ed))
      else if key \<ge> 32 \<and> key \<noteq> KEY_BACKSPACE \<and> key \<noteq> ctrl_key 104
      then with_prompt ed (field_insert (ed_prompt ed) key)
      else Some ed)"

section \<open>Meta keys\<close>

type_synonym outcome = "editor \<times> bool \<times> bool \<times> bool"

definition editor_yank_pop :: "editor \<Rightarrow> editor option" where
  "editor_yank_pop ed =
     (let count = (if ed_kill_ring_len ed < KILL_RING_MAX then ed_kill_ring_len ed else KILL_RING_MAX)
      in if count > 1 then do {
           let ed = ed\<lparr>ed_kill_ring_index :=
                  (if ed_kill_ring_index ed = 0 then count - 1 else ed_kill_ring_index ed - 1)\<rparr>;
           ed \<leftarrow> with_buffer ed (buffer_delete_region (ed_buffer ed) (ed_yank_start_row ed)
                  (ed_yank_start_col ed) (ed_yank_end_row ed) (ed_yank_end_col ed));
           let ed = set_cursor (ed_yank_start_row ed) (ed_yank_start_col ed) ed;
           entry \<leftarrow> load (ed_kill_ring ed) (ed_kill_ring_index ed);
           (ed, _) \<leftarrow> editor_yank_from ed entry;
           Some (ed\<lparr>ed_last_was_yank := True\<rparr>)
         } else Some ed)"

definition prompt_meta_key :: "os \<Rightarrow> editor \<Rightarrow> byte \<Rightarrow> bool \<Rightarrow> bool \<Rightarrow> outcome option" where
  "prompt_meta_key os ed key rk ry =
     (if key = 112 then do { (ed, _) \<leftarrow> finder_open os ed; Some (ed, True, True, ry) }
      else do {
        ed \<leftarrow> (if key = 97 then with_prompt ed (Some (field_move_start (ed_prompt ed)))
              else if key = 101 then with_prompt ed (Some (field_move_end (ed_prompt ed)))
              else if key = 98 then with_prompt ed (field_move_prev_word (ed_prompt ed))
              else if key = 102 then with_prompt ed (field_move_next_word (ed_prompt ed))
              else if key = 100 then with_prompt ed (field_delete_next_word (ed_prompt ed))
              else if key = KEY_BACKSPACE then with_prompt ed (field_delete_prev_word (ed_prompt ed))
              else Some ed);
        Some (ed, True, rk, ry)
      })"

definition handle_meta_key :: "os \<Rightarrow> editor \<Rightarrow> byte \<Rightarrow> bool \<Rightarrow> bool \<Rightarrow> outcome option" where
  "handle_meta_key os ed key rk ry =
     (let key = (if key \<ge> 65 \<and> key \<le> 90 then key - 65 + 97 else key)
      in if ed_prompt_active ed then prompt_meta_key os ed key rk ry
         else if key = 102 then do {
           ed \<leftarrow> with_frame ed (frame_move_next_word (ed_buffer ed) (ed_frame ed));
           Some (ed, True, True, ry)
         }
         else if key = 98 then do {
           ed \<leftarrow> with_frame ed (frame_move_prev_word (ed_buffer ed) (ed_frame ed));
           Some (ed, True, True, ry)
         }
         else if key = 100 then do {
           ed \<leftarrow> editor_kill_word_forward ed;
           Some ((mark_dirty ed)\<lparr>ed_last_was_kill := True\<rparr>, True, False, ry)
         }
         else if key = KEY_BACKSPACE then do {
           ed \<leftarrow> editor_kill_word_backward ed;
           Some ((mark_dirty ed)\<lparr>ed_last_was_kill := True\<rparr>, True, False, ry)
         }
         else if key = 119 then do {
           (ed, copied) \<leftarrow> editor_copy_region ed;
           let ed = (if copied then say ''Copied'' ed else say ''No region'' ed);
           Some (ed\<lparr>ed_last_was_kill := False\<rparr>, True, True, ry)
         }
         else if key = 121 then
           (if ed_last_was_yank ed \<and> ed_kill_ring_len ed > 0 then do {
              ed \<leftarrow> editor_yank_pop ed;
              Some (ed, True, rk, False)
            } else Some (ed, True, rk, ry))
         else if key = 112 then do { (ed, _) \<leftarrow> finder_open os ed; Some (ed, True, True, ry) }
         else Some (ed, False, rk, ry))"

section \<open>Escape sequences\<close>

text \<open>\<open>if (esc_len + 1 < sizeof(esc_buf)) esc_buf[esc_len++] = key; else esc_state = ESC_NONE;\<close>\<close>

definition esc_append :: "editor \<Rightarrow> byte \<Rightarrow> editor option" where
  "esc_append ed key =
     (if ed_esc_len ed + 1 < ESC_BUF_SIZE then do {
        buf \<leftarrow> store (ed_esc_buf ed) (ed_esc_len ed) key;
        Some (ed\<lparr>ed_esc_buf := buf, ed_esc_len := ed_esc_len ed + 1\<rparr>)
      } else Some (ed\<lparr>ed_esc_state := ESC_NONE\<rparr>))"

definition arrow_key :: "editor \<Rightarrow> byte \<Rightarrow> editor option" where
  "arrow_key ed key =
     (if fd_active (ed_finder ed) then
        Some (if key = 65 then finder_move_selection ed (-1)
              else if key = 66 then finder_move_selection ed 1 else ed)
      else if key = 65 then with_frame ed (frame_move_prev_line (ed_buffer ed) (ed_frame ed))
      else if key = 66 then with_frame ed (frame_move_next_line (ed_buffer ed) (ed_frame ed))
      else if key = 67 then with_frame ed (frame_move_next_char (ed_buffer ed) (ed_frame ed))
      else if key = 68 then with_frame ed (frame_move_prev_char (ed_buffer ed) (ed_frame ed))
      else Some ed)"

definition handle_escape :: "os \<Rightarrow> editor \<Rightarrow> byte \<Rightarrow> bool \<Rightarrow> bool \<Rightarrow> outcome option" where
  "handle_escape os ed key rk ry =
     (if ed_esc_state ed = ESC_SEEN then
        (if key = 91 then Some (ed\<lparr>ed_esc_state := ESC_CSI\<rparr>, True, rk, ry)
         else handle_meta_key os (ed\<lparr>ed_esc_state := ESC_NONE\<rparr>) key rk ry)
      else if ed_esc_state ed = ESC_CSI then
        (if key = 65 \<or> key = 66 \<or> key = 67 \<or> key = 68 then do {
           ed \<leftarrow> arrow_key (ed\<lparr>ed_esc_state := ESC_NONE\<rparr>) key;
           Some (ed, True, True, ry)
         }
         else if key = 60 then Some (ed\<lparr>ed_esc_state := ESC_MOUSE, ed_esc_len := 0\<rparr>, True, rk, ry)
         else if (key \<ge> 48 \<and> key \<le> 57) \<or> key = 59 then do {
           ed \<leftarrow> esc_append ed key;
           Some (ed, True, rk, ry)
         }
         else if key = 112 \<or> key = 80 then do {
           (ed, _) \<leftarrow> finder_open os (ed\<lparr>ed_esc_state := ESC_NONE\<rparr>);
           Some (ed, True, True, ry)
         }
         else Some (ed\<lparr>ed_esc_state := ESC_NONE\<rparr>, False, rk, ry))
      else if ed_esc_state ed = ESC_MOUSE then
        (if key = 109 \<or> key = 77 then do {
           buf \<leftarrow> store (ed_esc_buf ed) (ed_esc_len ed) 0;
           let ed = ed\<lparr>ed_esc_buf := buf, ed_esc_state := ESC_NONE\<rparr>;
           (ed, handled) \<leftarrow> handle_mouse_event ed (ed_esc_buf ed) key;
           Some (ed, handled, rk, ry)
         }
         else do { ed \<leftarrow> esc_append ed key; Some (ed, True, rk, ry) })
      else Some (ed, False, rk, ry))"

section \<open>Editing keys\<close>

text \<open>The switch. The second and third result are \<open>reset_kill\<close> and \<open>reset_yank\<close>.\<close>

definition key_mark :: "editor \<Rightarrow> editor" where
  "key_mark ed =
     (if ed_mark_active ed \<and> ed_mark_row ed = cur_row ed \<and> ed_mark_col ed = cur_col ed
      then say ''Mark cleared'' (ed\<lparr>ed_mark_active := False\<rparr>)
      else say ''Mark set'' (set_mark (cur_row ed) (cur_col ed) ed))"

definition key_open_line :: "editor \<Rightarrow> editor option" where
  "key_open_line ed = do {
     ed \<leftarrow> with_buffer ed (buffer_insert_newline (ed_buffer ed) (cur_row ed) 0);
     Some (mark_dirty (set_cursor (cur_row ed + 1) (cur_col ed) ed))
   }"

definition key_backspace :: "editor \<Rightarrow> editor option" where
  "key_backspace ed =
     (if cur_col ed > 0 \<or> cur_row ed > 0 then do {
        ed \<leftarrow> with_buffer ed (buffer_delete_char (ed_buffer ed) (cur_row ed) (cur_col ed));
        ed \<leftarrow> with_frame ed (frame_move_prev_char (ed_buffer ed) (ed_frame ed));
        Some (mark_dirty ed)
      } else Some ed)"

definition key_newline :: "editor \<Rightarrow> editor option" where
  "key_newline ed = do {
     ed \<leftarrow> with_buffer ed (buffer_insert_newline (ed_buffer ed) (cur_row ed) (cur_col ed));
     Some (mark_dirty (set_cursor (cur_row ed + 1) 0 ed))
   }"

definition key_tab :: "editor \<Rightarrow> editor option" where
  "key_tab ed = do {
     ed \<leftarrow> with_buffer ed (buffer_insert_tab (ed_buffer ed) (cur_row ed) (cur_col ed));
     Some (mark_dirty (set_cursor (cur_row ed)
       (cur_col ed + (if b_mode (ed_buffer ed) = MAKEFILE_MODE then 1 else 2)) ed))
   }"

definition key_delete :: "editor \<Rightarrow> editor option" where
  "key_delete ed = do {
     ed \<leftarrow> with_buffer ed (buffer_delete_forward (ed_buffer ed) (cur_row ed) (cur_col ed));
     Some (mark_dirty ed)
   }"

definition key_insert :: "editor \<Rightarrow> byte \<Rightarrow> editor option" where
  "key_insert ed key =
     (if key \<ge> 32 \<and> key \<noteq> KEY_BACKSPACE then do {
        ed \<leftarrow> with_buffer ed (buffer_insert_char (ed_buffer ed) (cur_row ed) (cur_col ed) key);
        Some (mark_dirty (set_cursor (cur_row ed) (cur_col ed + 1) ed))
      } else Some ed)"

definition editor_switch :: "editor \<Rightarrow> byte \<Rightarrow> bool \<Rightarrow> bool \<Rightarrow> (editor \<times> bool \<times> bool) option" where
  "editor_switch ed key rk ry =
     (if key = 0 then Some (key_mark ed, True, ry)
      else if key = ctrl_key 120 then Some (say ''C-x'' (ed\<lparr>ed_pending_ctrl_x := True\<rparr>), True, ry)
      else if key = ctrl_key 107 then do {
        ed \<leftarrow> editor_kill_line ed;
        Some (ed\<lparr>ed_last_was_kill := True\<rparr>, False, ry)
      }
      else if key = ctrl_key 121 then do {
        (ed, yanked) \<leftarrow> editor_yank ed;
        Some (if yanked then (ed\<lparr>ed_last_was_yank := True\<rparr>, rk, False) else (ed, rk, ry))
      }
      else if key = ctrl_key 119 then do {
        (ed, killed) \<leftarrow> editor_kill_region ed;
        Some (if killed then (say ''Killed'' (ed\<lparr>ed_last_was_kill := True\<rparr>), False, ry)
              else (say ''No region'' ed, rk, ry))
      }
      else do {
        ed \<leftarrow> (if key = ctrl_key 112 then with_frame ed (frame_move_prev_line (ed_buffer ed) (ed_frame ed))
              else if key = ctrl_key 110 then with_frame ed (frame_move_next_line (ed_buffer ed) (ed_frame ed))
              else if key = ctrl_key 98 then with_frame ed (frame_move_prev_char (ed_buffer ed) (ed_frame ed))
              else if key = ctrl_key 102 then with_frame ed (frame_move_next_char (ed_buffer ed) (ed_frame ed))
              else if key = ctrl_key 97 then with_frame ed (Some (frame_move_line_start (ed_frame ed)))
              else if key = ctrl_key 101 then with_frame ed (frame_move_line_end (ed_buffer ed) (ed_frame ed))
              else if key = ctrl_key 111 then key_open_line ed
              else if key = KEY_BACKSPACE then key_backspace ed
              else if key = 13 then key_newline ed
              else if key = 9 then key_tab ed
              else if key = ctrl_key 100 then key_delete ed
              else key_insert ed key);
        Some (ed, rk, ry)
      })"

section \<open>\<open>editor_process_key\<close>\<close>

definition editor_done :: "bool \<Rightarrow> bool \<Rightarrow> editor \<Rightarrow> editor" where
  "editor_done rk ry ed =
     (let ed = (if rk then ed\<lparr>ed_last_was_kill := False\<rparr> else ed)
      in if ry then ed\<lparr>ed_last_was_yank := False\<rparr> else ed)"

text \<open>\<open>C-g\<close>. It returns before the label \<open>done\<close>, and leaves the prompt's array as it is.\<close>

definition editor_cancel :: "editor \<Rightarrow> editor" where
  "editor_cancel ed = say ''Canceled''
     (ed\<lparr>ed_pending_ctrl_x := False, ed_esc_state := ESC_NONE, ed_esc_len := 0,
         ed_prompt_active := False, ed_prompt_save_as := False,
         ed_prompt := (ed_prompt ed)\<lparr>fl_len := 0, fl_col := 0\<rparr>,
         ed_mark_active := False, ed_last_was_kill := False, ed_last_was_yank := False\<rparr>)"

definition editor_command :: "editor \<Rightarrow> byte \<Rightarrow> bool \<Rightarrow> bool \<Rightarrow> editor option" where
  "editor_command ed key rk ry =
     (if key = ctrl_key 115 then do { ed \<leftarrow> isearch_begin ed True; Some (editor_done rk ry ed) }
      else if key = ctrl_key 114 then do { ed \<leftarrow> isearch_begin ed False; Some (editor_done rk ry ed) }
      else do {
        (ed, rk, ry) \<leftarrow> editor_switch ed key rk ry;
        Some (editor_done rk ry ed)
      })"

definition editor_ctrl_x :: "os \<Rightarrow> editor \<Rightarrow> byte \<Rightarrow> bool \<Rightarrow> bool \<Rightarrow> editor option" where
  "editor_ctrl_x os ed key rk ry =
     (let ed = ed\<lparr>ed_pending_ctrl_x := False\<rparr>
      in if key = ctrl_key 115 then do { ed \<leftarrow> editor_save os ed; Some (editor_done True ry ed) }
         else if key = ctrl_key 99 then Some (ed\<lparr>ed_should_exit := True\<rparr>)
         else editor_command ed key rk ry)"

definition editor_key :: "os \<Rightarrow> editor \<Rightarrow> byte \<Rightarrow> bool \<Rightarrow> bool \<Rightarrow> editor option" where
  "editor_key os ed key rk ry =
     (if fd_active (ed_finder ed) then do {
        ed \<leftarrow> finder_handle_key os ed key;
        Some (editor_done rk ry ed)
      }
      else do {
        (ed, handled) \<leftarrow> isearch_handle_key ed key;
        if handled then Some (editor_done rk ry ed)
        else if key = 27 then Some (editor_done rk ry (ed\<lparr>ed_esc_state := ESC_SEEN\<rparr>))
        else if key = ctrl_key 103 then Some (editor_cancel ed)
        else if ed_prompt_active ed then prompt_handle_key os ed key
        else if ed_pending_ctrl_x ed then editor_ctrl_x os ed key rk ry
        else editor_command ed key rk ry
      })"

definition editor_process_key :: "os \<Rightarrow> editor \<Rightarrow> byte \<Rightarrow> editor option" where
  "editor_process_key os ed key = do {
     (ed, handled, rk, ry) \<leftarrow>
       (if ed_esc_state ed \<noteq> ESC_NONE then handle_escape os ed key True True
        else Some (ed, False, True, True));
     if handled then Some (editor_done rk ry ed) else editor_key os ed key rk ry
   }"

end
