(* ===== verification/Step.thy ===== *)
theory Step
  imports Keys
begin

text \<open>
  What one key does to the invariant. A key press always ends in a well-formed state when it ends
  in a state at all, and it ends in one whenever the cursor and the mark are in the text:
  \<open>safe C m Q\<close> says of the fallible step \<open>m\<close> that it does not fail under \<open>C\<close> and that \<open>Q\<close> holds of
  whatever it returns. The keys are taken one by one and then put together along the branches of
  \<open>editor_process_key\<close>.
\<close>

section \<open>Steps that may fail\<close>

definition safe :: "bool \<Rightarrow> 'a option \<Rightarrow> ('a \<Rightarrow> bool) \<Rightarrow> bool" where
  "safe C m Q \<longleftrightarrow> (C \<longrightarrow> m \<noteq> None) \<and> (\<forall>x. m = Some x \<longrightarrow> Q x)"

lemma safeI: "(C \<Longrightarrow> m \<noteq> None) \<Longrightarrow> (\<And>x. m = Some x \<Longrightarrow> Q x) \<Longrightarrow> safe C m Q"
  by (simp add: safe_def)

lemma safe_Some [simp]: "safe C (Some x) Q = Q x"
  by (simp add: safe_def)

lemma safe_returns: "returns m Q \<Longrightarrow> safe C m Q"
  by (auto simp: safe_def returns_def)

lemma safe_bind: "safe C m P \<Longrightarrow> (\<And>x. P x \<Longrightarrow> safe C (f x) Q) \<Longrightarrow> safe C (Option.bind m f) Q"
  by (cases m) (auto simp: safe_def)

lemma returns_not_None: "returns m Q \<Longrightarrow> m \<noteq> None"
  by (auto simp: returns_def)

lemma safe_mono: "safe C m P \<Longrightarrow> (D \<Longrightarrow> C) \<Longrightarrow> (\<And>x. P x \<Longrightarrow> Q x) \<Longrightarrow> safe D m Q"
  by (auto simp: safe_def)

lemma safe_if: "(b \<Longrightarrow> safe C m Q) \<Longrightarrow> (\<not> b \<Longrightarrow> safe C n Q) \<Longrightarrow> safe C (if b then m else n) Q"
  by simp

lemma safe_returns':
  "returns m P \<Longrightarrow> (\<And>x. m = Some x \<Longrightarrow> P x \<Longrightarrow> Q x) \<Longrightarrow> returns m Q"
  by (auto simp: returns_def)

text \<open>The bundle the switch keeps: the cursor only when the mark was good as well.\<close>

definition keeps :: "editor \<Rightarrow> editor \<Rightarrow> bool" where
  "keeps ed ed' \<longleftrightarrow> wf_editor ed' \<and> (calm ed \<and> good_mark ed \<longrightarrow> calm ed') \<and>
     (ed_mark_active ed' \<longrightarrow> ed_mark_active ed)"

lemma kept_keeps: "kept ed ed' \<Longrightarrow> keeps ed ed'"
  by (simp add: kept_def keeps_def)

lemma kept_prefix: "kept ed e \<Longrightarrow> good_mark ed = good_mark e \<Longrightarrow> keeps e ed' \<Longrightarrow> keeps ed ed'"
  by (auto simp: kept_def keeps_def)

section \<open>Moving\<close>

text \<open>A move of the frame never fails on a cursor in the text and keeps the row in any case.\<close>

lemma with_frame_kept:
  assumes wf: "wf_editor ed" and act: "\<not> ed_isearch_active ed"
    and good: "good_cursor (ed_buffer ed) (ed_frame ed) \<Longrightarrow> returns m (good_cursor (ed_buffer ed))"
    and row: "\<And>g. m = Some g \<Longrightarrow> good_row (ed_buffer ed) g"
  shows "safe (calm ed) (with_frame ed m) (kept ed)"
proof (rule safeI)
  assume "calm ed"
  with good show "with_frame ed m \<noteq> None" by (auto simp: with_frame_def calm_def returns_def)
next
  fix x assume "with_frame ed m = Some x"
  then obtain g where g: "m = Some g" "x = ed\<lparr>ed_frame := g\<rparr>"
    by (auto simp: with_frame_def bind_eq_Some_conv)
  with row [OF g(1)] wf act have "wf_editor x" by (simp add: state_defs)
  moreover have "calm ed \<Longrightarrow> calm x"
    using good act g by (auto simp: calm_def)
  ultimately show "kept ed x" using g(2) by (simp add: kept_def)
qed

lemma moves_kept:
  assumes wf: "wf_editor ed" and act: "\<not> ed_isearch_active ed"
  shows "safe (calm ed) (with_frame ed (frame_move_prev_line (ed_buffer ed) (ed_frame ed))) (kept ed)"
    "safe (calm ed) (with_frame ed (frame_move_next_line (ed_buffer ed) (ed_frame ed))) (kept ed)"
    "safe (calm ed) (with_frame ed (frame_move_prev_char (ed_buffer ed) (ed_frame ed))) (kept ed)"
    "safe (calm ed) (with_frame ed (frame_move_next_char (ed_buffer ed) (ed_frame ed))) (kept ed)"
    "safe (calm ed) (with_frame ed (Some (frame_move_line_start (ed_frame ed)))) (kept ed)"
    "safe (calm ed) (with_frame ed (frame_move_line_end (ed_buffer ed) (ed_frame ed))) (kept ed)"
    "safe (calm ed) (with_frame ed (frame_move_next_word (ed_buffer ed) (ed_frame ed))) (kept ed)"
    "safe (calm ed) (with_frame ed (frame_move_prev_word (ed_buffer ed) (ed_frame ed))) (kept ed)"
proof -
  note b = wf_editorD(1) [OF wf] and r = wf_editorD(2) [OF wf]
  note ok = frame_moves_ok [OF b] and row = frame_moves_row [OF b r]
  show "safe (calm ed) (with_frame ed (frame_move_prev_line (ed_buffer ed) (ed_frame ed))) (kept ed)"
    by (rule with_frame_kept [OF wf act ok(1) row(1)])
  show "safe (calm ed) (with_frame ed (frame_move_next_line (ed_buffer ed) (ed_frame ed))) (kept ed)"
    by (rule with_frame_kept [OF wf act ok(2) row(2)])
  show "safe (calm ed) (with_frame ed (frame_move_prev_char (ed_buffer ed) (ed_frame ed))) (kept ed)"
    by (rule with_frame_kept [OF wf act ok(3) row(3)])
  show "safe (calm ed) (with_frame ed (frame_move_next_char (ed_buffer ed) (ed_frame ed))) (kept ed)"
    by (rule with_frame_kept [OF wf act ok(4) row(4)])
  show "safe (calm ed) (with_frame ed (Some (frame_move_line_start (ed_frame ed)))) (kept ed)"
    by (rule with_frame_kept [OF wf act]) (use ok(5) row(5) in auto)
  show "safe (calm ed) (with_frame ed (frame_move_line_end (ed_buffer ed) (ed_frame ed))) (kept ed)"
    by (rule with_frame_kept [OF wf act ok(6) row(6)])
  show "safe (calm ed) (with_frame ed (frame_move_next_word (ed_buffer ed) (ed_frame ed))) (kept ed)"
    by (rule with_frame_kept [OF wf act ok(7) row(7)])
  show "safe (calm ed) (with_frame ed (frame_move_prev_word (ed_buffer ed) (ed_frame ed))) (kept ed)"
    by (rule with_frame_kept [OF wf act ok(8) row(8)])
qed

section \<open>Editing\<close>

lemma set_cursor_kept:
  assumes "wf_editor ed" "\<not> ed_isearch_active ed" "wf_buffer b" "row < line_count b"
    "calm ed \<Longrightarrow> in_text (texts b) row col"
  shows "kept ed (mark_dirty (set_cursor row col (ed\<lparr>ed_buffer := b\<rparr>)))"
  using kept_edit [OF assms(1,2) ring_only_refl wf_editorD(6) [OF assms(1)] assms(3-5)]
  by (simp add: set_cursor_def)

lemma calm_text: "calm ed \<Longrightarrow> in_text (texts (ed_buffer ed)) (cur_row ed) (cur_col ed)"
  by (simp add: calm_def good_cursor_in_text)

lemma insert_char_mode:
  assumes "wf_buffer buf" "row < line_count buf" "ch \<noteq> 0"
  shows "returns (buffer_insert_char buf row col ch) (\<lambda>b. wf_buffer b \<and>
    line_count b = line_count buf \<and> b_mode b = b_mode buf)"
proof -
  have "b_mode (set_line buf row l) = b_mode buf" for l by (simp add: set_line_def)
  then show ?thesis
    using buffer_insert_char_texts [OF assms, of col] buffer_insert_char_eq [OF assms(1,2), of col ch]
    by (simp add: Let_def)
qed

text \<open>The keys that change the text, each with the cursor it leaves.\<close>

lemma insert_char_kept:
  assumes wf: "wf_editor ed" and act: "\<not> ed_isearch_active ed" and "key \<noteq> 0"
  shows "returns (buffer_insert_char (ed_buffer ed) (cur_row ed) (cur_col ed) key) (\<lambda>b.
    kept ed (mark_dirty (set_cursor (cur_row ed) (cur_col ed + 1) (ed\<lparr>ed_buffer := b\<rparr>))))"
proof -
  note d = wf_editorD [OF wf]
  obtain b where b: "buffer_insert_char (ed_buffer ed) (cur_row ed) (cur_col ed) key = Some b"
    "wf_buffer b" "line_count b = line_count (ed_buffer ed)"
    using buffer_insert_char_texts [OF d(1,3) assms(3), of "cur_col ed"] by (elim returnsE) simp
  moreover have "calm ed \<Longrightarrow> in_text (texts b) (cur_row ed) (cur_col ed + 1)"
    using ved.put_law [OF d(1) calm_text assms(3)] b by simp
  ultimately show ?thesis using set_cursor_kept [OF wf act b(2)] d(3) by simp
qed

lemma key_insert_kept:
  assumes "wf_editor ed" "\<not> ed_isearch_active ed"
  shows "returns (key_insert ed key) (kept ed)"
proof (cases "key \<ge> 32 \<and> key \<noteq> KEY_BACKSPACE")
  case True
  then have "key \<noteq> 0" by auto
  from insert_char_kept [OF assms this] True show ?thesis
    by (simp add: key_insert_def with_buffer_def set_cursor_def)
next
  case False
  then show ?thesis using assms by (auto simp: key_insert_def kept_refl)
qed

lemma key_newline_kept:
  assumes wf: "wf_editor ed" and act: "\<not> ed_isearch_active ed"
  shows "returns (key_newline ed) (kept ed)"
proof -
  note d = wf_editorD [OF wf]
  obtain b where b: "buffer_insert_newline (ed_buffer ed) (cur_row ed) (cur_col ed) = Some b"
    "wf_buffer b" "line_count b = line_count (ed_buffer ed) + 1"
    using buffer_insert_newline_texts [OF d(1,3), of "cur_col ed"] by (elim returnsE) simp
  moreover have "calm ed \<Longrightarrow> in_text (texts b) (cur_row ed + 1) 0"
    using ved.brk_law [OF d(1) calm_text] b by simp
  ultimately show ?thesis using set_cursor_kept [OF wf act b(2), of "cur_row ed + 1" 0] d(3)
    by (simp add: key_newline_def with_buffer_def set_cursor_def)
qed

lemma key_open_line_kept:
  assumes wf: "wf_editor ed" and act: "\<not> ed_isearch_active ed"
  shows "returns (key_open_line ed) (kept ed)"
proof -
  note d = wf_editorD [OF wf]
  let ?r = "cur_row ed"
  obtain b where b: "buffer_insert_newline (ed_buffer ed) ?r 0 = Some b" "wf_buffer b"
    "line_count b = line_count (ed_buffer ed) + 1"
    "texts b = take ?r (texts (ed_buffer ed)) @ [[], ltext (ed_buffer ed) ?r] @
       drop (Suc ?r) (texts (ed_buffer ed))"
    using buffer_insert_newline_texts [OF d(1,3), of 0] by (elim returnsE) simp
  have "texts b ! (?r + 1) = ltext (ed_buffer ed) ?r"
    using d(3) unfolding b(4) by (simp add: nth_append)
  then have "calm ed \<Longrightarrow> in_text (texts b) (?r + 1) (cur_col ed)"
    using calm_col [of ed] d(3) b(3) by (simp add: in_text_def del: texts_nth)
  then show ?thesis using set_cursor_kept [OF wf act b(2), of "?r + 1" "cur_col ed"] d(3) b
    by (simp add: key_open_line_def with_buffer_def set_cursor_def)
qed


lemma key_tab_kept:
  assumes wf: "wf_editor ed" and act: "\<not> ed_isearch_active ed"
  shows "returns (key_tab ed) (kept ed)"
proof -
  note d = wf_editorD [OF wf]
  let ?r = "cur_row ed" and ?c = "cur_col ed"
  define n :: nat where "n = (if b_mode (ed_buffer ed) = MAKEFILE_MODE then 1 else 2)"
  have "returns (buffer_insert_tab (ed_buffer ed) ?r ?c) (\<lambda>b. wf_buffer b \<and>
      line_count b = line_count (ed_buffer ed) \<and> b_mode b = b_mode (ed_buffer ed) \<and>
      (calm ed \<longrightarrow> in_text (texts b) ?r (?c + n)))"
  proof -
    define ch :: byte where "ch = (if b_mode (ed_buffer ed) = MAKEFILE_MODE then 9 else 32)"
    have ch: "ch \<noteq> 0" by (simp add: ch_def)
    from insert_char_mode [OF d(1,3) ch, of ?c] obtain b where
      b: "buffer_insert_char (ed_buffer ed) ?r ?c ch = Some b" "wf_buffer b"
        "line_count b = line_count (ed_buffer ed)" "b_mode b = b_mode (ed_buffer ed)" by (rule returnsE) simp
    have c: "calm ed \<Longrightarrow> in_text (texts b) ?r (?c + 1)"
      using ved.put_law [OF d(1) calm_text ch] b(1) by simp
    show ?thesis
    proof (cases "b_mode (ed_buffer ed) = MAKEFILE_MODE")
      case True
      with b c show ?thesis by (simp add: buffer_insert_tab_def n_def ch_def)
    next
      case False
      have r: "?r < line_count b" using d(3) b(3) by simp
      from insert_char_mode [OF b(2) r ch, of "?c + 1"] obtain b' where
        b': "buffer_insert_char b ?r (?c + 1) ch = Some b'" "wf_buffer b'"
          "line_count b' = line_count b" "b_mode b' = b_mode b" by (rule returnsE) simp
      have "calm ed \<Longrightarrow> in_text (texts b') ?r (?c + 2)"
        using ved.put_law [OF b(2) c ch] b'(1) by simp
      with False b b' show ?thesis by (simp add: buffer_insert_tab_def n_def ch_def)
    qed
  qed
  then obtain b where b: "buffer_insert_tab (ed_buffer ed) ?r ?c = Some b" "wf_buffer b"
      "line_count b = line_count (ed_buffer ed)" "b_mode b = b_mode (ed_buffer ed)"
      "calm ed \<Longrightarrow> in_text (texts b) ?r (?c + n)" by (rule returnsE) simp
  have "kept ed (mark_dirty (set_cursor ?r (?c + n) (ed\<lparr>ed_buffer := b\<rparr>)))"
    using set_cursor_kept [OF wf act b(2) _ b(5)] d(3) b(3) by simp
  then show ?thesis
    unfolding key_tab_def with_buffer_def b(1) by (simp add: b(4) n_def set_cursor_def)
qed

lemma delete_forward_texts:
  assumes wf: "wf_buffer buf" and row: "row < line_count buf"
  shows "returns (buffer_delete_forward buf row col) (\<lambda>b. wf_buffer b \<and> row < line_count b \<and>
    (col \<le> length (ltext buf row) \<longrightarrow> in_text (texts b) row col))"
proof (cases "col < length (ltext buf row)")
  case True
  with buffer_delete_forward_eq [OF wf row] wf row show ?thesis
    by (simp add: wf_intros in_text_def del: texts_nth)
       (simp add: ltext_def)
next
  case False
  show ?thesis
  proof (cases "Suc row < line_count buf")
    case True
    have e: "buffer_delete_forward buf row col = join_rows buf row"
      using buffer_delete_forward_join [OF wf row] True False join_rows_eq [OF wf True] by simp
    show ?thesis unfolding e
      by (rule returns_mono [OF join_rows_texts [OF wf True]])
         (use True False in \<open>auto simp: in_text_def nth_append simp del: texts_nth\<close>)
  next
    case no: False
    with buffer_delete_forward_join [OF wf row] False wf row show ?thesis
      by (simp add: in_text_def)
  qed
qed

lemma key_delete_kept:
  assumes wf: "wf_editor ed" and act: "\<not> ed_isearch_active ed"
  shows "returns (key_delete ed) (kept ed)"
proof -
  note d = wf_editorD [OF wf]
  obtain b where b: "buffer_delete_forward (ed_buffer ed) (cur_row ed) (cur_col ed) = Some b"
    "wf_buffer b" "cur_row ed < line_count b"
    "cur_col ed \<le> length (ltext (ed_buffer ed) (cur_row ed)) \<Longrightarrow> in_text (texts b) (cur_row ed) (cur_col ed)"
    using delete_forward_texts [OF d(1,3), of "cur_col ed"] by (rule returnsE) simp
  then show ?thesis
    using kept_buffer [OF wf act ring_only_refl d(6) b(2,3)] calm_col [of ed]
    by (simp add: key_delete_def with_buffer_def)
qed

text \<open>
  Backspace steps back on the line that is already shorter, from a column that may be past its
  end. The bytes it reads there are those the deletion has left behind, and they are
  continuation bytes of the character deleted: the step ends in the line.
\<close>

lemma nth_behind:
  "length t < i \<Longrightarrow> i < length b \<Longrightarrow> (t @ x # drop (Suc (length t)) b) ! i = b ! i"
  by (simp add: nth_append nth_Cons' Suc_diff_Suc)

lemma backspace_boundary:
  assumes "wf_block b" "0 < c" "c \<le> length (cstr b)"
  defines "p \<equiv> prev_bnd (cstr b) c"
  shows "returns (utf8_prev_boundary (cut_block b p c) c)
    (\<lambda>q. q \<le> length (take p (cstr b) @ drop c (cstr b)))"
proof -
  let ?b = "cut_block b p c" and ?t = "take p (cstr b) @ drop c (cstr b)"
  have pc: "p < c" using prev_bnd_less [OF assms(2)] by (simp add: p_def)
  have len: "c < length b" using length_cstr_less [OF assms(1)] assms(3) by simp
  have lb: "length ?b = length b" using length_cut_block [OF assms(1)] pc assms(3) by simp
  have tail: "?b ! i = b ! i" if "length ?t < i" "i < length b" for i
  proof -
    have e: "?b = ?t @ 0 # drop (Suc (length ?t)) b"
      using pc assms(3) by (simp add: cut_block_def)
    show ?thesis unfolding e by (rule nth_behind [OF that])
  qed
  define q where "q = prev_bnd ?b c"
  have qc: "q < c" using prev_bnd_less [OF assms(2)] by (simp add: q_def)
  have "q \<le> length ?t"
  proof (rule ccontr)
    assume "\<not> q \<le> length ?t"
    then have g: "length ?t < q" by simp
    then have "\<not> utf8_is_continuation (?b ! q)" using prev_bnd_stop [of ?b c] by (auto simp: q_def)
    moreover have "?b ! q = cstr b ! q"
      using tail [OF g] qc len assms(3) by (simp add: cstr_nth)
    moreover have "utf8_is_continuation (cstr b ! q)"
      using prev_bnd_between [of "cstr b" c q] g qc pc assms(3) by (simp add: p_def)
    ultimately show False by simp
  qed
  moreover have "utf8_prev_boundary ?b c = Some q"
    using utf8_prev_boundary_eq [of c ?b] len lb by (simp add: q_def)
  ultimately show ?thesis by simp
qed

lemma backspace_in_line:
  assumes wf: "wf_buffer buf" "row < line_count buf" and col: "0 < col" "col \<le> length (ltext buf row)"
    and b: "buffer_delete_char buf row col = Some b"
  shows "returns (frame_move_prev_char b \<lparr>f_row = row, f_col = col\<rparr>) (good_cursor b)"
proof -
  let ?l = "b_lines buf ! row"
  let ?b = "cut_block ?l (prev_bnd (cstr ?l) col) col"
  have b': "b = set_line buf row ?b"
    using buffer_delete_char_eq [OF wf col(1)] b col(2) by (simp add: ltext_def)
  have r: "returns (utf8_prev_boundary ?b col) (\<lambda>q. q \<le> length (cstr ?b))"
    using backspace_boundary [OF wf_buffer_line [OF wf] col(1)] col(2) by (simp add: ltext_def)
  have row: "row < line_count b" "load_line b row = Some ?b" "ltext b row = cstr ?b"
    using wf(2) by (simp_all add: b' load_line_def) (simp_all add: set_line_def ltext_def)
  from r obtain q where "utf8_prev_boundary ?b col = Some q" "q \<le> length (cstr ?b)" by (rule returnsE)
  with row col(1) show ?thesis
    by (simp add: frame_move_prev_char_def good_cursor_def del: cstr_cut_block)
qed

lemma edit_and_move_kept:
  assumes "wf_editor ed" "\<not> ed_isearch_active ed" "wf_buffer b" "good_row b g"
    "calm ed \<Longrightarrow> good_cursor b g"
  shows "kept ed (ed\<lparr>ed_buffer := b, ed_frame := g\<rparr>)"
  using kept_edit [OF assms(1,2) ring_only_refl wf_editorD(6) [OF assms(1)] assms(3), of "f_row g" "f_col g"]
    assms(4,5) by (simp add: good_row_def good_cursor_in_text frame_eta)

lemma key_backspace_kept:
  assumes wf: "wf_editor ed" and act: "\<not> ed_isearch_active ed"
  shows "safe (calm ed) (key_backspace ed) (kept ed)"
proof -
  note d = wf_editorD [OF wf]
  let ?buf = "ed_buffer ed" and ?fr = "ed_frame ed"
  consider "cur_col ed = 0" "cur_row ed = 0" | r where "cur_col ed = 0" "cur_row ed = Suc r"
    | "0 < cur_col ed" by (cases "cur_row ed") auto
  then show ?thesis
  proof cases
    case 1
    with wf show ?thesis by (simp add: key_backspace_def kept_refl)
  next
    case 2
    then have r: "Suc r < line_count ?buf" using d(3) by simp
    have e: "buffer_delete_char ?buf (Suc r) 0 = join_rows ?buf r"
      using r by (simp add: buffer_delete_char_def)
    from join_rows_texts [OF d(1) r] obtain b where b: "join_rows ?buf r = Some b" "wf_buffer b"
      "line_count b = line_count ?buf - 1" by (rule returnsE) simp
    let ?g = "?fr\<lparr>f_row := r, f_col := length (ltext b r)\<rparr>"
    have row: "r < line_count b" using r b(3) by simp
    have m: "frame_move_prev_char b ?fr = Some ?g"
      using 2 line_length_eq [OF b(2) row] by (simp add: frame_move_prev_char_def)
    have "kept ed (ed\<lparr>ed_buffer := b, ed_frame := ?g\<rparr>)"
      by (rule edit_and_move_kept [OF wf act b(2)]) (simp_all add: good_row_def good_cursor_def row)
    then show ?thesis using 2 b(1) e m by (simp add: key_backspace_def with_buffer_def with_frame_def)
  next
    case 3
    obtain l where l: "buffer_delete_char ?buf (cur_row ed) (cur_col ed) = Some (set_line ?buf (cur_row ed) l)"
      "wf_block l" using buffer_delete_char_eq [OF d(1,3) 3] by (simp add: Let_def)
    define b where "b = set_line ?buf (cur_row ed) l"
    have b: "wf_buffer b" "good_row b ?fr" using d(1,3) l(2) by (simp_all add: b_def wf_intros good_row_def)
    have move: "calm ed \<Longrightarrow> returns (frame_move_prev_char b ?fr) (good_cursor b)"
      using backspace_in_line [OF d(1,3) 3 calm_col l(1)] by (simp add: b_def frame_eta)
    have "safe (calm ed) (frame_move_prev_char b ?fr)
        (\<lambda>g. good_row b g \<and> (calm ed \<longrightarrow> good_cursor b g))"
      using move frame_moves_row(3) [OF b] by (auto simp: safe_def returns_def)
    then have "safe (calm ed) (with_frame (ed\<lparr>ed_buffer := b\<rparr>) (frame_move_prev_char b ?fr))
        (kept ed)"
      unfolding with_frame_def
      by (rule safe_bind) (simp add: edit_and_move_kept [OF wf act b(1)])
    then have "safe (calm ed) (Option.bind (with_frame (ed\<lparr>ed_buffer := b\<rparr>) (frame_move_prev_char b ?fr))
        (\<lambda>e. Some (mark_dirty e))) (kept ed)"
      by (rule safe_bind) simp
    then show ?thesis using 3 l(1) by (simp add: key_backspace_def with_buffer_def flip: b_def)
  qed
qed

section \<open>Saving and the prompt\<close>

lemma editor_save_to_ok:
  "\<exists>ok out. editor_save_to os ed path = Some (ed\<lparr>ed_saves := ed_saves ed @ [(path, ok, out)]\<rparr>, ok)"
  if "wf_editor ed"
  using write_lines_total [of "b_lines (ed_buffer ed)" "sv_write (os_save os path)" 0 "[]"]
    wf_editorD(1) [OF that] by (auto simp: editor_save_to_def buffer_write_file_def wf_buffer_def)

lemma kept_prompt:
  assumes "wf_editor ed" "length (fl_buf f) = FIELD_SIZE" "a \<Longrightarrow> wf_field f"
  shows "kept ed (ed\<lparr>ed_prompt_active := a, ed_prompt_save_as := s, ed_prompt := f\<rparr>)"
  using assms by (simp add: state_defs)

lemma editor_prompt_save_as_kept:
  assumes "wf_editor ed"
  shows "returns (editor_prompt_save_as ed) (kept ed)"
proof -
  from field_reset_ok [of "ed_prompt ed"] assms
  obtain f where f: "field_reset (ed_prompt ed) = Some f" "wf_field f"
    by (auto simp: wf_editor_def elim: returnsE)
  with kept_prompt [OF assms, of f True True] show ?thesis
    by (simp add: editor_prompt_save_as_def wf_field_def)
qed

lemma editor_save_kept:
  assumes "wf_editor ed"
  shows "returns (editor_save os ed) (kept ed)"
proof (cases "b_file_path (ed_buffer ed)")
  case None
  with editor_prompt_save_as_kept [OF assms] show ?thesis by (simp add: editor_save_def)
next
  case (Some path)
  with editor_save_to_ok [OF assms, of os path] kept_refl [OF assms] show ?thesis
    by (auto simp: editor_save_def save_failed_def)
qed

lemma prompt_edit_kept:
  assumes "wf_editor ed" "returns m wf_field"
  shows "returns (with_prompt ed m) (kept ed)"
proof -
  obtain f where f: "m = Some f" "wf_field f" using assms(2) by (rule returnsE)
  then have "kept ed (ed\<lparr>ed_prompt := f\<rparr>)" using assms(1) by (simp add: state_defs wf_field_def)
  then show ?thesis by (simp add: with_prompt_def f)
qed

lemma prompt_close_kept:
  assumes "wf_editor ed"
  shows "kept ed (ed\<lparr>ed_prompt_active := False, ed_prompt_save_as := False,
    ed_prompt := (ed_prompt ed)\<lparr>fl_col := 0\<rparr>\<rparr>)"
  using kept_prompt [OF assms, of "(ed_prompt ed)\<lparr>fl_col := 0\<rparr>" False False] assms
  by (simp add: wf_editor_def)

lemma kept_file:
  assumes "wf_editor ed"
  shows "kept ed (ed\<lparr>ed_buffer := (ed_buffer ed)\<lparr>b_file_path := p, b_mode := m\<rparr>\<rparr>)"
  using assms by (simp add: state_defs wf_buffer_def texts_def ltext_def good_cursor_def)

lemma prompt_accept_kept:
  assumes wf: "wf_editor ed" and act: "ed_prompt_active ed"
  shows "returns (prompt_accept os ed) (kept ed)"
proof -
  have "wf_field (ed_prompt ed)" using wf_editorD(7) [OF wf act] .
  then have b: "wf_block (fl_buf (ed_prompt ed))" by (simp add: wf_field_block)
  let ?m = "if fl_len (ed_prompt ed) = 0 then Some (say ''No file name'' ed)
           else if ed_prompt_save_as ed then do {
             copy \<leftarrow> strndup (fl_buf (ed_prompt ed)) (fl_len (ed_prompt ed));
             path \<leftarrow> c_string copy;
             (ed, ok) \<leftarrow> editor_save_to os ed path;
             Some (if ok then
                     say ''Saved'' (ed\<lparr>ed_buffer := (ed_buffer ed)\<lparr>b_file_path := Some path,
                        b_mode := detect_mode (Some path)\<rparr>, ed_dirty := False\<rparr>)
                   else save_failed os ed)
           }
           else Some ed"
  have "returns ?m (kept ed)"
  proof -
    define path where "path = take (fl_len (ed_prompt ed)) (cstr (fl_buf (ed_prompt ed)))"
    have s: "strndup (fl_buf (ed_prompt ed)) (fl_len (ed_prompt ed)) = Some (path @ [0])"
      using b by (simp add: strndup_eq path_def)
    have c: "c_string (path @ [0]) = Some path"
      using c_string_eq [of "path @ 0 # []"] by (simp add: path_def set_take_sub)
    obtain ok out where sv: "editor_save_to os ed path =
        Some (ed\<lparr>ed_saves := ed_saves ed @ [(path, ok, out)]\<rparr>, ok)"
      using editor_save_to_ok [OF wf] by blast
    have "kept ed (ed\<lparr>ed_saves := v, ed_buffer := (ed_buffer ed)\<lparr>b_file_path := p, b_mode := m\<rparr>\<rparr>)" for v p m
      using kept_file [of "ed\<lparr>ed_saves := v\<rparr>" m p] wf kept_refl [OF wf]
      by (auto intro: kept_trans [of _ "ed\<lparr>ed_saves := v\<rparr>"])
    then show ?thesis using kept_refl [OF wf] by (simp add: s c sv save_failed_def)
  qed
  then obtain e where e: "?m = Some e" "kept ed e" by (rule returnsE)
  from kept_trans [OF e(2) prompt_close_kept [OF kept_wf [OF e(2)]]]
  show ?thesis unfolding prompt_accept_def e(1) by simp
qed

lemma prompt_handle_key_kept:
  assumes wf: "wf_editor ed" and act: "ed_prompt_active ed"
  shows "returns (prompt_handle_key os ed key) (kept ed)"
proof -
  note f = wf_editorD(7) [OF wf act]
  note m = field_moves_ok [OF f] field_edits_ok [OF f]
  have "32 \<le> key \<Longrightarrow> key \<noteq> 0" by auto
  then have "32 \<le> key \<Longrightarrow> returns (with_prompt ed (field_insert (ed_prompt ed) key)) (kept ed)"
    by (intro prompt_edit_kept [OF wf] m(13))
  moreover have "returns (with_prompt ed (Some (field_move_start (ed_prompt ed)))) (kept ed)"
    "returns (with_prompt ed (Some (field_move_end (ed_prompt ed)))) (kept ed)"
    by (rule prompt_edit_kept [OF wf], simp add: m)+
  ultimately show ?thesis
    using prompt_edit_kept [OF wf m(3)] prompt_edit_kept [OF wf m(4)] prompt_edit_kept [OF wf m(8)]
      prompt_edit_kept [OF wf m(9)] prompt_edit_kept [OF wf m(10)] prompt_edit_kept [OF wf m(12)]
      prompt_close_kept [OF wf] prompt_accept_kept [OF wf act] kept_refl [OF wf]
    unfolding prompt_handle_key_def by simp
qed

section \<open>Regions\<close>

lemma region_in_text:
  assumes "calm ed" "good_mark ed" "editor_get_region ed = Some (sr, sc, er, ec)"
  shows "in_text (texts (ed_buffer ed)) sr sc" "in_text (texts (ed_buffer ed)) er ec"
  using editor_get_region_SomeD [OF assms(3)] calm_text [OF assms(1)] assms(2)
  by (auto simp: good_mark_def)

lemma no_region: "editor_get_region ed = None \<Longrightarrow> editor_copy_region_text ed = Some (None, 0)"
  by (simp add: editor_copy_region_text_def)

lemma copy_region_safe:
  assumes wf: "wf_editor ed"
  shows "safe (calm ed \<and> good_mark ed) (editor_copy_region ed) (\<lambda>(ed', c). kept ed ed')"
proof (rule safeI)
  assume c: "calm ed \<and> good_mark ed"
  show "editor_copy_region ed \<noteq> None"
  proof (cases "editor_get_region ed")
    case None
    then show ?thesis by (simp add: editor_copy_region_def no_region)
  next
    case (Some r)
    then obtain sr sc er ec where r: "editor_get_region ed = Some (sr, sc, er, ec)" by (cases r) auto
    with editor_copy_region_ok [OF wf r region_in_text [OF _ _ r]] c
    show ?thesis by (intro returns_not_None) simp
  qed
next
  fix x assume "editor_copy_region ed = Some x"
  then show "case x of (ed', c) \<Rightarrow> kept ed ed'" using editor_copy_region_wf [OF wf] by (cases x) auto
qed

lemma kill_region_safe:
  assumes wf: "wf_editor ed" and act: "\<not> ed_isearch_active ed"
  shows "safe (calm ed \<and> good_mark ed) (editor_kill_region ed) (\<lambda>(ed', k). keeps ed ed')"
proof -
  have good: "returns (editor_kill_region ed) (\<lambda>(ed', k). kept ed ed')" if c: "calm ed \<and> good_mark ed"
  proof (cases "editor_get_region ed")
    case None
    then show ?thesis using kept_refl [OF wf] by (simp add: editor_kill_region_def)
  next
    case (Some r)
    then obtain sr sc er ec where r: "editor_get_region ed = Some (sr, sc, er, ec)" by (cases r) auto
    show ?thesis
      using c by (intro returns_mono [OF editor_kill_region_ok [OF wf act r region_in_text(1) [OF _ _ r]
        region_in_text(2) [OF _ _ r]]]) auto
  qed
  show ?thesis
  proof (rule safeI)
    assume "calm ed \<and> good_mark ed"
    with good show "editor_kill_region ed \<noteq> None" by (intro returns_not_None)
  next
    fix x assume x: "editor_kill_region ed = Some x"
    obtain e k where e: "x = (e, k)" by fastforce
    have "calm ed \<and> good_mark ed \<Longrightarrow> kept ed e"
      using good x e by (auto elim: returnsE)
    with editor_kill_region_wf [OF wf act] x e show "case x of (ed', k) \<Rightarrow> keeps ed ed'"
      by (auto simp: keeps_def kept_def)
  qed
qed

section \<open>Meta keys\<close>

lemma prompt_meta_key_kept:
  assumes posix: "posix_paths os" and wf: "wf_editor ed" and act: "ed_prompt_active ed"
    and esc: "ed_esc_state ed = ESC_NONE" "\<not> ed_isearch_active ed"
  shows "returns (prompt_meta_key os ed key rk ry) (\<lambda>(ed', h, rk', ry'). kept ed ed' \<and> h)"
proof (cases "key = 112")
  case True
  then show ?thesis
    using finder_open_kept [OF posix wf esc] by (auto simp: prompt_meta_key_def elim!: returnsE)
next
  case False
  note f = wf_editorD(7) [OF wf act]
  note m = field_moves_ok [OF f] field_edits_ok [OF f]
  have "returns (with_prompt ed (Some (field_move_start (ed_prompt ed)))) (kept ed)"
    "returns (with_prompt ed (Some (field_move_end (ed_prompt ed)))) (kept ed)"
    by (rule prompt_edit_kept [OF wf], simp add: m)+
  with False show ?thesis
    using prompt_edit_kept [OF wf m(5)] prompt_edit_kept [OF wf m(6)] prompt_edit_kept [OF wf m(10)]
      prompt_edit_kept [OF wf m(11)] kept_refl [OF wf]
    unfolding prompt_meta_key_def by simp
qed

lemma meta_key_safe:
  assumes posix: "posix_paths os" and wf: "wf_editor ed" and esc: "ed_esc_state ed = ESC_NONE"
    and act: "\<not> ed_isearch_active ed" and yank: "\<not> ed_last_was_yank ed"
  shows "safe (calm ed \<and> good_mark ed) (handle_meta_key os ed key rk ry)
    (\<lambda>(ed', h, rk', ry'). kept ed ed' \<and> (\<not> h \<longrightarrow> ed' = ed \<and> rk' = rk \<and> ry' = ry))"
proof -
  define k where "k = (if key \<ge> 65 \<and> key \<le> 90 then key - 65 + 97 else key)"
  define Q where "Q = (\<lambda>(ed', h, rk', ry'). kept ed ed' \<and> (\<not> h \<longrightarrow> ed' = ed \<and> rk' = rk \<and> ry' = ry))"
  let ?C = "calm ed \<and> good_mark ed"
  have move: "safe ?C (Option.bind (with_frame ed m) (\<lambda>ed. Some (ed, True, True, ry))) Q"
    if "safe (calm ed) (with_frame ed m) (kept ed)" for m
    by (rule safe_bind [OF safe_mono [OF that]]) (simp_all add: Q_def)
  have kill: "safe ?C (Option.bind m (\<lambda>ed. Some ((mark_dirty ed)\<lparr>ed_last_was_kill := True\<rparr>, True, False, ry))) Q"
    if "returns m (kept ed)" for m
    by (rule safe_bind [OF safe_returns [OF that]]) (simp add: Q_def)
  have copy: "safe ?C (Option.bind (editor_copy_region ed) (\<lambda>(ed, copied).
      Some ((if copied then say ''Copied'' ed else say ''No region'' ed)\<lparr>ed_last_was_kill := False\<rparr>,
        True, True, ry))) Q"
    by (rule safe_bind [OF copy_region_safe [OF wf]]) (auto simp: Q_def split: if_splits)
  have find: "safe ?C (Option.bind (finder_open os ed) (\<lambda>(ed, _). Some (ed, True, True, ry))) Q"
    by (rule safe_bind [OF safe_returns [OF finder_open_kept [OF posix wf esc act]]]) (auto simp: Q_def)
  have prompt: "ed_prompt_active ed \<Longrightarrow> safe ?C (prompt_meta_key os ed k rk ry) Q"
    by (rule safe_mono [OF safe_returns [OF prompt_meta_key_kept [OF posix wf _ esc act]]]) (auto simp: Q_def)
  have word: "returns (editor_kill_word_forward ed) (kept ed)"
    by (rule returns_mono [OF kill_word_forward_ok [OF wf act]]) simp
  have same: "Q (ed, True, rk, ry)" "Q (ed, False, rk, ry)" using kept_refl [OF wf] by (simp_all add: Q_def)
  have "safe ?C (handle_meta_key os ed key rk ry) Q"
    unfolding handle_meta_key_def Let_def k_def [symmetric]
    by (intro safe_if prompt move moves_kept(7,8) [OF wf act] kill word
        kill_word_backward_ok [OF wf act] copy find; (use same yank in simp)?)
  then show ?thesis by (simp add: Q_def)
qed

section \<open>Escape sequences\<close>

definition mouse_final :: "editor \<Rightarrow> byte \<Rightarrow> bool" where
  "mouse_final ed key \<longleftrightarrow> ed_esc_state ed = ESC_MOUSE \<and> (key = 109 \<or> key = 77)"

text \<open>What a key does in the end. Only \<open>C-@\<close> and the mouse set the mark.\<close>

definition stepped :: "editor \<Rightarrow> byte \<Rightarrow> editor \<Rightarrow> bool" where
  "stepped ed key ed' \<longleftrightarrow> wf_editor ed' \<and>
     (calm ed \<and> good_mark ed \<and> \<not> mouse_final ed key \<longrightarrow> calm ed') \<and>
     (ed_mark_active ed' \<longrightarrow> ed_mark_active ed \<or> key = 0 \<or> mouse_final ed key)"

text \<open>A key the escape parser does not take: nothing has changed but the parser itself.\<close>

definition passed :: "editor \<Rightarrow> editor \<Rightarrow> bool" where
  "passed ed ed' \<longleftrightarrow> wf_editor ed' \<and> calm ed' = calm ed \<and> good_mark ed' = good_mark ed \<and>
     ed_mark_active ed' = ed_mark_active ed \<and> ed_esc_state ed' = ESC_NONE"

lemma keeps_stepped: "keeps ed ed' \<Longrightarrow> stepped ed key ed'"
  by (simp add: keeps_def stepped_def)

lemma passed_stepped: "passed ed e \<Longrightarrow> stepped e key ed' \<Longrightarrow> stepped ed key ed'"
  by (auto simp: passed_def stepped_def mouse_final_def)

lemma good_mark_esc [simp]: "good_mark (ed\<lparr>ed_esc_state := s\<rparr>) = good_mark ed"
  "good_mark (ed\<lparr>ed_esc_len := n\<rparr>) = good_mark ed" "good_mark (ed\<lparr>ed_esc_buf := b\<rparr>) = good_mark ed"
  "good_mark (ed\<lparr>ed_pending_ctrl_x := p\<rparr>) = good_mark ed"
  by (simp_all add: good_mark_def)

lemma calm_esc [simp]: "calm (ed\<lparr>ed_esc_len := n\<rparr>) = calm ed" "calm (ed\<lparr>ed_esc_buf := b\<rparr>) = calm ed"
  by (simp_all add: calm_def)

lemma wf_escape:
  assumes "wf_editor ed" "ed_esc_state ed \<noteq> ESC_NONE"
  shows "\<not> ed_isearch_active ed" "\<not> fd_active (ed_finder ed)" "\<not> ed_last_was_yank ed"
    "wf_editor (ed\<lparr>ed_esc_state := s\<rparr>)" "wf_editor (ed\<lparr>ed_esc_state := s, ed_esc_len := 0\<rparr>)"
  using assms by (auto simp: state_defs ESC_BUF_SIZE_def)

lemma escape_passed:
  assumes "wf_editor ed" "ed_esc_state ed \<noteq> ESC_NONE"
  shows "passed ed (ed\<lparr>ed_esc_state := ESC_NONE\<rparr>)"
  using wf_escape(4) [OF assms] by (simp add: passed_def)

lemma passed_keeps: "passed ed e \<Longrightarrow> kept e ed' \<Longrightarrow> keeps ed ed'"
  by (auto simp: passed_def keeps_def kept_def)

lemma passed_calm: "passed ed e \<Longrightarrow> calm ed \<and> good_mark ed \<longleftrightarrow> calm e \<and> good_mark e"
  by (simp add: passed_def)

lemma esc_append_keeps:
  assumes "wf_editor ed" "ed_esc_state ed \<noteq> ESC_NONE"
  shows "returns (esc_append ed key) (keeps ed)"
proof (cases "ed_esc_len ed + 1 < ESC_BUF_SIZE")
  case True
  then have "wf_editor (ed\<lparr>ed_esc_buf := (ed_esc_buf ed)[ed_esc_len ed := key], ed_esc_len := ed_esc_len ed + 1\<rparr>)"
    using assms(1) by (simp add: state_defs)
  with True assms(1) show ?thesis by (simp add: esc_append_def store_def keeps_def wf_editor_def)
next
  case False
  with wf_escape(4) [OF assms] show ?thesis by (simp add: esc_append_def keeps_def)
qed

lemma arrow_key_safe:
  assumes wf: "wf_editor ed" and act: "\<not> ed_isearch_active ed"
  shows "safe (calm ed) (arrow_key ed key) (kept ed)"
  unfolding arrow_key_def
  by (intro safe_if moves_kept [OF wf act])
     (auto simp: kept_refl [OF wf] finder_move_selection_kept [OF wf])

lemma mouse_event_unhandled:
  "handle_mouse_event ed seq type = Some (ed', False) \<Longrightarrow> ed' = ed"
  by (auto simp: handle_mouse_event_def Let_def bind_eq_Some_conv split: if_splits prod.splits)

lemma escape_safe:
  assumes posix: "posix_paths os" and wf: "wf_editor ed" and esc: "ed_esc_state ed \<noteq> ESC_NONE"
  shows "safe (calm ed \<and> good_mark ed) (handle_escape os ed key True True)
    (\<lambda>(ed', h, rk, ry). if h then stepped ed key ed' else passed ed ed' \<and> rk \<and> ry)"
proof -
  let ?e = "ed\<lparr>ed_esc_state := ESC_NONE\<rparr>" and ?C = "calm ed \<and> good_mark ed"
  define Q where "Q = (\<lambda>(ed', h, rk, ry). if h then stepped ed key ed' else passed ed ed' \<and> rk \<and> ry)"
  note pass = escape_passed [OF wf esc]
  have pf: "wf_editor ?e" "ed_esc_state ?e = ESC_NONE" "\<not> ed_isearch_active ?e" "\<not> ed_last_was_yank ?e"
    using wf_escape [OF wf esc] by simp_all
  have ks: "kept ?e e' \<Longrightarrow> stepped ed key e'" for e'
    by (rule keeps_stepped [OF passed_keeps [OF pass]])
  have state: "Q (ed\<lparr>ed_esc_state := s\<rparr>, True, True, True)" "Q (ed\<lparr>ed_esc_state := s, ed_esc_len := 0\<rparr>, True, True, True)"
    for s using wf_escape [OF wf esc] by (simp_all add: Q_def keeps_def keeps_stepped)
  have meta: "safe ?C (handle_meta_key os ?e key True True) Q"
    by (rule safe_mono [OF meta_key_safe [OF posix pf(1,2,3,4)]])
       (auto simp: Q_def pass split: if_splits intro!: ks)
  have arrow: "safe ?C (Option.bind (arrow_key ?e key) (\<lambda>ed. Some (ed, True, True, True))) Q"
    by (rule safe_bind [OF safe_mono [OF arrow_key_safe [OF pf(1,3)]]])
       (auto simp: Q_def intro: ks)
  have app: "safe ?C (Option.bind (esc_append ed key) (\<lambda>ed. Some (ed, True, True, True))) Q"
    by (rule safe_bind [OF safe_returns [OF esc_append_keeps [OF wf esc]]]) (auto simp: Q_def keeps_stepped)
  have find: "safe ?C (Option.bind (finder_open os ?e) (\<lambda>(ed, _). Some (ed, True, True, True))) Q"
    by (rule safe_bind [OF safe_returns [OF finder_open_kept [OF posix pf(1-3)]]])
       (auto simp: Q_def intro: ks)
  have skip: "Q (?e, False, True, True)" using pass by (simp add: Q_def)
  have mouse: "safe ?C (Option.bind (store (ed_esc_buf ed) (ed_esc_len ed) 0) (\<lambda>buf.
      let ed = ed\<lparr>ed_esc_buf := buf, ed_esc_state := ESC_NONE\<rparr>
      in Option.bind (handle_mouse_event ed (ed_esc_buf ed) key) (\<lambda>(ed, h). Some (ed, h, True, True)))) Q"
    if m: "ed_esc_state ed = ESC_MOUSE" "key = 109 \<or> key = 77"
  proof -
    let ?b = "(ed_esc_buf ed)[ed_esc_len ed := 0]"
    let ?m = "ed\<lparr>ed_esc_buf := ?b, ed_esc_state := ESC_NONE\<rparr>"
    have n: "ed_esc_len ed < length (ed_esc_buf ed)" using wf by (simp add: wf_editor_def)
    have wm: "wf_editor ?m" using pf(1) wf by (simp add: state_defs)
    have p: "passed ed ?m" using wm by (simp add: passed_def)
    have "returns (handle_mouse_event ?m ?b key) (\<lambda>(ed', h). Q (ed', h, True, True))"
    proof (rule safe_returns' [OF handle_mouse_event_wf [OF wm _ , of "ed_esc_len ed"]])
      fix x assume x: "handle_mouse_event ?m ?b key = Some x" "case x of (ed', h) \<Rightarrow> wf_editor ed'"
      then show "case x of (ed', h) \<Rightarrow> Q (ed', h, True, True)"
        using mouse_event_unhandled [of ?m ?b key] m p
        by (cases x; cases "snd x") (auto simp: Q_def stepped_def mouse_final_def)
    qed (use pf(3) n in simp_all)
    then show ?thesis using n
      by (intro safe_returns) (auto simp: store_eq elim!: returnsE)
  qed
  have "safe ?C (handle_escape os ed key True True) Q"
    unfolding handle_escape_def using esc
    by (intro safe_if meta arrow app find mouse; (use state skip in simp)?)
       (cases "ed_esc_state ed"; simp)
  then show ?thesis by (simp add: Q_def)
qed

section \<open>The switch and the key\<close>

lemma done_simps [simp]: "calm (editor_done rk ry ed) = calm ed"
  "ed_mark_active (editor_done rk ry ed) = ed_mark_active ed"
  "ed_esc_state (editor_done rk ry ed) = ed_esc_state ed"
  by (simp_all add: editor_done_def Let_def)

lemma wf_done: "wf_editor ed \<Longrightarrow> wf_editor (editor_done rk ry ed)"
  by (auto simp: editor_done_def Let_def wf_editor_def wf_isearch_def query_field_def wf_kill_ring_def)

lemma stepped_done: "stepped ed key e \<Longrightarrow> stepped ed key (editor_done rk ry e)"
  using wf_done by (auto simp: stepped_def)

lemma kept_stepped: "kept ed ed' \<Longrightarrow> stepped ed key ed'"
  by (rule keeps_stepped [OF kept_keeps])

lemma keeps_other [simp]: "keeps ed (status msg e) = keeps ed e"
  "keeps ed (e\<lparr>ed_last_was_kill := k\<rparr>) = keeps ed e"
  "ed_mark_active (status msg ed) = ed_mark_active ed"
  by (simp_all add: keeps_def) (simp_all add: status_def)

lemma kept_yank: "kept ed e \<Longrightarrow> ed_esc_state ed = ESC_NONE \<Longrightarrow> kept ed (e\<lparr>ed_last_was_yank := True\<rparr>)"
  by (auto simp: kept_def wf_editor_def wf_isearch_def query_field_def wf_kill_ring_def)

lemma key_mark_stepped: "wf_editor ed \<Longrightarrow> stepped ed 0 (key_mark ed)"
  by (simp add: stepped_def key_mark_def say_def) (simp add: calm_def set_mark_def)

lemma move_or_edit_safe:
  assumes wf: "wf_editor ed" and act: "\<not> ed_isearch_active ed"
  shows "safe (calm ed)
    (if key = ctrl_key 112 then with_frame ed (frame_move_prev_line (ed_buffer ed) (ed_frame ed))
     else if key = ctrl_key 110 then with_frame ed (frame_move_next_line (ed_buffer ed) (ed_frame ed))
     else if key = ctrl_key 98 then with_frame ed (frame_move_prev_char (ed_buffer ed) (ed_frame ed))
     else if key = ctrl_key 102 then with_frame ed (frame_move_next_char (ed_buffer ed) (ed_frame ed))
     else if key = ctrl_key 97 then with_frame ed (Some (frame_move_line_start (ed_frame ed)))
     else if key = ctrl_key 101 then with_frame ed (frame_move_line_end (ed_buffer ed) (ed_frame ed))
     else if key = ctrl_key 111 then key_open_line ed
     else if key = KEY_BACKSPACE then key_backspace ed
     else if key = 13 then key_newline ed
     else if key = 9 then key_tab ed
     else if key = ctrl_key 100 then key_delete ed
     else key_insert ed key) (kept ed)"
  by (intro safe_if moves_kept [OF wf act] key_backspace_kept [OF wf act]
      safe_returns [OF key_open_line_kept [OF wf act]] safe_returns [OF key_newline_kept [OF wf act]]
      safe_returns [OF key_tab_kept [OF wf act]] safe_returns [OF key_delete_kept [OF wf act]]
      safe_returns [OF key_insert_kept [OF wf act]])

lemma switch_safe:
  assumes wf: "wf_editor ed" and act: "\<not> ed_isearch_active ed" and esc: "ed_esc_state ed = ESC_NONE"
  shows "safe (calm ed \<and> good_mark ed) (editor_switch ed key rk ry) (\<lambda>(ed', _). stepped ed key ed')"
proof -
  define Q where "Q = (\<lambda>(ed', rk :: bool, ry :: bool). stepped ed key ed')"
  let ?C = "calm ed \<and> good_mark ed"
  have cx: "Q (say ''C-x'' (ed\<lparr>ed_pending_ctrl_x := True\<rparr>), True, ry)"
    by (simp add: Q_def kept_stepped kept_refl [OF wf])
  have mark: "key = 0 \<Longrightarrow> Q (key_mark ed, True, ry)"
    using key_mark_stepped [OF wf] by (simp add: Q_def)
  have kill: "safe ?C (Option.bind (editor_kill_line ed) (\<lambda>ed. Some (ed\<lparr>ed_last_was_kill := True\<rparr>, False, ry))) Q"
    by (rule safe_bind [OF safe_returns [OF kill_line_ok [OF wf act]]]) (simp add: Q_def kept_stepped)
  have yank: "safe ?C (Option.bind (editor_yank ed) (\<lambda>(ed, y).
      Some (if y then (ed\<lparr>ed_last_was_yank := True\<rparr>, rk, False) else (ed, rk, ry)))) Q"
    by (rule safe_bind [OF safe_returns [OF editor_yank_ok [OF wf act]]])
       (auto simp: Q_def intro!: kept_stepped kept_yank esc)
  have region: "safe ?C (Option.bind (editor_kill_region ed) (\<lambda>(ed, k).
      Some (if k then (say ''Killed'' (ed\<lparr>ed_last_was_kill := True\<rparr>), False, ry)
            else (say ''No region'' ed, rk, ry)))) Q"
    by (rule safe_bind [OF kill_region_safe [OF wf act]])
       (auto simp: Q_def say_def split: if_splits intro!: keeps_stepped)
  have edit: "safe ?C (Option.bind m (\<lambda>ed. Some (ed, rk, ry))) Q" if "safe (calm ed) m (kept ed)" for m
    by (rule safe_bind [OF safe_mono [OF that]]) (simp_all add: Q_def kept_stepped)
  have "safe ?C (editor_switch ed key rk ry) Q"
    unfolding editor_switch_def
    by (intro safe_if kill yank region edit [OF move_or_edit_safe [OF wf act]]; (use cx mark in simp)?)
  then show ?thesis by (rule safe_mono) (auto simp: Q_def)
qed

lemma command_safe:
  assumes wf: "wf_editor ed" and act: "\<not> ed_isearch_active ed" and esc: "ed_esc_state ed = ESC_NONE"
    and fd: "\<not> fd_active (ed_finder ed)"
  shows "safe (calm ed \<and> good_mark ed) (editor_command ed key rk ry) (stepped ed key)"
proof -
  have s: "safe (calm ed \<and> good_mark ed) (Option.bind (isearch_begin ed f) (\<lambda>ed. Some (editor_done rk ry ed)))
      (stepped ed key)" for f
    by (rule safe_bind [OF safe_returns [OF isearch_begin_kept [OF wf esc fd]]])
       (simp add: stepped_done kept_stepped)
  show ?thesis
    unfolding editor_command_def
    by (intro safe_if s safe_bind [OF switch_safe [OF wf act esc]]) (auto simp: stepped_done)
qed

lemma ctrl_x_safe:
  assumes wf: "wf_editor ed" and act: "\<not> ed_isearch_active ed" and esc: "ed_esc_state ed = ESC_NONE"
    and fd: "\<not> fd_active (ed_finder ed)"
  shows "safe (calm ed \<and> good_mark ed) (editor_ctrl_x os ed key rk ry) (stepped ed key)"
proof -
  let ?e = "ed\<lparr>ed_pending_ctrl_x := False\<rparr>"
  have pf: "wf_editor ?e" "\<not> ed_isearch_active ?e" "ed_esc_state ?e = ESC_NONE" "\<not> fd_active (ed_finder ?e)"
    using assms by simp_all
  have st: "stepped ?e key x \<Longrightarrow> stepped ed key x" for x
    by (simp add: stepped_def mouse_final_def)
  have save: "safe (calm ed \<and> good_mark ed) (Option.bind (editor_save os ?e) (\<lambda>ed. Some (editor_done True ry ed)))
      (stepped ed key)"
    by (rule safe_bind [OF safe_returns [OF editor_save_kept [OF pf(1)]]])
       (simp add: st stepped_done kept_stepped)
  have stop: "stepped ed key (?e\<lparr>ed_should_exit := True\<rparr>)"
    by (rule kept_stepped) (simp add: kept_refl [OF wf])
  have comm: "safe (calm ed \<and> good_mark ed) (editor_command ?e key rk ry) (stepped ed key)"
    by (rule safe_mono [OF command_safe [OF pf]]) (simp_all add: st)
  show ?thesis
    unfolding editor_ctrl_x_def Let_def by (intro safe_if save comm; (use stop in simp)?)
qed

lemma cancel_kept:
  assumes "wf_editor ed" "ed_esc_state ed = ESC_NONE" "\<not> ed_isearch_active ed"
  shows "kept ed (editor_cancel ed)"
  unfolding editor_cancel_def kept_say using assms by (simp add: state_defs ESC_BUF_SIZE_def)

lemma isearch_finish_same:
  "isearch_finish ed restore = Some e \<Longrightarrow> ed_buffer e = ed_buffer ed \<and> ed_finder e = ed_finder ed \<and>
     ed_mark_active e = ed_mark_active ed \<and> ed_mark_row e = ed_mark_row ed \<and> ed_mark_col e = ed_mark_col ed"
  by (auto simp: isearch_finish_def set_cursor_def bind_eq_Some_conv Let_def
      split: if_splits)

lemma isearch_unhandled:
  "isearch_handle_key ed key = Some (e, False) \<Longrightarrow> ed_buffer e = ed_buffer ed \<and> ed_finder e = ed_finder ed \<and>
     ed_mark_active e = ed_mark_active ed \<and> ed_mark_row e = ed_mark_row ed \<and> ed_mark_col e = ed_mark_col ed"
  by (auto simp: isearch_handle_key_def bind_eq_Some_conv dest: isearch_finish_same
      split: if_splits prod.splits)

lemma key_safe:
  assumes wf: "wf_editor ed" and esc: "ed_esc_state ed = ESC_NONE"
  shows "safe (calm ed \<and> good_mark ed) (editor_key os ed key True True) (stepped ed key)"
proof (cases "fd_active (ed_finder ed)")
  case True
  have "safe (calm ed \<and> good_mark ed) (Option.bind (finder_handle_key os ed key)
      (\<lambda>ed. Some (editor_done True True ed))) (stepped ed key)"
    by (rule safe_bind [OF safe_returns [OF finder_handle_key_kept [OF wf]]]) (simp add: stepped_done kept_stepped)
  then show ?thesis using True by (simp add: editor_key_def)
next
  case fd: False
  obtain e h where e: "isearch_handle_key ed key = Some (e, h)" "kept ed e" "\<not> h \<longrightarrow> \<not> ed_isearch_active e"
    using isearch_handle_key_kept [OF wf, of key] by (rule returnsE) auto
  show ?thesis
  proof (cases h)
    case True
    with e fd show ?thesis by (simp add: editor_key_def stepped_done kept_stepped)
  next
    case False
    then have act: "\<not> ed_isearch_active e" and mark: "good_mark e = good_mark ed"
      and fde: "\<not> fd_active (ed_finder e)" and esce: "ed_esc_state e = ESC_NONE" and wfe: "wf_editor e"
      using e isearch_unhandled [of ed key e] fd esc by (auto simp: good_mark_def kept_def)
    have seen: "stepped e key (editor_done True True (e\<lparr>ed_esc_state := ESC_SEEN\<rparr>))"
      using wfe act fde by (simp add: stepped_def editor_done_def) (simp add: state_defs)
    have "safe (calm e \<and> good_mark e)
      (if key = 27 then Some (editor_done True True (e\<lparr>ed_esc_state := ESC_SEEN\<rparr>))
       else if key = ctrl_key 103 then Some (editor_cancel e)
       else if ed_prompt_active e then prompt_handle_key os e key
       else if ed_pending_ctrl_x e then editor_ctrl_x os e key True True
       else editor_command e key True True) (stepped e key)"
      by (intro safe_if ctrl_x_safe [OF wfe act esce fde] command_safe [OF wfe act esce fde]
          safe_mono [OF safe_returns [OF prompt_handle_key_kept [OF wfe]]];
          (use seen kept_stepped [OF cancel_kept [OF wfe esce act]] kept_stepped in simp)?)
    then have "safe (calm ed \<and> good_mark ed)
      (if key = 27 then Some (editor_done True True (e\<lparr>ed_esc_state := ESC_SEEN\<rparr>))
       else if key = ctrl_key 103 then Some (editor_cancel e)
       else if ed_prompt_active e then prompt_handle_key os e key
       else if ed_pending_ctrl_x e then editor_ctrl_x os e key True True
       else editor_command e key True True) (stepped ed key)"
      by (rule safe_mono) (use e(2) mark esce esc in \<open>auto simp: kept_def stepped_def mouse_final_def\<close>)
    then show ?thesis using e(1) False fd by (simp add: editor_key_def)
  qed
qed

text \<open>The whole of \<open>editor_process_key\<close>.\<close>

lemma process_key_safe:
  assumes posix: "posix_paths os" and wf: "wf_editor ed"
  shows "safe (calm ed \<and> good_mark ed) (editor_process_key os ed key) (stepped ed key)"
proof (cases "ed_esc_state ed = ESC_NONE")
  case True
  with key_safe [OF wf] show ?thesis by (simp add: editor_process_key_def)
next
  case False
  have "safe (calm ed \<and> good_mark ed) (Option.bind (handle_escape os ed key True True)
      (\<lambda>(ed, handled, rk, ry). if handled then Some (editor_done rk ry ed) else editor_key os ed key rk ry))
      (stepped ed key)"
  proof (rule safe_bind [OF escape_safe [OF posix wf False]], goal_cases)
    case (1 x)
    obtain e h rk ry where x: "x = (e, h, rk, ry)" by (cases x)
    show ?case
    proof (cases h)
      case True
      with 1 x show ?thesis by (simp add: stepped_done)
    next
      case False
      with 1 x have p: "passed ed e" "rk" "ry" by simp_all
      then have "safe (calm e \<and> good_mark e) (editor_key os e key True True) (stepped e key)"
        by (intro key_safe) (simp_all add: passed_def)
      then show ?thesis using False x p
        by (auto simp: passed_calm intro: passed_stepped elim: safe_mono)
    qed
  qed
  then show ?thesis using False by (simp add: editor_process_key_def)
qed

end
