(* ===== verification/Modal.thy ===== *)
theory Modal
  imports Output Finder "HOL-Library.Signed_Division"
begin

text \<open>
  The two windows drawn over the text (\<open>src/render.c\<close>, \<open>render_modal_border\<close> to
  \<open>render_prompt_modal\<close>): where they stand on the screen and what is drawn in them. The division of
  \<open>int\<close>s rounds toward zero, as in C.
\<close>

section \<open>Lines and borders\<close>

text \<open>The box drawing characters, in UTF-8.\<close>

definition box :: "byte \<Rightarrow> byte list" where
  "box b = [0xE2, 0x94, b]"

definition render_modal_border ::
  "append_buf \<Rightarrow> int \<Rightarrow> int \<Rightarrow> nat \<Rightarrow> byte list \<Rightarrow> byte list \<Rightarrow> byte list \<Rightarrow> append_buf option" where
  "render_modal_border ab row col width left fill right = do {
     ab \<leftarrow> ab_move_cursor ab row col;
     ab \<leftarrow> ab_append_str ab (csi (bytes_of ''97m''));
     ab \<leftarrow> ab_append_str ab left;
     ab \<leftarrow> ab_append_repeat ab fill width;
     ab \<leftarrow> ab_append_str ab right;
     ab_append_str ab (csi (bytes_of ''m''))
   }"

definition bar :: "byte list" where
  "bar = csi (bytes_of ''97m'') @ box 0x83 @ csi (bytes_of ''m'')"

definition render_modal_line ::
  "append_buf \<Rightarrow> int \<Rightarrow> int \<Rightarrow> nat \<Rightarrow> byte list \<Rightarrow> bool \<Rightarrow> append_buf option" where
  "render_modal_line ab row col width str highlighted = do {
     ab \<leftarrow> ab_move_cursor ab row col;
     ab \<leftarrow> ab_append_str ab bar;
     ab \<leftarrow> (if highlighted then ab_append_str ab (csi (bytes_of ''7m'')) else Some ab);
     ab \<leftarrow> ab_append_padded ab str width;
     ab \<leftarrow> (if highlighted then ab_append_str ab (csi (bytes_of ''m'')) else Some ab);
     ab_append_str ab bar
   }"

section \<open>Geometry\<close>

text \<open>Row, column, width and, for the finder, the number of list rows.\<close>

definition finder_modal_geometry :: "editor \<Rightarrow> int \<Rightarrow> int \<times> int \<times> nat \<times> nat" where
  "finder_modal_geometry ed text_rows =
     (let width = finder_modal_width ed;
          list_rows = finder_list_rows ed;
          total_rows = int list_rows + 4;
          total_cols = int width + 2;
          start_row = 2;
          start_row = (if start_row + total_rows - 1 > text_rows
                       then text_rows - total_rows + 1 else start_row);
          start_row = (if start_row < 1 then 1 else start_row);
          start_col = (ed_screen_cols ed - total_cols) sdiv 2 + 1;
          start_col = (if start_col < 1 then 1 else start_col)
      in (start_row, start_col, width, list_rows))"

definition prompt_modal_geometry :: "editor \<Rightarrow> int \<Rightarrow> int \<times> int \<times> nat" where
  "prompt_modal_geometry ed text_rows =
     (let width = ed_screen_cols ed - 6;
          width = (if width > 70 then 70 else width);
          width = (if width < 24 then ed_screen_cols ed - 2 else width);
          width = (if width < 12 then 12 else width);
          total_cols = width + 2;
          start_row = text_rows sdiv 2;
          start_row = (if start_row < 1 then 1 else start_row);
          start_row = (if start_row + 2 > text_rows then text_rows - 2 else start_row);
          start_row = (if start_row < 1 then 1 else start_row);
          start_col = (ed_screen_cols ed - total_cols) sdiv 2 + 1;
          start_col = (if start_col < 1 then 1 else start_col)
      in (start_row, start_col, nat width))"

section \<open>The windows\<close>

text \<open>The loop over the rows of the list, from row \<open>i\<close> on; \<open>n\<close> rows are left.\<close>

fun finder_modal_rows ::
  "finder \<Rightarrow> append_buf \<Rightarrow> int \<Rightarrow> int \<Rightarrow> nat \<Rightarrow> nat \<Rightarrow> nat \<Rightarrow> append_buf option" where
  "finder_modal_rows fd ab start_row start_col width i 0 = Some ab"
| "finder_modal_rows fd ab start_row start_col width i (Suc n) = do {
     let row = start_row + 3 + int i;
     let match_index = fd_scroll fd + i;
     ab \<leftarrow> (if length (fd_matches fd) = 0 \<and> i = 0
           then render_modal_line ab row start_col width (bytes_of '' No matches'') False
           else if match_index \<ge> length (fd_matches fd)
           then render_modal_line ab row start_col width [] False
           else do {
             file_index \<leftarrow> load (fd_matches fd) match_index;
             path \<leftarrow> load (fd_files fd) file_index;
             render_modal_line ab row start_col width path (match_index = fd_selection fd)
           });
     finder_modal_rows fd ab start_row start_col width (i + 1) n
   }"

definition render_finder_modal :: "editor \<Rightarrow> append_buf \<Rightarrow> int \<Rightarrow> append_buf option" where
  "render_finder_modal ed ab text_rows =
     (if \<not> fd_active (ed_finder ed) then Some ab
      else do {
        let (start_row, start_col, width, list_rows) = finder_modal_geometry ed text_rows;
        query \<leftarrow> c_string (fl_buf (fd_query (ed_finder ed)));
        let header = take 511 (bytes_of '' Go to file: '' @ query);
        ab \<leftarrow> render_modal_border ab start_row start_col width (box 0x8F) (box 0x81) (box 0x93);
        ab \<leftarrow> render_modal_line ab (start_row + 1) start_col width header False;
        ab \<leftarrow> render_modal_border ab (start_row + 2) start_col width (box 0xA3) (box 0x81) (box 0xAB);
        ab \<leftarrow> finder_modal_rows (ed_finder ed) ab start_row start_col width 0 list_rows;
        render_modal_border ab (start_row + 3 + int list_rows) start_col width (box 0x97) (box 0x81) (box 0x9B)
      })"

definition render_prompt_modal :: "editor \<Rightarrow> append_buf \<Rightarrow> int \<Rightarrow> append_buf option" where
  "render_prompt_modal ed ab text_rows =
     (if \<not> ed_prompt_active ed then Some ab
      else do {
        let (start_row, start_col, width) = prompt_modal_geometry ed text_rows;
        buf \<leftarrow> c_string (fl_buf (ed_prompt ed));
        let line = take 511 ((if ed_prompt_save_as ed then bytes_of '' Save as: '' else bytes_of '' '') @ buf);
        ab \<leftarrow> render_modal_border ab start_row start_col width (box 0x8F) (box 0x81) (box 0x93);
        ab \<leftarrow> render_modal_line ab (start_row + 1) start_col width line False;
        render_modal_border ab (start_row + 2) start_col width (box 0x97) (box 0x81) (box 0x9B)
      })"

section \<open>Where the windows stand\<close>

lemma sdiv_2: "a sdiv 2 = (if 0 \<le> a then a div 2 else - (- a div 2))" for a :: int
  by (auto simp: signed_divide_int_def sgn_if)

lemma finder_modal_fits:
  assumes "finder_modal_geometry ed (ed_screen_rows ed - 1) = (row, col, width, list_rows)"
    and "7 \<le> ed_screen_rows ed" "12 \<le> ed_screen_cols ed"
  shows "1 \<le> row \<and> row + int list_rows + 3 \<le> ed_screen_rows ed \<and>
    1 \<le> col \<and> col + int width + 1 \<le> ed_screen_cols ed"
proof -
  have w: "10 \<le> finder_modal_width ed" "int (finder_modal_width ed) + 2 \<le> ed_screen_cols ed"
    using assms(3) by (auto simp: finder_modal_width_def Let_def)
  have l: "3 \<le> finder_list_rows ed" "int (finder_list_rows ed) + 4 \<le> ed_screen_rows ed"
    using assms(2) by (auto simp: finder_list_rows_def FINDER_MAX_ROWS_def Let_def)
  show ?thesis
    using assms w l by (auto simp: finder_modal_geometry_def Let_def sdiv_2 split: if_splits)
qed

lemma prompt_modal_fits:
  assumes "prompt_modal_geometry ed (ed_screen_rows ed - 1) = (row, col, width)"
    and "4 \<le> ed_screen_rows ed" "14 \<le> ed_screen_cols ed"
  shows "1 \<le> row \<and> row + 2 \<le> ed_screen_rows ed - 1 \<and>
    1 \<le> col \<and> col + int width + 1 \<le> ed_screen_cols ed"
proof -
  define w where "w = (let width = ed_screen_cols ed - 6;
          width = (if width > 70 then 70 else width);
          width = (if width < 24 then ed_screen_cols ed - 2 else width)
      in (if width < 12 then 12 else width))"
  have w: "12 \<le> w" "w + 2 \<le> ed_screen_cols ed"
    using assms(3) by (auto simp: w_def Let_def)
  have g: "(if (ed_screen_cols ed - (w + 2)) sdiv 2 + 1 < 1 then 1
      else (ed_screen_cols ed - (w + 2)) sdiv 2 + 1) = col" "width = nat w"
    using assms(1) unfolding prompt_modal_geometry_def w_def Let_def by simp_all
  have r: "1 \<le> row \<and> row + 2 \<le> ed_screen_rows ed - 1"
    using assms(1,2) unfolding prompt_modal_geometry_def Let_def by (auto simp: sdiv_2 split: if_splits)
  show ?thesis using r g(2) w unfolding g(1) [symmetric] by (auto simp: sdiv_2)
qed

section \<open>What is drawn\<close>

definition border_text :: "int \<Rightarrow> int \<Rightarrow> nat \<Rightarrow> byte list \<Rightarrow> byte list \<Rightarrow> byte list \<Rightarrow> byte list" where
  "border_text row col width left fill right =
     take 31 (move_cursor_text row col) @ csi (bytes_of ''97m'') @ left @ concat (replicate width fill) @
     right @ csi (bytes_of ''m'')"

definition line_text :: "int \<Rightarrow> int \<Rightarrow> nat \<Rightarrow> byte list \<Rightarrow> bool \<Rightarrow> byte list" where
  "line_text row col width str h =
     take 31 (move_cursor_text row col) @ bar @ (if h then csi (bytes_of ''7m'') else []) @
     padded str width @ (if h then csi (bytes_of ''m'') else []) @ bar"

lemma emits_opt_str:
  "ab_sink.emits (\<lambda>ab. if h then ab_append_str ab s else Some ab) (if h then s else [])"
  using emits_str ab_sink.emits_nothing by simp

lemma emits_border:
  "ab_sink.emits (\<lambda>ab. render_modal_border ab row col width l f r) (border_text row col width l f r)"
  unfolding render_modal_border_def border_text_def
  by (intro ab_sink.emits_seq emits_move_cursor emits_str emits_repeat)

lemma emits_line:
  "ab_sink.emits (\<lambda>ab. render_modal_line ab row col width s h) (line_text row col width s h)"
  unfolding render_modal_line_def line_text_def
  by (intro ab_sink.emits_seq emits_move_cursor emits_str emits_opt_str emits_padded)

text \<open>Row \<open>i\<close> of the list: the match at \<open>scroll + i\<close>, highlighted when it is the selection.\<close>

definition list_row_text :: "finder \<Rightarrow> int \<Rightarrow> int \<Rightarrow> nat \<Rightarrow> nat \<Rightarrow> byte list" where
  "list_row_text fd row col width i =
     (let k = fd_scroll fd + i
      in if fd_matches fd = [] \<and> i = 0 then line_text row col width (bytes_of '' No matches'') False
         else if length (fd_matches fd) \<le> k then line_text row col width [] False
         else line_text row col width (fd_files fd ! (fd_matches fd ! k)) (k = fd_selection fd))"

lemma emits_rows:
  assumes wf: "wf_finder fd"
  shows "ab_sink.emits (\<lambda>ab. finder_modal_rows fd ab row col width i n)
    (concat (map (\<lambda>j. list_row_text fd (row + 3 + int j) col width j) [i..<i + n]))"
proof (induction n arbitrary: i)
  case 0
  then show ?case using ab_sink.emits_nothing by simp
next
  case (Suc n)
  let ?k = "fd_scroll fd + i" and ?r = "row + 3 + int i"
  have "ab_sink.emits (\<lambda>ab. if length (fd_matches fd) = 0 \<and> i = 0
           then render_modal_line ab ?r col width (bytes_of '' No matches'') False
           else if ?k \<ge> length (fd_matches fd)
           then render_modal_line ab ?r col width [] False
           else do {
             file_index \<leftarrow> load (fd_matches fd) ?k;
             path \<leftarrow> load (fd_files fd) file_index;
             render_modal_line ab ?r col width path (?k = fd_selection fd)
           }) (list_row_text fd ?r col width i)"
  proof (cases "?k < length (fd_matches fd)")
    case True
    then have "fd_matches fd ! ?k < length (fd_files fd)"
      using wf nth_mem [OF True] by (auto simp: wf_finder_def)
    with True show ?thesis using emits_line
      by (auto simp: list_row_text_def Let_def load_eq)
  next
    case False
    with emits_line show ?thesis by (auto simp: list_row_text_def Let_def)
  qed
  from ab_sink.emits_seq [OF this Suc.IH [of "i + 1"]]
  show ?case by (simp add: upt_conv_Cons Let_def del: upt_Suc)
qed

definition finder_modal_text :: "editor \<Rightarrow> int \<Rightarrow> byte list" where
  "finder_modal_text ed text_rows =
     (if \<not> fd_active (ed_finder ed) then []
      else let (row, col, width, n) = finder_modal_geometry ed text_rows
        in border_text row col width (box 0x8F) (box 0x81) (box 0x93) @
           line_text (row + 1) col width
             (take 511 (bytes_of '' Go to file: '' @ field_text (fd_query (ed_finder ed)))) False @
           border_text (row + 2) col width (box 0xA3) (box 0x81) (box 0xAB) @
           concat (map (\<lambda>j. list_row_text (ed_finder ed) (row + 3 + int j) col width j) [0..<n]) @
           border_text (row + 3 + int n) col width (box 0x97) (box 0x81) (box 0x9B))"

lemma emits_finder_modal:
  assumes wf: "wf_finder (ed_finder ed)"
  shows "ab_sink.emits (\<lambda>ab. render_finder_modal ed ab text_rows) (finder_modal_text ed text_rows)"
proof (cases "fd_active (ed_finder ed)")
  case False
  then show ?thesis using ab_sink.emits_nothing by (simp add: render_finder_modal_def finder_modal_text_def)
next
  case True
  obtain row col width n where g: "finder_modal_geometry ed text_rows = (row, col, width, n)"
    by (cases "finder_modal_geometry ed text_rows") auto
  have q: "c_string (fl_buf (fd_query (ed_finder ed))) = Some (field_text (fd_query (ed_finder ed)))"
    using wf_field_block [of "fd_query (ed_finder ed)"] wf by (simp add: wf_finder_def c_string_eq)
  have r: "ab_sink.emits (\<lambda>ab. finder_modal_rows (ed_finder ed) ab row col width 0 n)
     (concat (map (\<lambda>j. list_row_text (ed_finder ed) (row + 3 + int j) col width j) [0..<n]))"
    using emits_rows [OF wf, of row col width 0 n] by simp
  have "ab_sink.emits (\<lambda>ab. do {
        ab \<leftarrow> render_modal_border ab row col width (box 0x8F) (box 0x81) (box 0x93);
        ab \<leftarrow> render_modal_line ab (row + 1) col width
          (take 511 (bytes_of '' Go to file: '' @ field_text (fd_query (ed_finder ed)))) False;
        ab \<leftarrow> render_modal_border ab (row + 2) col width (box 0xA3) (box 0x81) (box 0xAB);
        ab \<leftarrow> finder_modal_rows (ed_finder ed) ab row col width 0 n;
        render_modal_border ab (row + 3 + int n) col width (box 0x97) (box 0x81) (box 0x9B)
      }) (finder_modal_text ed text_rows)"
    using True unfolding finder_modal_text_def g prod.case Let_def
    by (auto intro!: ab_sink.emits_seq emits_border emits_line r)
  then show ?thesis
    using True by (simp add: render_finder_modal_def g q)
qed

definition prompt_modal_text :: "editor \<Rightarrow> int \<Rightarrow> byte list" where
  "prompt_modal_text ed text_rows =
     (if \<not> ed_prompt_active ed then []
      else let (row, col, width) = prompt_modal_geometry ed text_rows
        in border_text row col width (box 0x8F) (box 0x81) (box 0x93) @
           line_text (row + 1) col width (take 511 ((if ed_prompt_save_as ed then bytes_of '' Save as: ''
             else bytes_of '' '') @ field_text (ed_prompt ed))) False @
           border_text (row + 2) col width (box 0x97) (box 0x81) (box 0x9B))"

lemma emits_prompt_modal:
  assumes wf: "ed_prompt_active ed \<Longrightarrow> wf_field (ed_prompt ed)"
  shows "ab_sink.emits (\<lambda>ab. render_prompt_modal ed ab text_rows) (prompt_modal_text ed text_rows)"
proof (cases "ed_prompt_active ed")
  case False
  then show ?thesis using ab_sink.emits_nothing by (simp add: render_prompt_modal_def prompt_modal_text_def)
next
  case True
  obtain row col width where g: "prompt_modal_geometry ed text_rows = (row, col, width)"
    by (cases "prompt_modal_geometry ed text_rows") auto
  have q: "c_string (fl_buf (ed_prompt ed)) = Some (field_text (ed_prompt ed))"
    using wf_field_block [OF wf [OF True]] by (simp add: c_string_eq)
  show ?thesis
    unfolding render_prompt_modal_def prompt_modal_text_def g q using True
    by (simp, intro conjI impI ab_sink.emits_seq emits_border emits_line)
qed

end
