(* ===== verification/Highlight.thy ===== *)
theory Highlight
  imports Output Growth Buffer Order
begin

text \<open>
  Syntax colours (\<open>src/render.c\<close>, \<open>capture_color\<close> to \<open>render_line_with_spans\<close>). Tree-sitter is not
  part of the sources: a parse tree is the text it was made from, and what a query finds in it is
  given by a record of functions. The colours are compared by their address in the source and by
  their bytes here, which is the same as long as equal literals share one.
\<close>

section \<open>Captures\<close>

definition capture_color :: "byte list \<Rightarrow> byte list option" where
  "capture_color name =
     (if name = bytes_of ''comment'' then Some (csi (bytes_of ''37m''))
      else if name = bytes_of ''string'' then Some (csi (bytes_of ''32m''))
      else if name = bytes_of ''number'' then Some (csi (bytes_of ''33m''))
      else if name = bytes_of ''type'' then Some (csi (bytes_of ''33m''))
      else if name = bytes_of ''keyword'' then Some (csi (bytes_of ''35m''))
      else if name = bytes_of ''preproc'' then Some (csi (bytes_of ''95m''))
      else if name = bytes_of ''function'' then Some (csi (bytes_of ''34m''))
      else if name = bytes_of ''operator'' \<or> name = bytes_of ''delimiter''
      then Some (csi (bytes_of ''36m''))
      else None)"

definition capture_priority :: "byte list \<Rightarrow> byte" where
  "capture_priority name =
     (if name = bytes_of ''comment'' then 6
      else if name = bytes_of ''string'' then 5
      else if name = bytes_of ''number'' then 4
      else if name = bytes_of ''function'' then 4
      else if name = bytes_of ''type'' then 3
      else if name = bytes_of ''keyword'' then 2
      else if name = bytes_of ''preproc'' then 1
      else 0)"

section \<open>The text and its offsets\<close>

text \<open>The first loop of \<open>build_buffer_text\<close> adds up the size, the second one copies.\<close>

fun text_total :: "buffer \<Rightarrow> nat \<Rightarrow> nat \<Rightarrow> nat \<Rightarrow> nat option" where
  "text_total buf i 0 acc = Some acc"
| "text_total buf i (Suc n) acc = do {
     len \<leftarrow> line_length buf i;
     text_total buf (i + 1) n (acc + len + (if i + 1 < line_count buf then 1 else 0))
   }"

fun copy_text :: "buffer \<Rightarrow> nat \<Rightarrow> nat \<Rightarrow> block \<Rightarrow> nat \<Rightarrow> (block \<times> nat) option" where
  "copy_text buf i 0 dst off = Some (dst, off)"
| "copy_text buf i (Suc n) dst off = do {
     line \<leftarrow> load_line buf i;
     len \<leftarrow> line_length buf i;
     dst \<leftarrow> (if len > 0 then memcpy dst off line 0 len else Some dst);
     let off = (if len > 0 then off + len else off);
     if i + 1 < line_count buf then do {
       dst \<leftarrow> store dst off nl;
       copy_text buf (i + 1) n dst (off + 1)
     } else copy_text buf (i + 1) n dst off
   }"

definition build_buffer_text :: "buffer \<Rightarrow> (block \<times> nat) option" where
  "build_buffer_text buf = do {
     size \<leftarrow> text_total buf 0 (line_count buf) 0;
     (dst, off) \<leftarrow> copy_text buf 0 (line_count buf) (replicate (size + 1) 0) 0;
     dst \<leftarrow> store dst off 0;
     Some (dst, off)
   }"

fun offsets_loop :: "buffer \<Rightarrow> nat \<Rightarrow> nat \<Rightarrow> nat list \<Rightarrow> nat \<Rightarrow> nat list option" where
  "offsets_loop buf row 0 offsets off = Some offsets"
| "offsets_loop buf row (Suc n) offsets off = do {
     offsets \<leftarrow> store offsets row off;
     len \<leftarrow> line_length buf row;
     offsets_loop buf (row + 1) n offsets (off + len + (if row + 1 < line_count buf then 1 else 0))
   }"

definition build_line_offsets :: "buffer \<Rightarrow> nat \<Rightarrow> nat list option" where
  "build_line_offsets buf last_row =
     offsets_loop buf 0 (last_row + 1) (replicate (last_row + 1) 0) 0"

section \<open>Spans\<close>

record highlight_span =
  hs_start_row :: nat
  hs_start_col :: nat
  hs_end_row :: nat
  hs_end_col :: nat
  hs_color :: "byte list"
  hs_priority :: byte

record ts_node =
  nd_index :: nat
  nd_start_byte :: nat
  nd_end_byte :: nat
  nd_start_row :: nat
  nd_start_col :: nat
  nd_end_row :: nat
  nd_end_col :: nat

text \<open>
  What the highlighter does: whether a text can be parsed, whether a cursor can be made, the name
  of a capture id, and the captures a query reports for a tree and a byte range, each as the index
  of the capture in its match and the captures of the match.
\<close>

record highlighter =
  hl_parses :: "byte list \<Rightarrow> bool"
  hl_cursor :: bool
  hl_name :: "nat \<Rightarrow> byte list option"
  hl_captures :: "byte list \<Rightarrow> nat \<Rightarrow> nat \<Rightarrow> (nat \<times> ts_node list) list"

record span_buf =
  sb_spans :: "highlight_span list"
  sb_cap :: nat

definition span_push :: "span_buf \<Rightarrow> highlight_span \<Rightarrow> span_buf" where
  "span_push sb span =
     sb\<lparr>sb_spans := sb_spans sb @ [span],
        sb_cap := grown_cap 64 (sb_cap sb) (length (sb_spans sb) + 1)\<rparr>"

interpretation span_growing: growing sb_spans sb_cap span_push 64
  by unfold_locales (simp_all add: span_push_def)

definition capture_span :: "(nat \<Rightarrow> byte list option) \<Rightarrow> nat \<Rightarrow> nat \<Rightarrow> ts_node \<Rightarrow> highlight_span option" where
  "capture_span name_of range_start range_end node =
     (case name_of (nd_index node) of
        None \<Rightarrow> None
      | Some name \<Rightarrow>
          if length name \<ge> 32 then None
          else (case capture_color name of
                  None \<Rightarrow> None
                | Some color \<Rightarrow>
                    if nd_end_byte node \<le> range_start \<or> nd_start_byte node \<ge> range_end then None
                    else Some \<lparr>hs_start_row = nd_start_row node, hs_start_col = nd_start_col node,
                           hs_end_row = nd_end_row node, hs_end_col = nd_end_col node,
                           hs_color = color, hs_priority = capture_priority name\<rparr>))"

fun collect_loop ::
  "(nat \<Rightarrow> byte list option) \<Rightarrow> nat \<Rightarrow> nat \<Rightarrow> (nat \<times> ts_node list) list \<Rightarrow> span_buf \<Rightarrow> span_buf option" where
  "collect_loop name_of rs re [] sb = Some sb"
| "collect_loop name_of rs re ((capture_index, captures) # rest) sb =
     (if capture_index \<ge> length captures then collect_loop name_of rs re rest sb
      else do {
        node \<leftarrow> load captures capture_index;
        case capture_span name_of rs re node of
          None \<Rightarrow> collect_loop name_of rs re rest sb
        | Some span \<Rightarrow> collect_loop name_of rs re rest (span_push sb span)
      })"

definition collect_highlights ::
  "highlighter \<Rightarrow> buffer \<Rightarrow> nat \<Rightarrow> nat \<Rightarrow> highlight_span list option" where
  "collect_highlights hl buf range_start range_end =
     (case b_ts_tree buf of
        None \<Rightarrow> Some []
      | Some tree \<Rightarrow>
          if \<not> b_syntax_enabled buf \<or> \<not> b_ts_query buf \<or> \<not> hl_cursor hl then Some []
          else do {
            sb \<leftarrow> collect_loop (hl_name hl) range_start range_end
                   (hl_captures hl tree range_start range_end) \<lparr>sb_spans = [], sb_cap = 0\<rparr>;
            Some (sb_spans sb)
          })"

definition span_compare :: "highlight_span \<Rightarrow> highlight_span \<Rightarrow> int" where
  "span_compare lhs rhs =
     (if hs_start_row lhs < hs_start_row rhs then -1
      else if hs_start_row lhs > hs_start_row rhs then 1
      else if hs_start_col lhs < hs_start_col rhs then -1
      else if hs_start_col lhs > hs_start_col rhs then 1
      else 0)"

section \<open>A line in colours\<close>

text \<open>\<open>for (j = start; j < end; j++)\<close> over one span.\<close>

fun paint_loop ::
  "highlight_span \<Rightarrow> nat \<Rightarrow> nat \<Rightarrow> byte list option list \<Rightarrow> byte list \<Rightarrow>
   (byte list option list \<times> byte list) option" where
  "paint_loop span j 0 colors prio = Some (colors, prio)"
| "paint_loop span j (Suc n) colors prio = do {
     p \<leftarrow> load prio j;
     if hs_priority span \<ge> p then do {
       prio \<leftarrow> store prio j (hs_priority span);
       colors \<leftarrow> store colors j (Some (hs_color span));
       paint_loop span (j + 1) n colors prio
     } else paint_loop span (j + 1) n colors prio
   }"

definition paint_span ::
  "nat \<Rightarrow> nat \<Rightarrow> highlight_span \<Rightarrow> byte list option list \<Rightarrow> byte list \<Rightarrow>
   (byte list option list \<times> byte list) option" where
  "paint_span file_row line_len span colors prio =
     (if file_row < hs_start_row span \<or> file_row > hs_end_row span then Some (colors, prio)
      else
        let start = (if file_row = hs_start_row span then hs_start_col span else 0);
            end = (if file_row = hs_end_row span
                   then (if hs_end_col span < line_len then hs_end_col span else line_len)
                   else line_len)
        in if start > line_len then Some (colors, prio)
           else let end = (if end > line_len then line_len else end)
           in if end \<le> start then Some (colors, prio)
              else paint_loop span start (end - start) colors prio)"

fun paint_spans ::
  "nat \<Rightarrow> nat \<Rightarrow> highlight_span list \<Rightarrow> byte list option list \<Rightarrow> byte list \<Rightarrow>
   (byte list option list \<times> byte list) option" where
  "paint_spans file_row line_len [] colors prio = Some (colors, prio)"
| "paint_spans file_row line_len (span # spans) colors prio = do {
     (colors, prio) \<leftarrow> paint_span file_row line_len span colors prio;
     paint_spans file_row line_len spans colors prio
   }"

definition color_escape :: "byte list option \<Rightarrow> byte list" where
  "color_escape c = (case c of None \<Rightarrow> csi (bytes_of ''m'') | Some e \<Rightarrow> e)"

definition flush_run ::
  "append_buf \<Rightarrow> block \<Rightarrow> byte list option \<Rightarrow> nat \<Rightarrow> nat \<Rightarrow> nat \<Rightarrow> append_buf option" where
  "flush_run ab line active run_start i current_col = do {
     ab \<leftarrow> ab_append_str ab (color_escape active);
     ab_append_expanding_tabs ab line run_start (i - run_start) current_col
   }"

text \<open>The loop over the columns drawn. \<open>n\<close> of them are left.\<close>

fun draw_runs ::
  "append_buf \<Rightarrow> block \<Rightarrow> byte list option list \<Rightarrow> nat \<Rightarrow> nat \<Rightarrow> byte list option \<Rightarrow> nat \<Rightarrow> nat \<Rightarrow>
   append_buf option" where
  "draw_runs ab line colors i 0 active run_start current_col =
     (if i > run_start then flush_run ab line active run_start i current_col else Some ab)"
| "draw_runs ab line colors i (Suc n) active run_start current_col = do {
     color \<leftarrow> load colors i;
     if color = active then draw_runs ab line colors (i + 1) n active run_start current_col
     else if i > run_start then do {
       ab \<leftarrow> flush_run ab line active run_start i current_col;
       width \<leftarrow> utf8_byte_to_vis_col (drop run_start line) (i - run_start);
       draw_runs ab line colors (i + 1) n color i (current_col + width)
     }
     else draw_runs ab line colors (i + 1) n color i current_col
   }"

definition render_line_with_spans ::
  "append_buf \<Rightarrow> block \<Rightarrow> nat \<Rightarrow> nat \<Rightarrow> nat \<Rightarrow> nat \<Rightarrow> highlight_span list \<Rightarrow> append_buf option" where
  "render_line_with_spans ab line line_len file_row vis_col vis_len spans = do {
     (colors, prio) \<leftarrow> paint_spans file_row line_len spans (replicate line_len None) (replicate line_len 0);
     let vis_end = vis_col + vis_len;
     let start = (if vis_col < line_len then vis_col else line_len);
     let end = (if vis_end < line_len then vis_end else line_len);
     current_col \<leftarrow> utf8_byte_to_vis_col line start;
     ab \<leftarrow> draw_runs ab line colors start (end - start) None start current_col;
     ab_append_str ab (csi (bytes_of ''m''))
   }"


section \<open>The text handed to the parser\<close>

text \<open>Where line \<open>i\<close> starts in the text; the end of the text for the row after the last.\<close>

definition line_start :: "byte list list \<Rightarrow> nat \<Rightarrow> nat" where
  "line_start T i = (if i < length T then offset T i 0 else length (flat T))"

lemma line_start_0: "T \<noteq> [] \<Longrightarrow> line_start T 0 = 0"
  by (simp add: line_start_def offset_def)

lemma flat_at:
  assumes "i < length T"
  shows "\<exists>R. flat T = before (take i T) @ T ! i @ R \<and> line_start T i = length (before (take i T)) \<and>
    (if Suc i < length T then (\<exists>R'. R = nl # R') \<and> before (take (Suc i) T) = before (take i T) @ T ! i @ [nl] else R = [])"
proof -
  obtain A l B where T: "T = A @ l # B" "length A = i" "T ! i = l" "take i T = A" "drop (Suc i) T = B"
    using assms by (rule split_at)
  have "before (take (Suc i) T) = before A @ l @ [nl]" using T(1,2) by simp
  moreover have "B \<noteq> [] \<longleftrightarrow> Suc i < length T" using T(1,2) by (cases B) auto
  ultimately show ?thesis
    using flat_split [of A l B] T by (cases B) (auto simp: line_start_def offset_def)
qed

lemma line_start_Suc:
  assumes "i < length T"
  shows "line_start T (Suc i) = line_start T i + length (T ! i) + (if Suc i < length T then 1 else 0)"
    "line_start T i + length (T ! i) \<le> length (flat T)"
    "take (line_start T i + length (T ! i)) (flat T) = take (line_start T i) (flat T) @ T ! i"
    "take (line_start T (Suc i)) (flat T) =
       take (line_start T i) (flat T) @ T ! i @ (if Suc i < length T then [nl] else [])"
    "line_start T (Suc i) \<le> length (flat T)"
proof -
  obtain R where R: "flat T = before (take i T) @ T ! i @ R" "line_start T i = length (before (take i T))"
    "if Suc i < length T then (\<exists>R'. R = nl # R') \<and> before (take (Suc i) T) = before (take i T) @ T ! i @ [nl] else R = []"
    using flat_at [OF assms] by blast
  show s: "line_start T (Suc i) = line_start T i + length (T ! i) + (if Suc i < length T then 1 else 0)"
    using R by (auto simp: line_start_def offset_def)
  show "line_start T i + length (T ! i) \<le> length (flat T)"
    "take (line_start T i + length (T ! i)) (flat T) = take (line_start T i) (flat T) @ T ! i"
    using R(1) by (simp_all add: R(2))
  show "line_start T (Suc i) \<le> length (flat T)"
    "take (line_start T (Suc i)) (flat T) =
       take (line_start T i) (flat T) @ T ! i @ (if Suc i < length T then [nl] else [])"
    using R(1,3) unfolding s R(2) by (auto split: if_splits)
qed

lemma text_total_eq:
  assumes wf: "wf_buffer buf"
  shows "i + n = line_count buf \<Longrightarrow>
    text_total buf i n acc = Some (acc + (length (flat (texts buf)) - line_start (texts buf) i))"
proof (induction n arbitrary: i acc)
  case 0
  then show ?case by (simp add: line_start_def)
next
  case (Suc n)
  then have i: "i < line_count buf" by simp
  note l = line_start_Suc [of i "texts buf", simplified, OF i]
  show ?case
    using Suc.IH [of "Suc i"] Suc.prems l(1,5) i by (simp add: line_length_eq [OF wf i])
qed

lemma copy_text_eq:
  assumes wf: "wf_buffer buf"
  defines "F \<equiv> flat (texts buf)"
  shows "i + n = line_count buf \<Longrightarrow> length dst = length F + 1 \<Longrightarrow> off = line_start (texts buf) i \<Longrightarrow>
    take off dst = take off F \<Longrightarrow>
    returns (copy_text buf i n dst off) (\<lambda>(dst', off'). length dst' = length F + 1 \<and> off' = length F \<and>
      take off' dst' = F)"
proof (induction n arbitrary: i dst off)
  case 0
  then show ?case by (simp add: line_start_def F_def)
next
  case (Suc n)
  then have i: "i < line_count buf" by simp
  note ls = line_start_Suc [of i "texts buf", simplified, OF i, folded F_def]
  define l where "l = ltext buf i"
  define d where "d = take off dst @ l @ drop (off + length l) dst"
  have b: "take (length l) (b_lines buf ! i) = l"
    using line_split [OF wf i] by (metis append_eq_conv_conj l_def)
  have lb: "length l \<le> length (b_lines buf ! i)"
    using length_cstr_less [OF wf_buffer_line [OF wf i]] by (simp add: l_def ltext_def)
  have le: "off + length l \<le> length F" using ls(2) Suc.prems(3) by (simp add: l_def)
  have cp: "(if length l > 0 then memcpy dst off (b_lines buf ! i) 0 (length l) else Some dst) = Some d"
    using le lb Suc.prems(2) b by (simp add: memcpy_def d_def)
  have off: "(if length l > 0 then off + length l else off) = off + length l" by simp
  have ld: "length d = length F + 1" using le Suc.prems(2) by (simp add: d_def)
  have td: "take (off + length l) d = take off F @ l"
    using le Suc.prems(2,4) by (simp add: d_def)
  have step: "copy_text buf i (Suc n) dst off =
      (if Suc i < line_count buf then Option.bind (store d (off + length l) nl) (\<lambda>e. copy_text buf (Suc i) n e (off + length l + 1))
       else copy_text buf (Suc i) n d (off + length l))"
    using cp off i by (simp add: load_line_eq line_length_eq [OF wf] Let_def flip: l_def)
  show ?case
  proof (cases "Suc i < line_count buf")
    case True
    let ?e = "d[off + length l := nl]"
    have "store d (off + length l) nl = Some ?e" using ld le by (simp add: store_eq)
    moreover have "take (off + length l + 1) ?e = take off F @ l @ [nl]"
      using td ld le by (simp add: take_update_swap take_Suc_update)
    moreover have "off + length l + 1 = line_start (texts buf) (Suc i)"
      using ls(1) True Suc.prems(3) by (simp add: l_def)
    moreover have "take (line_start (texts buf) (Suc i)) F = take off F @ l @ [nl]"
      using ls(4) True Suc.prems(3) by (simp add: l_def)
    ultimately show ?thesis
      unfolding step using True Suc.IH [of "Suc i" ?e "off + length l + 1"] Suc.prems(1) ld by simp
  next
    case False
    moreover have "off + length l = line_start (texts buf) (Suc i)"
      using ls(1) False Suc.prems(3) by (simp add: l_def)
    moreover have "take (off + length l) F = take off F @ l"
      using ls(3) Suc.prems(3) by (simp add: l_def)
    ultimately show ?thesis
      unfolding step using Suc.IH [of "Suc i" d "off + length l"] Suc.prems(1) ld td by simp
  qed
qed

text \<open>The parser is given the document, NUL-terminated, and its length.\<close>

lemma build_buffer_text_eq:
  assumes wf: "wf_buffer buf"
  shows "build_buffer_text buf = Some (flat (texts buf) @ [0], length (flat (texts buf)))"
proof -
  let ?F = "flat (texts buf)"
  have ne: "texts buf \<noteq> []" using wf_buffer_count [OF wf] by (simp flip: length_greater_0_conv)
  have t: "text_total buf 0 (line_count buf) 0 = Some (length ?F)"
    using text_total_eq [OF wf, of 0 "line_count buf" 0] line_start_0 [OF ne] by simp
  obtain d where d: "copy_text buf 0 (line_count buf) (replicate (length ?F + 1) 0) 0 = Some (d, length ?F)"
    "length d = length ?F + 1" "take (length ?F) d = ?F"
    using copy_text_eq [OF wf, of 0 "line_count buf" "replicate (length ?F + 1) 0" 0] line_start_0 [OF ne]
    by (auto elim!: returnsE)
  have "d[length ?F := 0] = ?F @ [0]"
    using d(2,3) by (simp add: list_update_split)
  with t d(1,2) show ?thesis by (simp add: build_buffer_text_def store_eq)
qed

lemma offsets_loop_eq:
  assumes wf: "wf_buffer buf"
  shows "row + n = length offsets \<Longrightarrow> length offsets \<le> line_count buf \<Longrightarrow> off = line_start (texts buf) row \<Longrightarrow>
    (\<forall>r<row. offsets ! r = offset (texts buf) r 0) \<Longrightarrow>
    returns (offsets_loop buf row n offsets off) (\<lambda>os. length os = length offsets \<and>
      (\<forall>r<length offsets. os ! r = offset (texts buf) r 0))"
proof (induction n arbitrary: row offsets off)
  case (Suc n)
  then have r: "row < line_count buf" "row < length offsets" by simp_all
  note ls = line_start_Suc(1) [of row "texts buf", simplified, OF r(1)]
  have "\<forall>k<Suc row. offsets[row := off] ! k = offset (texts buf) k 0"
    using Suc.prems r by (auto simp: less_Suc_eq nth_list_update line_start_def)
  then show ?case
    using Suc.IH [of "Suc row" "offsets[row := off]" "line_start (texts buf) (Suc row)"] Suc.prems(1,2,3) r ls
    by (simp add: store_eq line_length_eq [OF wf])
qed simp

lemma build_line_offsets_ok:
  assumes "wf_buffer buf" "last_row < line_count buf"
  shows "returns (build_line_offsets buf last_row) (\<lambda>os. length os = last_row + 1 \<and>
    (\<forall>r\<le>last_row. os ! r = offset (texts buf) r 0))"
proof -
  have "texts buf \<noteq> []" using assms(2) by (auto simp flip: length_greater_0_conv)
  then show ?thesis
    using offsets_loop_eq [OF assms(1), of 0 "last_row + 1" "replicate (last_row + 1) 0" 0] assms(2) line_start_0
    by (auto simp: build_line_offsets_def less_Suc_eq_le elim!: returnsE)
qed

section \<open>Which colour a byte gets\<close>

text \<open>A capture covers the bytes from its start up to its end, in the order of the text.\<close>

definition covers :: "nat \<Rightarrow> highlight_span \<Rightarrow> nat \<Rightarrow> bool" where
  "covers row span j \<longleftrightarrow> Pos (hs_start_row span) (hs_start_col span) \<le> Pos row j \<and>
     Pos row j < Pos (hs_end_row span) (hs_end_col span)"

definition paint_one :: "nat \<Rightarrow> nat \<Rightarrow> byte list option \<times> byte \<Rightarrow> highlight_span \<Rightarrow> byte list option \<times> byte" where
  "paint_one row j cp span =
     (if covers row span j \<and> snd cp \<le> hs_priority span then (Some (hs_color span), hs_priority span) else cp)"

definition span_color :: "nat \<Rightarrow> highlight_span list \<Rightarrow> nat \<Rightarrow> byte list option" where
  "span_color row spans j = fst (foldl (paint_one row j) (None, 0) spans)"

text \<open>
  It is the colour of a covering capture of the highest priority, the last of those in the order
  of the list, and no colour when no capture covers the byte.
\<close>

lemma foldl_paint:
  "(case foldl (paint_one row j) (None, 0) spans of
      (None, p) \<Rightarrow> p = 0 \<and> (\<forall>sp\<in>set spans. \<not> covers row sp j)
    | (Some c, p) \<Rightarrow> \<exists>A sp B. spans = A @ sp # B \<and> c = hs_color sp \<and> p = hs_priority sp \<and> covers row sp j \<and>
        (\<forall>x\<in>set A. covers row x j \<longrightarrow> hs_priority x \<le> hs_priority sp) \<and>
        (\<forall>x\<in>set B. covers row x j \<longrightarrow> hs_priority x < hs_priority sp))"
proof (induction spans rule: rev_induct)
  case (snoc x spans)
  obtain c p where cp: "foldl (paint_one row j) (None, 0) spans = (c, p)" by fastforce
  show ?case
  proof (cases "covers row x j \<and> p \<le> hs_priority x")
    case True
    have "\<forall>y\<in>set spans. covers row y j \<longrightarrow> hs_priority y \<le> hs_priority x"
    proof (intro ballI impI)
      fix y assume "y \<in> set spans" "covers row y j"
      with snoc have "hs_priority y \<le> p" unfolding cp
        by (auto split: option.splits) (blast intro: less_imp_le)
      with True show "hs_priority y \<le> hs_priority x" by (blast intro: order_trans)
    qed
    moreover have f: "foldl (paint_one row j) (None, 0) (spans @ [x]) = (Some (hs_color x), hs_priority x)"
      using cp True by (simp add: paint_one_def)
    ultimately show ?thesis
      unfolding f using True by (simp del: append_assoc) (rule exI [of _ spans], rule exI [of _ x], simp)
  next
    case False
    then have f: "foldl (paint_one row j) (None, 0) (spans @ [x]) = (c, p)"
      using cp by (auto simp: paint_one_def)
    show ?thesis
    proof (cases c)
      case None
      with snoc cp False show ?thesis unfolding f by auto
    next
      case (Some e)
      with snoc cp obtain A sp B where w: "spans = A @ sp # B" "e = hs_color sp" "p = hs_priority sp" "covers row sp j"
        "\<forall>x\<in>set A. covers row x j \<longrightarrow> hs_priority x \<le> hs_priority sp"
        "\<forall>x\<in>set B. covers row x j \<longrightarrow> hs_priority x < hs_priority sp" by auto
      with False have "\<forall>y\<in>set (B @ [x]). covers row y j \<longrightarrow> hs_priority y < hs_priority sp" by auto
      moreover have "spans @ [x] = A @ sp # (B @ [x])" using w(1) by simp
      ultimately show ?thesis unfolding f Some prod.case option.case using w(2-5) by blast
    qed
  qed
qed simp

lemma span_color_best:
  "case span_color row spans j of
     None \<Rightarrow> \<forall>sp\<in>set spans. \<not> covers row sp j
   | Some c \<Rightarrow> \<exists>A sp B. spans = A @ sp # B \<and> c = hs_color sp \<and> covers row sp j \<and>
       (\<forall>x\<in>set A. covers row x j \<longrightarrow> hs_priority x \<le> hs_priority sp) \<and>
       (\<forall>x\<in>set B. covers row x j \<longrightarrow> hs_priority x < hs_priority sp)"
  using foldl_paint [where spans = spans and row = row and j = j] unfolding span_color_def
  by (cases "foldl (paint_one row j) (None, 0) spans"; cases "fst (foldl (paint_one row j) (None, 0) spans)") auto

text \<open>What painting one span and all of them does to the two arrays.\<close>

definition painted ::
  "highlight_span \<Rightarrow> (nat \<Rightarrow> bool) \<Rightarrow> byte list option list \<Rightarrow> byte list \<Rightarrow>
   byte list option list \<times> byte list \<Rightarrow> bool" where
  "painted span R colors prio = (\<lambda>(colors', prio'). length colors' = length colors \<and> length prio' = length prio \<and>
     (\<forall>k<length colors. (colors' ! k, prio' ! k) =
        (if R k \<and> prio ! k \<le> hs_priority span then (Some (hs_color span), hs_priority span)
         else (colors ! k, prio ! k))))"

lemma painted_mono: "painted span R c p x \<Longrightarrow> (\<And>k. k < length c \<Longrightarrow> R k = S k) \<Longrightarrow> painted span S c p x"
  by (auto simp: painted_def)

lemma painted_step:
  assumes "painted span (\<lambda>k. Suc j \<le> k \<and> k < Suc j + n) (colors[j := Some (hs_color span)])
      (prio[j := hs_priority span]) x"
    and j: "j < length colors" "length prio = length colors" "prio ! j \<le> hs_priority span"
  shows "painted span (\<lambda>k. j \<le> k \<and> k < j + Suc n) colors prio x"
proof -
  obtain c p where x: "x = (c, p)" by fastforce
  have "(c ! k, p ! k) = (if (j \<le> k \<and> k < j + Suc n) \<and> prio ! k \<le> hs_priority span
      then (Some (hs_color span), hs_priority span) else (colors ! k, prio ! k))" if k: "k < length colors" for k
  proof (cases "k = j")
    case True
    with assms k show ?thesis by (simp add: painted_def x)
  next
    case False
    then have "j \<le> k \<longleftrightarrow> Suc j \<le> k" by auto
    with False assms k show ?thesis by (simp add: painted_def x)
  qed
  with assms show ?thesis by (simp add: painted_def x)
qed

lemma painted_skip:
  assumes "painted span (\<lambda>k. Suc j \<le> k \<and> k < Suc j + n) colors prio x" and "\<not> prio ! j \<le> hs_priority span"
  shows "painted span (\<lambda>k. j \<le> k \<and> k < j + Suc n) colors prio x"
proof -
  have "(Suc j \<le> k \<and> k < Suc j + n) \<and> prio ! k \<le> hs_priority span \<longleftrightarrow>
      (j \<le> k \<and> k < j + Suc n) \<and> prio ! k \<le> hs_priority span" for k
    using assms(2) by (cases "k = j") auto
  with assms(1) show ?thesis unfolding painted_def by simp
qed

lemma paint_loop_ok:
  "j + n \<le> length colors \<Longrightarrow> length prio = length colors \<Longrightarrow>
   returns (paint_loop span j n colors prio) (painted span (\<lambda>k. j \<le> k \<and> k < j + n) colors prio)"
proof (induction n arbitrary: j colors prio)
  case 0
  then show ?case by (auto simp: painted_def)
next
  case (Suc n)
  then have j: "j < length colors" "j < length prio" by simp_all
  show ?case
  proof (cases "prio ! j \<le> hs_priority span")
    case True
    let ?c = "colors[j := Some (hs_color span)]" and ?p = "prio[j := hs_priority span]"
    have "returns (paint_loop span (Suc j) n ?c ?p) (painted span (\<lambda>k. Suc j \<le> k \<and> k < Suc j + n) ?c ?p)"
      using Suc.IH [of "Suc j" ?c ?p] Suc.prems by simp
    then have "returns (paint_loop span (Suc j) n ?c ?p) (painted span (\<lambda>k. j \<le> k \<and> k < j + Suc n) colors prio)"
      by (rule returns_mono) (rule painted_step, assumption, (use True Suc.prems j in simp_all))
    with True j show ?thesis by (simp add: load_eq store_eq)
  next
    case False
    have "returns (paint_loop span (Suc j) n colors prio) (painted span (\<lambda>k. Suc j \<le> k \<and> k < Suc j + n) colors prio)"
      using Suc.IH [of "Suc j" colors prio] Suc.prems by simp
    then have "returns (paint_loop span (Suc j) n colors prio) (painted span (\<lambda>k. j \<le> k \<and> k < j + Suc n) colors prio)"
      by (rule returns_mono) (rule painted_skip [OF _ False])
    with False j show ?thesis by (simp add: load_eq)
  qed
qed

lemma paint_span_ok:
  assumes "length colors = line_len" "length prio = line_len"
  shows "returns (paint_span row line_len span colors prio) (painted span (covers row span) colors prio)"
proof -
  define start where "start = (if row = hs_start_row span then hs_start_col span else 0)"
  define stop where "stop = (if row = hs_end_row span
                   then (if hs_end_col span < line_len then hs_end_col span else line_len) else line_len)"
  have none: "painted span (covers row span) colors prio (colors, prio)" if "\<And>k. k < line_len \<Longrightarrow> \<not> covers row span k"
    using that assms by (auto simp: painted_def)
  have stop: "stop \<le> line_len" "(if stop > line_len then line_len else stop) = stop" by (simp_all add: stop_def)
  show ?thesis
  proof (cases "row < hs_start_row span \<or> row > hs_end_row span")
    case True
    with none show ?thesis by (auto simp: paint_span_def covers_def less_eq_pos_def less_pos_def)
  next
    case rows: False
    have cov: "covers row span k \<longleftrightarrow> start \<le> k \<and> k < stop" if "k < line_len" for k
      using rows that by (auto simp: covers_def less_eq_pos_def less_pos_def start_def stop_def)
    show ?thesis
    proof (cases "start > line_len \<or> stop \<le> start")
      case True
      with cov stop(1) have "\<And>k. k < line_len \<Longrightarrow> \<not> covers row span k" by force
      with none rows True show ?thesis
        unfolding paint_span_def Let_def start_def [symmetric] stop_def [symmetric] stop(2) by auto
    next
      case False
      have "returns (paint_loop span start (stop - start) colors prio) (painted span (covers row span) colors prio)"
        by (rule returns_mono [OF paint_loop_ok])
           (use False stop(1) assms cov in \<open>auto elim!: painted_mono\<close>)
      with rows False show ?thesis
        unfolding paint_span_def Let_def start_def [symmetric] stop_def [symmetric] stop(2) by simp
    qed
  qed
qed

lemma paint_spans_ok:
  "length colors = line_len \<Longrightarrow> length prio = line_len \<Longrightarrow>
   returns (paint_spans row line_len spans colors prio) (\<lambda>(colors', prio').
     length colors' = line_len \<and> length prio' = line_len \<and>
     (\<forall>k<line_len. (colors' ! k, prio' ! k) = foldl (paint_one row k) (colors ! k, prio ! k) spans))"
proof (induction spans arbitrary: colors prio)
  case (Cons span spans)
  obtain c p where cp: "paint_span row line_len span colors prio = Some (c, p)"
    "painted span (covers row span) colors prio (c, p)"
    using paint_span_ok [OF Cons.prems, of row span] by (auto elim!: returnsE)
  then have len: "length c = line_len" "length p = line_len" using Cons.prems by (simp_all add: painted_def)
  have one: "(c ! k, p ! k) = paint_one row k (colors ! k, prio ! k) span" if "k < line_len" for k
    using cp(2) Cons.prems that by (auto simp: painted_def paint_one_def)
  show ?case
    using Cons.IH [OF len] one by (simp add: cp(1))
qed simp

lemma paint_all:
  "returns (paint_spans row line_len spans (replicate line_len None) (replicate line_len 0))
    (\<lambda>(colors, prio). colors = map (span_color row spans) [0..<line_len])"
proof (rule returns_mono [OF paint_spans_ok [where row = row]])
  fix x :: "byte list option list \<times> byte list"
  assume "case x of (c, p) \<Rightarrow> length c = line_len \<and> length p = line_len \<and> (\<forall>k<line_len. (c ! k, p ! k) =
     foldl (paint_one row k) (replicate line_len None ! k, replicate line_len 0 ! k) spans)"
  then obtain c p where x: "x = (c, p)" "length c = line_len" and
    f: "\<And>k. k < line_len \<Longrightarrow> (c ! k, p ! k) = foldl (paint_one row k) (None, 0) spans"
    by (cases x) auto
  have "c ! k = span_color row spans k" if "k < line_len" for k
    using f [OF that, symmetric] by (simp add: span_color_def)
  then show "case x of (c, p) \<Rightarrow> c = map (span_color row spans) [0..<line_len]"
    using x by (auto simp: list_eq_iff_nth_eq)
qed simp_all

section \<open>A line drawn in runs\<close>

text \<open>
  \<open>drawn col colors text out\<close>: the text is cut into runs of one colour each and every run is drawn
  behind the escape sequence of its colour, with its tabs expanded from the column the source keeps
  for it.
\<close>

inductive drawn :: "nat \<Rightarrow> byte list option list \<Rightarrow> byte list \<Rightarrow> byte list \<Rightarrow> bool" where
  drawn_nil: "drawn col [] [] []"
| drawn_run: "t \<noteq> [] \<Longrightarrow> cs = replicate (length t) c \<Longrightarrow> drawn (col + vis_width 0 t) cs' t' out \<Longrightarrow>
    drawn col (cs @ cs') (t @ t') (color_escape c @ expand col t @ out)"

lemma take_drop_cstr:
  "wf_block b \<Longrightarrow> i \<le> length (cstr b) \<Longrightarrow> rs \<le> i \<Longrightarrow> take (i - rs) (drop rs b) = take (i - rs) (drop rs (cstr b))"
  using take_cstr [of i b] by (simp add: take_drop)

lemma emits_flush:
  "run_start + (i - run_start) \<le> length line \<Longrightarrow>
   ab_sink.emits (\<lambda>ab. flush_run ab line active run_start i col)
     (color_escape active @ expand col (take (i - run_start) (drop run_start line)))"
  unfolding flush_run_def by (intro ab_sink.emits_seq emits_str emits_expanding_tabs)

lemma constant_run:
  "(\<forall>k. rs \<le> k \<longrightarrow> k < i \<longrightarrow> cs ! k = c) \<Longrightarrow> i \<le> length cs \<Longrightarrow> take (i - rs) (drop rs cs) = replicate (i - rs) c"
  by (auto simp: list_eq_iff_nth_eq)

lemma draw_runs_ok:
  assumes wf: "wf_block line" and len: "length colors = length (cstr line)"
  shows "i + n \<le> length colors \<Longrightarrow> rs \<le> i \<Longrightarrow> (\<forall>k. rs \<le> k \<longrightarrow> k < i \<longrightarrow> colors ! k = active) \<Longrightarrow>
    \<exists>out. ab_sink.emits (\<lambda>ab. draw_runs ab line colors i n active rs col) out \<and>
      drawn col (take (i + n - rs) (drop rs colors)) (take (i + n - rs) (drop rs (cstr line))) out"
proof (induction n arbitrary: i active rs col)
  case 0
  have fl: "ab_sink.emits (\<lambda>ab. flush_run ab line active rs i col)
      (color_escape active @ expand col (take (i - rs) (drop rs (cstr line))) @ [])" if "rs < i"
    using emits_flush [of rs i line active col] 0 len length_cstr_less [OF wf] take_drop_cstr [OF wf, of i rs] that by simp
  show ?case
  proof (cases "rs < i")
    case True
    have "drawn col (take (i - rs) (drop rs colors) @ []) (take (i - rs) (drop rs (cstr line)) @ [])
        (color_escape active @ expand col (take (i - rs) (drop rs (cstr line))) @ [])"
      using True 0 len by (intro drawn_run drawn_nil) (auto simp: constant_run)
    with fl True show ?thesis by auto
  next
    case False
    with 0(2) show ?thesis using ab_sink.emits_nothing drawn_nil by auto
  qed
next
  case (Suc n)
  then have l: "load colors i = Some (colors ! i)" by (simp add: load_eq)
  show ?case
  proof (cases "colors ! i = active")
    case True
    then have "\<forall>k. rs \<le> k \<longrightarrow> k < Suc i \<longrightarrow> colors ! k = active"
      using Suc.prems(3) by (auto simp: less_Suc_eq)
    then show ?thesis using Suc.IH [of "Suc i" rs active col] Suc.prems(1,2) True l by simp
  next
    case False
    have run: "\<forall>k. i \<le> k \<longrightarrow> k < Suc i \<longrightarrow> colors ! k = colors ! i" by (auto simp: less_Suc_eq)
    show ?thesis
    proof (cases "rs < i")
      case True
      define t where "t = take (i - rs) (drop rs (cstr line))"
      have t: "t \<noteq> []" "length t = i - rs" using True Suc.prems len by (auto simp: t_def)
      have w: "utf8_byte_to_vis_col (drop rs line) (i - rs) = Some (vis_width 0 t)"
        using drop_wf_block [OF wf, of rs] Suc.prems len by (simp add: utf8_byte_to_vis_col_eq t_def)
      obtain out where out: "ab_sink.emits (\<lambda>ab. draw_runs ab line colors (Suc i) n (colors ! i) i (col + vis_width 0 t)) out"
        "drawn (col + vis_width 0 t) (take (Suc n) (drop i colors)) (take (Suc n) (drop i (cstr line))) out"
      proof -
        have "\<exists>out. ab_sink.emits (\<lambda>ab. draw_runs ab line colors (Suc i) n (colors ! i) i (col + vis_width 0 t)) out \<and>
            drawn (col + vis_width 0 t) (take (Suc i + n - i) (drop i colors)) (take (Suc i + n - i) (drop i (cstr line))) out"
          by (rule Suc.IH [OF _ _ run]) (use Suc.prems(1) in simp_all)
        moreover have "Suc i + n - i = Suc n" by simp
        ultimately show thesis unfolding \<open>Suc i + n - i = Suc n\<close> by (elim exE conjE) (rule that)
      qed
      have fl: "ab_sink.emits (\<lambda>ab. flush_run ab line active rs i col) (color_escape active @ expand col t)"
        using emits_flush [of rs i line active col] Suc.prems len length_cstr_less [OF wf]
          take_drop_cstr [OF wf, of i rs] True by (simp add: t_def)
      have e: "ab_sink.emits (\<lambda>ab. draw_runs ab line colors i (Suc n) active rs col)
          (color_escape active @ expand col t @ out)"
        using ab_sink.emits_seq [OF fl out(1)] True l w \<open>colors ! i \<noteq> active\<close> by simp
      have cut: "take (i + Suc n - rs) (drop rs xs) = take (i - rs) (drop rs xs) @ take (Suc n) (drop i xs)" for xs :: "'x list"
      proof -
        have "i + Suc n - rs = (i - rs) + Suc n" using True by simp
        then show ?thesis using True by (simp only: take_add drop_drop) simp
      qed
      have "drawn col (take (i - rs) (drop rs colors) @ take (Suc n) (drop i colors))
          (t @ take (Suc n) (drop i (cstr line))) (color_escape active @ expand col t @ out)"
        using t out(2) Suc.prems by (intro drawn_run) (simp_all add: constant_run)
      with e show ?thesis unfolding cut t_def by blast
    next
      case eq: False
      then have rs: "rs = i" using Suc.prems(2) by simp
      have "draw_runs ab line colors i (Suc n) active rs col =
          draw_runs ab line colors (Suc i) n (colors ! i) i col" for ab
        using False l rs by simp
      then show ?thesis using Suc.IH [of "Suc i" i "colors ! i" col, OF _ _ run] Suc.prems(1)
        unfolding rs by simp
    qed
  qed
qed

lemma render_line_ok:
  assumes wf: "wf_block line" and col: "c \<le> length (cstr line)" "c + n \<le> length (cstr line)"
  shows "\<exists>out. drawn (vis_width 0 (take c (cstr line))) (map (span_color row spans) [c..<c + n])
      (take n (drop c (cstr line))) out \<and>
    ab_sink.emits (\<lambda>ab. render_line_with_spans ab line (length (cstr line)) row c n spans)
      (out @ csi (bytes_of ''m''))"
proof -
  define colors where "colors = map (span_color row spans) [0..<length (cstr line)]"
  obtain prio where p: "paint_spans row (length (cstr line)) spans (replicate (length (cstr line)) None)
      (replicate (length (cstr line)) 0) = Some (colors, prio)"
    using paint_all [of row "length (cstr line)" spans] by (auto simp: colors_def elim!: returnsE)
  have s: "(if c < length (cstr line) then c else length (cstr line)) = c"
    "(if c + n < length (cstr line) then c + n else length (cstr line)) = c + n" using col by auto
  obtain out where out: "ab_sink.emits (\<lambda>ab. draw_runs ab line colors c n None c (vis_width 0 (take c (cstr line)))) out"
    "drawn (vis_width 0 (take c (cstr line))) (take n (drop c colors)) (take n (drop c (cstr line))) out"
  proof -
    have "\<exists>out. ab_sink.emits (\<lambda>ab. draw_runs ab line colors c n None c (vis_width 0 (take c (cstr line)))) out \<and>
        drawn (vis_width 0 (take c (cstr line))) (take (c + n - c) (drop c colors)) (take (c + n - c) (drop c (cstr line))) out"
      by (rule draw_runs_ok [OF wf]) (use col in \<open>simp_all add: colors_def\<close>)
    then show thesis unfolding add_diff_cancel_left' by (elim exE conjE) (rule that)
  qed
  have "take n (drop c colors) = map (span_color row spans) [c..<c + n]"
    using col by (simp add: colors_def take_map drop_map)
  moreover have "ab_sink.emits (\<lambda>ab. render_line_with_spans ab line (length (cstr line)) row c n spans)
      (out @ csi (bytes_of ''m''))"
    unfolding render_line_with_spans_def p using ab_sink.emits_seq [OF out(1) emits_str]
    by (simp add: Let_def s utf8_byte_to_vis_col_eq [OF wf])
  ultimately show ?thesis using out(2) by auto
qed

end
