(* ===== verification/Screen.thy ===== *)
theory Screen
  imports Modal Highlight
begin

text \<open>
  One frame (\<open>src/render.c\<close>, \<open>selection_range_for_row\<close> to the end): scrolling, the refresh of the
  parse tree, the rows of the text with their selection and colours, the status line and the
  cursor. \<open>editor_refresh_screen\<close> is cut where the source has its blocks. A size is a natural number;
  the conversion of a size to \<open>int\<close> is written out, since the source's cast wraps.
\<close>

section \<open>Selection\<close>

definition selection_range_for_row :: "editor \<Rightarrow> nat \<Rightarrow> (nat \<times> nat) option" where
  "selection_range_for_row ed row =
     (if \<not> ed_mark_active ed then None
      else
        let row_a = ed_mark_row ed; col_a = ed_mark_col ed;
            row_b = cur_row ed; col_b = cur_col ed;
            (row_a, col_a, row_b, col_b) =
              (if pos_compare row_a col_a row_b col_b > 0 then (row_b, col_b, row_a, col_a)
               else (row_a, col_a, row_b, col_b))
        in if row < row_a \<or> row > row_b then None
           else if row = row_a \<and> row = row_b then (if col_a \<noteq> col_b then Some (col_a, col_b) else None)
           else if row = row_a then Some (col_a, SIZE_MAX)
           else if row = row_b then (if col_b \<noteq> 0 then Some (0, col_b) else None)
           else Some (0, SIZE_MAX))"

section \<open>Scrolling\<close>

definition size_of_int :: "int \<Rightarrow> nat" where
  "size_of_int i = nat (i mod 2 ^ 64)"

definition screen_text_rows :: "editor \<Rightarrow> nat" where
  "screen_text_rows ed = (if ed_screen_rows ed > 1 then nat (ed_screen_rows ed - 1) else 0)"

definition scroll_rows :: "editor \<Rightarrow> editor" where
  "scroll_rows ed =
     (let text_rows = screen_text_rows ed; row = cur_row ed; count = line_count (ed_buffer ed);
          off = ed_row_offset ed;
          off = (if row < off then row else off);
          off = (if text_rows > 0 \<and> row \<ge> off + text_rows then row - text_rows + 1 else off);
          off = (if off + text_rows > count
                 then (if count > text_rows then count - text_rows else 0) else off)
      in ed\<lparr>ed_row_offset := off\<rparr>)"

definition scroll_cols :: "editor \<Rightarrow> editor option" where
  "scroll_cols ed =
     (let row = cur_row ed; cols = size_of_int (ed_screen_cols ed)
      in if row < line_count (ed_buffer ed) then do {
           line \<leftarrow> load_line (ed_buffer ed) row;
           len \<leftarrow> line_length (ed_buffer ed) row;
           frame_vis_col \<leftarrow> utf8_byte_to_vis_col line (cur_col ed);
           offset_vis_col \<leftarrow> utf8_byte_to_vis_col line (ed_col_offset ed);
           off \<leftarrow> (if frame_vis_col < offset_vis_col
                  then utf8_vis_to_byte_col line len frame_vis_col else Some (ed_col_offset ed));
           off \<leftarrow> (if frame_vis_col \<ge> offset_vis_col + cols
                  then utf8_vis_to_byte_col line len (frame_vis_col - cols + 1) else Some off);
           off \<leftarrow> utf8_clamp_col line len off;
           Some (ed\<lparr>ed_col_offset := off\<rparr>)
         } else Some ed)"

definition editor_scroll :: "editor \<Rightarrow> editor option" where
  "editor_scroll ed = scroll_cols (scroll_rows ed)"

section \<open>The parse tree and the spans of the visible rows\<close>

definition refresh_syntax :: "highlighter \<Rightarrow> editor \<Rightarrow> editor option" where
  "refresh_syntax hl ed =
     (let buf = ed_buffer ed
      in if b_syntax_enabled buf \<and> b_ts_parser buf \<and> b_ts_query buf \<and>
            (b_syntax_dirty buf \<or> b_ts_tree buf = None)
         then do {
           (str, len) \<leftarrow> build_buffer_text buf;
           let source = take len str;
           let buf = (if hl_parses hl source then buf\<lparr>b_ts_tree := Some source\<rparr> else buf);
           Some (ed\<lparr>ed_buffer := buf\<lparr>b_syntax_dirty := False\<rparr>\<rparr>)
         } else Some ed)"

definition visible_spans :: "highlighter \<Rightarrow> editor \<Rightarrow> highlight_span list option" where
  "visible_spans hl ed =
     (let buf = ed_buffer ed; text_rows = screen_text_rows ed
      in if text_rows > 0 \<and> line_count buf > 0 then do {
           let last_row = ed_row_offset ed + text_rows - 1;
           let last_row = (if last_row \<ge> line_count buf then line_count buf - 1 else last_row);
           offsets \<leftarrow> build_line_offsets buf last_row;
           if b_syntax_enabled buf \<and> b_ts_tree buf \<noteq> None \<and> b_ts_query buf then do {
             range_start \<leftarrow> load offsets (ed_row_offset ed);
             last_start \<leftarrow> load offsets last_row;
             len \<leftarrow> line_length buf last_row;
             spans \<leftarrow> collect_highlights hl buf range_start (last_start + len);
             Some (if length spans > 1 then qsort span_compare spans else spans)
           } else Some []
         } else Some [])"

section \<open>A row\<close>

text \<open>
  The branch of the selection: the part in front of it, the part in it in reverse video, and the
  part behind it. \<open>off\<close> is \<open>col_offset\<close>.
\<close>

definition draw_selected ::
  "append_buf \<Rightarrow> block \<Rightarrow> nat \<Rightarrow> nat \<Rightarrow> nat \<Rightarrow> nat \<Rightarrow> nat \<Rightarrow> nat \<Rightarrow> nat \<Rightarrow> append_buf option" where
  "draw_selected ab line line_len off end_byte vis_len vis_offset sel_start sel_end =
     (let sel_end = (if sel_end > line_len then line_len else sel_end);
          sel_start = (if sel_start > line_len then line_len else sel_start);
          sel_end = (if sel_end < sel_start then sel_start else sel_end)
      in if sel_end \<le> off \<or> sel_start \<ge> end_byte
         then ab_append_expanding_tabs ab line off vis_len vis_offset
         else do {
           let draw_start = (if sel_start > off then sel_start else off);
           let draw_end = (if sel_end < end_byte then sel_end else end_byte);
           let before_len = usub draw_start off;
           let sel_len = usub draw_end draw_start;
           let after_len = usub end_byte draw_end;
           ab \<leftarrow> (if before_len > 0 then ab_append_expanding_tabs ab line off before_len vis_offset
                 else Some ab);
           ab \<leftarrow> (if sel_len > 0 then do {
                   ab \<leftarrow> ab_append_str ab (csi (bytes_of ''7m''));
                   col \<leftarrow> utf8_byte_to_vis_col (drop off line) before_len;
                   ab \<leftarrow> ab_append_expanding_tabs ab line (off + before_len) sel_len (vis_offset + col);
                   ab_append_str ab (csi (bytes_of ''m''))
                 } else Some ab);
           if after_len > 0 then do {
             col \<leftarrow> utf8_byte_to_vis_col (drop off line) (before_len + sel_len);
             ab_append_expanding_tabs ab line (off + before_len + sel_len) after_len (vis_offset + col)
           } else Some ab
         })"

definition draw_line :: "editor \<Rightarrow> highlight_span list \<Rightarrow> append_buf \<Rightarrow> nat \<Rightarrow> append_buf option" where
  "draw_line ed spans ab file_row = do {
     line \<leftarrow> load_line (ed_buffer ed) file_row;
     line_len \<leftarrow> strlen line;
     let off = ed_col_offset ed;
     let cols = size_of_int (ed_screen_cols ed);
     vis_offset \<leftarrow> utf8_byte_to_vis_col line off;
     end_byte \<leftarrow> utf8_vis_to_byte_col line line_len (vis_offset + cols);
     let vis_len = (if off < line_len then usub end_byte off else 0);
     let vis_len = (if vis_len > cols then cols else vis_len);
     if vis_len > 0 then
       (case selection_range_for_row ed file_row of
          None \<Rightarrow>
            (if spans \<noteq> [] then render_line_with_spans ab line line_len file_row off vis_len spans
             else ab_append_expanding_tabs ab line off vis_len vis_offset)
        | Some (sel_start, sel_end) \<Rightarrow>
            draw_selected ab line line_len off end_byte vis_len vis_offset sel_start sel_end)
     else Some ab
   }"

text \<open>The loop over the rows of the screen; \<open>n\<close> are left.\<close>

fun draw_rows :: "editor \<Rightarrow> highlight_span list \<Rightarrow> append_buf \<Rightarrow> nat \<Rightarrow> nat \<Rightarrow> append_buf option" where
  "draw_rows ed spans ab y 0 = Some ab"
| "draw_rows ed spans ab y (Suc n) = do {
     let file_row = ed_row_offset ed + y;
     ab \<leftarrow> (if file_row \<ge> line_count (ed_buffer ed) then ab_append_char ab 126
           else draw_line ed spans ab file_row);
     ab \<leftarrow> ab_append_str ab (csi (bytes_of ''K''));
     ab \<leftarrow> (if y + 1 < screen_text_rows ed then ab_append_str ab [13, 10] else Some ab);
     draw_rows ed spans ab (y + 1) n
   }"

section \<open>Status line and cursor\<close>

definition mode_name :: "buffer_mode \<Rightarrow> byte list" where
  "mode_name mode = (if mode = MAKEFILE_MODE then bytes_of ''Makefile'' else bytes_of ''C'')"

definition status_left :: "editor \<Rightarrow> byte list" where
  "status_left ed =
     (let name = (case b_file_path (ed_buffer ed) of Some path \<Rightarrow> path | None \<Rightarrow> bytes_of ''[No Name]'');
          dirty = (if ed_dirty ed then bytes_of ''*'' else []);
          ctx = (if ed_status_msg ed \<noteq> [] then ed_status_msg ed
                 else if ed_pending_ctrl_x ed then bytes_of ''C-x'' else []);
          head = [32] @ name @ dirty @ bytes_of ''  L'' @ dec_nat (cur_row ed + 1)
      in take 511 (if ctx \<noteq> [] then head @ bytes_of ''  '' @ ctx else head))"

definition status_right :: "editor \<Rightarrow> byte list" where
  "status_right ed = take 63 ([32] @ mode_name (b_mode (ed_buffer ed)) @ [32])"

definition draw_status :: "editor \<Rightarrow> append_buf \<Rightarrow> append_buf option" where
  "draw_status ed ab = do {
     let left = status_left ed;
     let right = status_right ed;
     let cols = size_of_int (ed_screen_cols ed);
     let right_len = (if length right > cols then cols else length right);
     let left_cols = cols - right_len;
     let left_len = (if length left > left_cols then left_cols else length left);
     ab \<leftarrow> (if left_len > 0 then ab_append ab left left_len else Some ab);
     ab \<leftarrow> ab_append_repeat ab [32] (left_cols - left_len);
     if right_len > 0 then ab_append ab right right_len else Some ab
   }"

definition int_of_size :: "nat \<Rightarrow> int" where
  "int_of_size n = sint (of_nat n :: 32 word)"

definition cursor_position :: "editor \<Rightarrow> int \<Rightarrow> (int \<times> int) option" where
  "cursor_position ed text_rows =
     (if fd_active (ed_finder ed) then
        let (start_row, start_col, width, list_rows) = finder_modal_geometry ed text_rows;
            col = length (bytes_of '' Go to file: '') + fl_col (fd_query (ed_finder ed)) + 1;
            col = (if col > width then width else col)
        in Some (start_row + 1, start_col + int_of_size col)
      else if ed_prompt_active ed then
        let (start_row, start_col, width) = prompt_modal_geometry ed text_rows;
            col = length (if ed_prompt_save_as ed then bytes_of '' Save as: '' else bytes_of '' '') +
                  fl_col (ed_prompt ed) + 1;
            col = (if col > width then width else col)
        in Some (start_row + 1, start_col + int_of_size col)
      else if cur_row ed < line_count (ed_buffer ed) then do {
        line \<leftarrow> load_line (ed_buffer ed) (cur_row ed);
        frame_vis \<leftarrow> utf8_byte_to_vis_col line (cur_col ed);
        offset_vis \<leftarrow> utf8_byte_to_vis_col line (ed_col_offset ed);
        Some (int_of_size (usub (cur_row ed) (ed_row_offset ed)) + 1,
              int_of_size (usub frame_vis offset_vis) + 1)
      }
      else Some (int_of_size (usub (cur_row ed) (ed_row_offset ed)) + 1, 1))"

section \<open>The frame\<close>

definition draw_frame :: "editor \<Rightarrow> highlight_span list \<Rightarrow> append_buf \<Rightarrow> append_buf option" where
  "draw_frame ed spans ab = do {
     let text_rows = (if ed_screen_rows ed > 1 then ed_screen_rows ed - 1 else 0);
     ab \<leftarrow> ab_append_str ab (csi (bytes_of ''?25l''));
     ab \<leftarrow> ab_append_str ab (csi (bytes_of ''H''));
     ab \<leftarrow> draw_rows ed spans ab 0 (nat text_rows);
     ab \<leftarrow> ab_append_str ab [13, 10];
     ab \<leftarrow> ab_append_str ab (csi (bytes_of ''7m''));
     ab \<leftarrow> draw_status ed ab;
     ab \<leftarrow> ab_append_str ab (csi (bytes_of ''m''));
     ab \<leftarrow> ab_append_str ab (csi (bytes_of ''K''));
     ab \<leftarrow> render_prompt_modal ed ab text_rows;
     ab \<leftarrow> render_finder_modal ed ab text_rows;
     (cursor_row, cursor_col) \<leftarrow> cursor_position ed text_rows;
     ab \<leftarrow> ab_append_str ab (take 63 (move_cursor_text cursor_row cursor_col));
     ab_append_str ab (csi (bytes_of ''?25h''))
   }"

text \<open>\<open>ed_tty\<close> is what was given to \<open>write_all\<close> for the terminal.\<close>

definition editor_refresh_screen :: "highlighter \<Rightarrow> editor \<Rightarrow> editor option" where
  "editor_refresh_screen hl ed = do {
     ed \<leftarrow> editor_scroll ed;
     ed \<leftarrow> refresh_syntax hl ed;
     spans \<leftarrow> visible_spans hl ed;
     ab \<leftarrow> draw_frame ed spans ab_init;
     Some (ed\<lparr>ed_tty := ed_tty ed @ take (ab_len ab) (ab_data ab)\<rparr>)
   }"

end
