(* ===== verification/Drawing.thy ===== *)
theory Drawing
  imports Screen Invariant
begin

text \<open>
  What a frame shows. Scrolling puts the cursor's row on the screen; a row of the screen shows the
  part of the line that fits the screen's width; and drawing reads and writes in bounds whatever
  column the cursor, the mark and the scroll offset have.
\<close>

section \<open>Scrolling\<close>

lemma scroll_rows_visible:
  assumes "cur_row ed < line_count (ed_buffer ed)" "2 \<le> ed_screen_rows ed"
  shows "ed_row_offset (scroll_rows ed) \<le> cur_row ed \<and>
    cur_row ed < ed_row_offset (scroll_rows ed) + screen_text_rows ed"
  using assms by (auto simp: scroll_rows_def screen_text_rows_def Let_def)

lemma scroll_rows_below:
  assumes "cur_row ed < line_count (ed_buffer ed)"
  shows "ed_row_offset (scroll_rows ed) \<le> cur_row ed"
  using assms by (auto simp: scroll_rows_def Let_def)

text \<open>And no row of the screen is wasted below the end of the text.\<close>

lemma scroll_rows_full:
  assumes "cur_row ed < line_count (ed_buffer ed)"
  shows "ed_row_offset (scroll_rows ed) = 0 \<or>
    ed_row_offset (scroll_rows ed) + screen_text_rows ed \<le> line_count (ed_buffer ed)"
  using assms by (auto simp: scroll_rows_def Let_def)

definition scrolled :: "editor \<Rightarrow> editor \<Rightarrow> bool" where
  "scrolled ed ed' \<longleftrightarrow> ed' = ed\<lparr>ed_row_offset := ed_row_offset ed', ed_col_offset := ed_col_offset ed'\<rparr>"

lemma scroll_rows_sel [simp]: "ed_buffer (scroll_rows ed) = ed_buffer ed" "ed_frame (scroll_rows ed) = ed_frame ed"
  "ed_col_offset (scroll_rows ed) = ed_col_offset ed" "ed_screen_cols (scroll_rows ed) = ed_screen_cols ed"
  "ed_screen_rows (scroll_rows ed) = ed_screen_rows ed" "screen_text_rows (scroll_rows ed) = screen_text_rows ed"
  by (simp_all add: scroll_rows_def Let_def screen_text_rows_def)

lemma scrolled_rows: "scrolled ed (scroll_rows ed)"
  by (simp add: scrolled_def) (simp add: scroll_rows_def Let_def)

lemma line_facts:
  assumes "wf_buffer buf" "row < line_count buf"
  shows "load_line buf row = Some (b_lines buf ! row)" "wf_block (b_lines buf ! row)"
    "cstr (b_lines buf ! row) = ltext buf row" "strlen (b_lines buf ! row) = Some (length (ltext buf row))"
    "line_length buf row = Some (length (ltext buf row))"
    "utf8_byte_to_vis_col (b_lines buf ! row) c = Some (vis_width 0 (take c (ltext buf row)))"
  using assms wf_buffer_line [OF assms]
  by (simp_all add: load_line_eq line_length_eq ltext_def strlen_eq utf8_byte_to_vis_col_eq)

lemma vis_to_byte_line:
  assumes "wf_buffer buf" "row < line_count buf"
  shows "returns (utf8_vis_to_byte_col (b_lines buf ! row) (length (ltext buf row)) v) (fits (ltext buf row) v)"
  using utf8_vis_to_byte_col_fits [OF line_facts(2) [OF assms], of v] by (simp add: line_facts(3) [OF assms])

lemma scroll_cols_ok:
  assumes wf: "wf_buffer (ed_buffer ed)"
  shows "returns (scroll_cols ed) (\<lambda>ed'. \<exists>c. ed' = ed\<lparr>ed_col_offset := c\<rparr> \<and>
    (cur_row ed < line_count (ed_buffer ed) \<longrightarrow> is_bnd (ltext (ed_buffer ed) (cur_row ed)) c))"
proof (cases "cur_row ed < line_count (ed_buffer ed)")
  case True
  let ?buf = "ed_buffer ed" and ?r = "cur_row ed"
  let ?s = "ltext ?buf ?r"
  note f = line_facts [OF wf True]
  define fv where "fv = vis_width 0 (take (cur_col ed) ?s)"
  define ov where "ov = vis_width 0 (take (ed_col_offset ed) ?s)"
  define cols where "cols = size_of_int (ed_screen_cols ed)"
  have v: "\<exists>k. utf8_vis_to_byte_col (b_lines ?buf ! ?r) (length ?s) x = Some k" for x
    using vis_to_byte_line [OF wf True, of x] by (auto elim: returnsE)
  obtain o1 where o1: "(if fv < ov then utf8_vis_to_byte_col (b_lines ?buf ! ?r) (length ?s) fv
      else Some (ed_col_offset ed)) = Some o1" using v by (cases "fv < ov") auto
  obtain o2 where o2: "(if fv \<ge> ov + cols then utf8_vis_to_byte_col (b_lines ?buf ! ?r) (length ?s) (fv - cols + 1)
      else Some o1) = Some o2" using v by (cases "fv \<ge> ov + cols") auto
  have cl: "utf8_clamp_col (b_lines ?buf ! ?r) (length ?s) o2 = Some (clamp_bnd ?s o2)"
    using utf8_clamp_col_eq [OF f(2), of o2] by (simp add: f(3))
  have "scroll_cols ed = Some (ed\<lparr>ed_col_offset := clamp_bnd ?s o2\<rparr>)"
    using True o1 o2 cl unfolding scroll_cols_def Let_def cols_def [symmetric]
    by (simp add: f(1,5,6) flip: fv_def ov_def)
  then show ?thesis using clamp_bnd_is_bnd [of ?s o2] by auto
qed (simp add: scroll_cols_def Let_def exI [of _ "ed_col_offset ed"])

lemma editor_scroll_ok:
  assumes wf: "wf_buffer (ed_buffer ed)" and row: "cur_row ed < line_count (ed_buffer ed)"
  shows "returns (editor_scroll ed) (\<lambda>ed'. scrolled ed ed' \<and> ed_row_offset ed' \<le> cur_row ed \<and>
    (2 \<le> ed_screen_rows ed \<longrightarrow> cur_row ed < ed_row_offset ed' + screen_text_rows ed) \<and>
    (ed_row_offset ed' = 0 \<or> ed_row_offset ed' + screen_text_rows ed \<le> line_count (ed_buffer ed)) \<and>
    is_bnd (ltext (ed_buffer ed) (cur_row ed)) (ed_col_offset ed'))"
proof -
  obtain c where c: "scroll_cols (scroll_rows ed) = Some ((scroll_rows ed)\<lparr>ed_col_offset := c\<rparr>)"
    "is_bnd (ltext (ed_buffer ed) (cur_row ed)) c"
    using scroll_cols_ok [of "scroll_rows ed"] wf row by (auto elim!: returnsE)
  have "scrolled ed ((scroll_rows ed)\<lparr>ed_col_offset := c\<rparr>)"
    by (simp add: scrolled_def) (simp add: scroll_rows_def Let_def)
  then show ?thesis
    using c scroll_rows_below [OF row] scroll_rows_full [OF row] scroll_rows_visible [OF row]
    by (simp add: editor_scroll_def)
qed

text \<open>On a line of plain one-byte characters the cursor's column ends up on the screen as well.\<close>

definition plain_text :: "byte list \<Rightarrow> bool" where
  "plain_text s \<longleftrightarrow> 9 \<notin> set s \<and> (\<forall>ch\<in>set s. \<not> utf8_is_continuation ch)"

lemma vis_width_plain: "9 \<notin> set s \<Longrightarrow> vis_width v s = v + length s"
  by (induction s arbitrary: v) (simp_all add: vis_step_def)

lemma fits_plain: "9 \<notin> set s \<Longrightarrow> fits s v k \<Longrightarrow> k = min v (length s)"
proof -
  assume s: "9 \<notin> set s" and f: "fits s v k"
  have "vis_width 0 (take n s) = min n (length s)" for n
    using vis_width_plain [of "take n s" 0] s set_take_sub [OF s] by (simp add: min.commute)
  with f show ?thesis by (auto simp: fits_def)
qed

lemma clamp_plain: "plain_text s \<Longrightarrow> clamp_bnd s c = min c (length s)"
  by (auto simp: clamp_bnd_def is_bnd_def plain_text_def)

lemma scroll_cols_plain:
  assumes wf: "wf_buffer (ed_buffer ed)" and row: "cur_row ed < line_count (ed_buffer ed)"
    and plain: "plain_text (ltext (ed_buffer ed) (cur_row ed))"
    and col: "cur_col ed \<le> length (ltext (ed_buffer ed) (cur_row ed))"
    and cols: "0 < ed_screen_cols ed" "ed_screen_cols ed < 2 ^ 31"
  shows "returns (scroll_cols ed) (\<lambda>ed'. ed_col_offset ed' \<le> cur_col ed \<and>
    int (cur_col ed) < int (ed_col_offset ed') + ed_screen_cols ed)"
proof -
  let ?buf = "ed_buffer ed" and ?r = "cur_row ed"
  let ?s = "ltext ?buf ?r"
  note f = line_facts [OF wf row]
  have tab: "9 \<notin> set ?s" using plain by (simp add: plain_text_def)
  have w: "vis_width 0 (take n ?s) = min n (length ?s)" for n
    using vis_width_plain [of "take n ?s" 0] set_take_sub [OF tab] by (simp add: min.commute)
  have v: "utf8_vis_to_byte_col (b_lines ?buf ! ?r) (length ?s) x = Some (min x (length ?s))" for x
    using vis_to_byte_line [OF wf row, of x] fits_plain [OF tab] by (auto elim!: returnsE)
  have cl: "utf8_clamp_col (b_lines ?buf ! ?r) (length ?s) x = Some (min x (length ?s))" for x
    using utf8_clamp_col_eq [OF f(2), of x] clamp_plain [OF plain] by (simp add: f(3))
  have c: "size_of_int (ed_screen_cols ed) = nat (ed_screen_cols ed)"
    using cols by (simp add: size_of_int_def)
  show ?thesis
    using row cols col unfolding scroll_cols_def Let_def c
    by (auto simp: f(1,5,6) w v cl)
qed


section \<open>A row of the screen\<close>

text \<open>The bytes of a line shown on a screen row: those from \<open>col_offset\<close> on that fit the width.\<close>

definition shown_part :: "byte list \<Rightarrow> nat \<Rightarrow> nat \<Rightarrow> byte list \<Rightarrow> bool" where
  "shown_part s off cols part \<longleftrightarrow>
     (if off < length s
      then \<exists>e. fits s (vis_width 0 (take off s) + cols) e \<and> off \<le> e \<and> part = slice off e s
      else part = [])"

lemma fits_beyond:
  assumes "fits s v e" "vis_width 0 (take off s) \<le> v" "off \<le> length s"
  shows "off \<le> e"
proof (rule ccontr)
  assume "\<not> off \<le> e"
  then have "Suc e \<le> off" by simp
  then have "vis_width 0 (take (Suc e) s) \<le> vis_width 0 (take off s)" by (rule vis_width_take_mono)
  with assms \<open>Suc e \<le> off\<close> show False by (simp add: fits_def)
qed

text \<open>It is never wider than the screen.\<close>

lemma shown_width:
  assumes "shown_part s off cols part"
  shows "length (expand (vis_width 0 (take off s)) part) \<le> cols"
proof (cases "off < length s")
  case True
  with assms obtain e where e: "fits s (vis_width 0 (take off s) + cols) e" "off \<le> e" "part = slice off e s"
    by (auto simp: shown_part_def)
  have "vis_width (vis_width 0 (take off s)) part = vis_width 0 (take e s)"
    using vis_width_take_add [OF e(2), of 0 s] by (simp add: e(3) slice_def)
  also have "\<dots> \<le> vis_width 0 (take off s) + cols" using e(1) by (simp add: fits_def)
  finally show ?thesis
    using length_expand [of "vis_width 0 (take off s)" part] by linarith
qed (use assms in \<open>simp add: shown_part_def\<close>)

text \<open>
  What a row emits. Behind the end of the text it is a tilde. A row without a selection is coloured
  by the spans, if there are any. In a row of the selection the selected part is drawn in reverse
  video, and the columns its tabs are expanded from are those the source computes; a row whose
  selection lies outside the part shown is drawn plainly, without colours.
\<close>

inductive row_shown :: "editor \<Rightarrow> highlight_span list \<Rightarrow> nat \<Rightarrow> byte list \<Rightarrow> bool" for ed spans where
  tilde: "line_count (ed_buffer ed) \<le> row \<Longrightarrow> row_shown ed spans row [126]"
| blank: "row < line_count (ed_buffer ed) \<Longrightarrow> s = ltext (ed_buffer ed) row \<Longrightarrow>
    shown_part s (ed_col_offset ed) (size_of_int (ed_screen_cols ed)) [] \<Longrightarrow> row_shown ed spans row []"
| plain: "row < line_count (ed_buffer ed) \<Longrightarrow> s = ltext (ed_buffer ed) row \<Longrightarrow>
    selection_range_for_row ed row = None \<Longrightarrow> spans = [] \<Longrightarrow>
    shown_part s (ed_col_offset ed) (size_of_int (ed_screen_cols ed)) part \<Longrightarrow> part \<noteq> [] \<Longrightarrow>
    row_shown ed spans row (expand (vis_width 0 (take (ed_col_offset ed) s)) part)"
| unselected: "row < line_count (ed_buffer ed) \<Longrightarrow> s = ltext (ed_buffer ed) row \<Longrightarrow>
    selection_range_for_row ed row = Some (from_col, to_col) \<Longrightarrow>
    shown_part s (ed_col_offset ed) (size_of_int (ed_screen_cols ed)) part \<Longrightarrow> part \<noteq> [] \<Longrightarrow>
    to_col \<le> ed_col_offset ed \<or> ed_col_offset ed + length part \<le> from_col \<Longrightarrow>
    row_shown ed spans row (expand (vis_width 0 (take (ed_col_offset ed) s)) part)"
| coloured: "row < line_count (ed_buffer ed) \<Longrightarrow> s = ltext (ed_buffer ed) row \<Longrightarrow>
    selection_range_for_row ed row = None \<Longrightarrow> spans \<noteq> [] \<Longrightarrow> off = ed_col_offset ed \<Longrightarrow>
    shown_part s off (size_of_int (ed_screen_cols ed)) part \<Longrightarrow> part \<noteq> [] \<Longrightarrow>
    drawn (vis_width 0 (take off s)) (map (span_color row spans) [off..<off + length part]) part out \<Longrightarrow>
    row_shown ed spans row (out @ csi (bytes_of ''m''))"
| selected: "row < line_count (ed_buffer ed) \<Longrightarrow> s = ltext (ed_buffer ed) row \<Longrightarrow>
    selection_range_for_row ed row = Some (from_col, to_col) \<Longrightarrow> off = ed_col_offset ed \<Longrightarrow>
    shown_part s off (size_of_int (ed_screen_cols ed)) (a @ b @ c) \<Longrightarrow> b \<noteq> [] \<Longrightarrow>
    off + length a = max off (min from_col (length s)) \<Longrightarrow>
    off + length a + length b = min to_col (off + length (a @ b @ c)) \<Longrightarrow>
    v = vis_width 0 (take off s) \<Longrightarrow>
    row_shown ed spans row (expand v a @ csi (bytes_of ''7m'') @ expand (v + vis_width 0 a) b @
      csi (bytes_of ''m'') @ expand (v + vis_width 0 (a @ b)) c)"

lemma take_drop_line:
  assumes "wf_block line" "off + n \<le> length (cstr line)"
  shows "take n (drop off line) = take n (drop off (cstr line))"
  using take_drop_cstr [OF assms(1), of "off + n" off] assms(2) by simp

lemma emits_part:
  assumes "wf_block line" "off + n \<le> length (cstr line)"
  shows "ab_sink.emits (\<lambda>ab. ab_append_expanding_tabs ab line off n col)
    (expand col (take n (drop off (cstr line))))"
  using emits_expanding_tabs [of off n line col] assms length_cstr_less [OF assms(1)]
  by (simp add: take_drop_line)

lemma emits_part_opt:
  assumes "wf_block line" "off + n \<le> length (cstr line)"
  shows "ab_sink.emits (\<lambda>ab. if n > 0 then ab_append_expanding_tabs ab line off n col else Some ab)
    (expand col (take n (drop off (cstr line))))"
  using emits_part [OF assms, of col] ab_sink.emits_nothing by (cases "n > 0") auto

lemma emits_selected:
  assumes wf: "wf_block line" and s: "s = cstr line" and e: "off < e" "e \<le> length s" and n: "vis_len = e - off"
    and range: "from_col < to_col \<or> length s \<le> from_col"
  shows "\<exists>out. ab_sink.emits (\<lambda>ab. draw_selected ab line (length s) off e vis_len v from_col to_col) out \<and>
    ((to_col \<le> off \<or> e \<le> from_col) \<and> out = expand v (slice off e s) \<or>
     (\<exists>a b c. slice off e s = a @ b @ c \<and> b \<noteq> [] \<and> off + length a = max off (min from_col (length s)) \<and>
        off + length a + length b = min to_col e \<and>
        out = expand v a @ csi (bytes_of ''7m'') @ expand (v + vis_width 0 a) b @ csi (bytes_of ''m'') @
          expand (v + vis_width 0 (a @ b)) c))"
proof -
  define t1 where "t1 = (if to_col > length s then length s else to_col)"
  define f1 where "f1 = (if from_col > length s then length s else from_col)"
  define t2 where "t2 = (if t1 < f1 then f1 else t1)"
  show ?thesis
  proof (cases "t2 \<le> off \<or> e \<le> f1")
    case True
    have "ab_sink.emits (\<lambda>ab. ab_append_expanding_tabs ab line off vis_len v) (expand v (slice off e s))"
      using emits_part [OF wf, of off vis_len v] e n s by (simp add: slice_def)
    moreover have "to_col \<le> off \<or> e \<le> from_col"
      using True e by (auto simp: t2_def t1_def f1_def split: if_splits)
    ultimately show ?thesis
      using True unfolding draw_selected_def Let_def t1_def [symmetric] f1_def [symmetric] t2_def [symmetric] by auto
  next
    case False
    define ds where "ds = (if f1 > off then f1 else off)"
    define de where "de = (if t2 < e then t2 else e)"
    have le: "off \<le> ds" "ds \<le> de" "de \<le> e" using False e by (auto simp: ds_def de_def t2_def)
    define bl sl al where "bl = ds - off" and "sl = de - ds" and "al = e - de"
    define a b c where "a = take bl (drop off s)" and "b = take sl (drop (off + bl) s)"
      and "c = take al (drop (off + bl + sl) s)"
    have sub: "usub ds off = bl" "usub de ds = sl" "usub e de = al" using le by (simp_all add: usub_def bl_def sl_def al_def)
    have len: "length a = bl" "length b = sl" "length c = al" "off + bl + sl + al = e"
      using le e by (simp_all add: a_def b_def c_def bl_def sl_def al_def)
    have cut: "slice off e s = a @ b @ c"
    proof -
      have "e - off = bl + (sl + al)" using len(4) by simp
      then show ?thesis unfolding slice_def a_def b_def c_def by (simp only: take_add drop_drop) (simp add: add.commute add.left_commute)
    qed
    have vis: "utf8_byte_to_vis_col (drop off line) k = Some (vis_width 0 (take k (drop off s)))" for k
      using drop_wf_block [OF wf, of off] e s by (simp add: utf8_byte_to_vis_col_eq)
    have va: "take bl (drop off s) = a" by (simp add: a_def)
    have vab: "take (bl + sl) (drop off s) = a @ b" by (simp add: a_def b_def take_add add.commute)
    have pa: "ab_sink.emits (\<lambda>ab. if bl > 0 then ab_append_expanding_tabs ab line off bl v else Some ab) (expand v a)"
      using emits_part_opt [OF wf, of off bl v] len e s by (simp add: a_def)
    have pb: "ab_sink.emits (\<lambda>ab. ab_append_expanding_tabs ab line (off + bl) sl w) (expand w b)" for w
      using emits_part [OF wf, of "off + bl" sl w] len e s by (simp add: b_def)
    have pc: "ab_sink.emits (\<lambda>ab. if al > 0 then ab_append_expanding_tabs ab line (off + bl + sl) al w else Some ab) (expand w c)" for w
      using emits_part_opt [OF wf, of "off + bl + sl" al w] len e s by (simp add: c_def)
    have d: "draw_selected ab line (length s) off e vis_len v from_col to_col = do {
           ab \<leftarrow> (if bl > 0 then ab_append_expanding_tabs ab line off bl v else Some ab);
           ab \<leftarrow> (if sl > 0 then do {
                   ab \<leftarrow> ab_append_str ab (csi (bytes_of ''7m''));
                   ab \<leftarrow> ab_append_expanding_tabs ab line (off + bl) sl (v + vis_width 0 a);
                   ab_append_str ab (csi (bytes_of ''m''))
                 } else Some ab);
           if al > 0 then ab_append_expanding_tabs ab line (off + bl + sl) al (v + vis_width 0 (a @ b)) else Some ab
         }" for ab
      using False unfolding draw_selected_def Let_def t1_def [symmetric] f1_def [symmetric] t2_def [symmetric]
        ds_def [symmetric] de_def [symmetric] sub vis va vab by simp
    have sl: "0 < sl"
      using False range e s le by (auto simp: sl_def ds_def de_def t2_def t1_def f1_def split: if_splits)
    have "ab_sink.emits (\<lambda>ab. draw_selected ab line (length s) off e vis_len v from_col to_col)
        (expand v a @ csi (bytes_of ''7m'') @ expand (v + vis_width 0 a) b @ csi (bytes_of ''m'') @
         expand (v + vis_width 0 (a @ b)) c)"
      unfolding d using sl
      by (simp del: vis_width_append) (intro ab_sink.emits_seq pa pb pc emits_str)
    moreover have "b \<noteq> []" using len(2) sl by auto
    moreover have "off + length a = max off (min from_col (length s))" "off + length a + length b = min to_col e"
      using False range e len le by (auto simp: bl_def sl_def ds_def de_def t2_def t1_def f1_def split: if_splits)
    ultimately show ?thesis using cut by (intro exI conjI disjI2) (assumption | simp)+
  qed
qed

lemma selection_ordered:
  "selection_range_for_row ed row = Some (f, t) \<Longrightarrow> f < t \<or> (SIZE_MAX \<le> f)"
  by (auto simp: selection_range_for_row_def pos_compare_def Let_def not_le split: if_splits)

lemma selection_marked: "selection_range_for_row ed row \<noteq> None \<Longrightarrow> ed_mark_active ed"
  by (cases "ed_mark_active ed") (simp_all add: selection_range_for_row_def)

lemma emits_draw_line:
  assumes wf: "wf_buffer (ed_buffer ed)" and row: "row < line_count (ed_buffer ed)"
    and mem: "ed_mark_active ed \<Longrightarrow> length (ltext (ed_buffer ed) row) \<le> SIZE_MAX"
  shows "\<exists>out. row_shown ed spans row out \<and> ab_sink.emits (\<lambda>ab. draw_line ed spans ab row) out"
proof -
  define line where "line = b_lines (ed_buffer ed) ! row"
  define s where "s = ltext (ed_buffer ed) row"
  define off where "off = ed_col_offset ed"
  define cols where "cols = size_of_int (ed_screen_cols ed)"
  define v where "v = vis_width 0 (take off s)"
  note f = line_facts [OF wf row, folded line_def s_def]
  obtain e where e: "utf8_vis_to_byte_col line (length s) (v + cols) = Some e" "fits s (v + cols) e"
    using vis_to_byte_line [OF wf row, of "v + cols"] unfolding line_def s_def by (elim returnsE) simp
  define n where "n = (if off < length s then usub e off else 0)"
  have el: "e \<le> length s" using e(2) by (simp add: fits_def)
  have oe: "off < length s \<Longrightarrow> off \<le> e" using fits_beyond [OF e(2)] by (simp add: v_def)
  then have n: "n = (if off < length s then e - off else 0)" by (auto simp: n_def usub_def)
  have part: "shown_part s off cols (slice off e s)"
    using e(2) oe el by (cases "off < length s") (auto simp: shown_part_def v_def slice_def)
  have nc: "\<not> cols < n"
    using shown_width [OF part] vis_width_ge [of v "slice off e s"] length_expand [of v "slice off e s"] el
    by (auto simp: n slice_def simp flip: v_def)
  have eq: "draw_line ed spans ab row =
      (if n > 0 then
       (case selection_range_for_row ed row of
          None \<Rightarrow> (if spans \<noteq> [] then render_line_with_spans ab line (length s) row off n spans
             else ab_append_expanding_tabs ab line off n v)
        | Some (f, t) \<Rightarrow> draw_selected ab line (length s) off e n v f t)
      else Some ab)" for ab
    using nc by (simp only: draw_line_def f(1,4,6) bind.bind_lunit Let_def off_def [symmetric] cols_def [symmetric]
        v_def [symmetric] e(1) n_def [symmetric] if_False)
  show ?thesis
  proof (cases "n > 0")
    case False
    then have "slice off e s = []" using oe el by (auto simp: n slice_def split: if_splits)
    then have "row_shown ed spans row []"
      using part row by (intro row_shown.blank [of row ed s]) (simp_all add: s_def off_def cols_def)
    then show ?thesis using False ab_sink.emits_nothing by (auto simp: eq)
  next
    case True
    then have o: "off < e" "off < length s" "n = e - off" by (auto simp: n split: if_splits)
    have sl: "slice off e s = take n (drop off s)" "length (slice off e s) = n" using o el by (simp_all add: slice_def)
    then have ne: "slice off e s \<noteq> []" using True by auto
    show ?thesis
    proof (cases "selection_range_for_row ed row")
      case None
      show ?thesis
      proof (cases "spans = []")
        case sp: True
        have "ab_sink.emits (\<lambda>ab. ab_append_expanding_tabs ab line off n v) (expand v (slice off e s))"
          using emits_part [OF f(2), of off n v] o el f(3) by (simp add: sl)
        moreover have "row_shown ed spans row (expand v (slice off e s))"
          using row_shown.plain [OF row s_def None sp, of "slice off e s"] part ne by (simp add: v_def off_def cols_def)
        ultimately show ?thesis unfolding eq using True None sp by auto
      next
        case sp: False
        obtain out where out: "drawn v (map (span_color row spans) [off..<off + n]) (slice off e s) out"
          "ab_sink.emits (\<lambda>ab. render_line_with_spans ab line (length s) row off n spans) (out @ csi (bytes_of ''m''))"
          using render_line_ok [OF f(2), of off n row spans] o el f(3) by (auto simp: sl v_def)
        have "row_shown ed spans row (out @ csi (bytes_of ''m''))"
          using row_shown.coloured [OF row s_def None sp off_def, of "slice off e s" out] part ne out(1) sl(2)
          by (simp add: v_def cols_def)
        then show ?thesis unfolding eq using True None sp out(2) by auto
      qed
    next
      case (Some r)
      obtain f' t' where r: "r = (f', t')" by fastforce
      have rg: "f' < t' \<or> length s \<le> f'"
        using selection_ordered [of ed row f' t'] selection_marked [of ed row] Some r mem by (auto simp: s_def)
      obtain out where out: "ab_sink.emits (\<lambda>ab. draw_selected ab line (length s) off e n v f' t') out"
        "(t' \<le> off \<or> e \<le> f') \<and> out = expand v (slice off e s) \<or>
         (\<exists>a b c. slice off e s = a @ b @ c \<and> b \<noteq> [] \<and> off + length a = max off (min f' (length s)) \<and>
            off + length a + length b = min t' e \<and>
            out = expand v a @ csi (bytes_of ''7m'') @ expand (v + vis_width 0 a) b @ csi (bytes_of ''m'') @
              expand (v + vis_width 0 (a @ b)) c)"
        using emits_selected [OF f(2) f(3) [symmetric] o(1) el o(3) rg] by blast
      have "row_shown ed spans row out"
        using out(2)
      proof (elim disjE exE conjE)
        assume a: "t' \<le> off" "out = expand v (slice off e s)"
        then show ?thesis
          using row_shown.unselected [OF row s_def Some [unfolded r], of "slice off e s" spans] part ne
          by (simp add: v_def off_def cols_def)
      next
        assume a: "e \<le> f'" "out = expand v (slice off e s)"
        moreover have "off + length (slice off e s) = e" using sl(2) o by simp
        ultimately show ?thesis
          using row_shown.unselected [OF row s_def Some [unfolded r], of "slice off e s" spans] part ne
          by (simp add: v_def off_def cols_def)
      next
        fix a b c
        assume p: "slice off e s = a @ b @ c" "b \<noteq> []" "off + length a = max off (min f' (length s))"
            "off + length a + length b = min t' e" and out: "out = expand v a @ csi (bytes_of ''7m'') @
              expand (v + vis_width 0 a) b @ csi (bytes_of ''m'') @ expand (v + vis_width 0 (a @ b)) c"
        have len: "off + length (a @ b @ c) = e" using p(1) sl(2) o by (metis le_add_diff_inverse less_imp_le)
        show ?thesis
          unfolding out
          using row_shown.selected [OF row s_def Some [unfolded r] off_def _ p(2,3) _ v_def, of c spans] part p(1,4) len
          by (simp add: cols_def)
      qed
      then show ?thesis using True Some r out(1) by (auto simp: eq)
    qed
  qed
qed

section \<open>All rows\<close>

definition rows_text :: "nat \<Rightarrow> nat \<Rightarrow> byte list list \<Rightarrow> byte list" where
  "rows_text text_rows y outs =
     concat (map (\<lambda>i. outs ! i @ csi (bytes_of ''K'') @ (if y + i + 1 < text_rows then [13, 10] else []))
       [0..<length outs])"

lemma rows_text_Cons:
  "rows_text text_rows y (out # outs) =
     out @ csi (bytes_of ''K'') @ (if y + 1 < text_rows then [13, 10] else []) @ rows_text text_rows (Suc y) outs"
  unfolding rows_text_def length_Cons map_upt_Suc by simp

lemma emits_draw_rows:
  assumes wf: "wf_buffer (ed_buffer ed)" and mem: "ed_mark_active ed \<longrightarrow> (\<forall>l\<in>set (texts (ed_buffer ed)). length l \<le> SIZE_MAX)"
  shows "\<exists>outs. length outs = n \<and> (\<forall>i<n. row_shown ed spans (ed_row_offset ed + y + i) (outs ! i)) \<and>
    ab_sink.emits (\<lambda>ab. draw_rows ed spans ab y n) (rows_text (screen_text_rows ed) y outs)"
proof (induction n arbitrary: y)
  case 0
  then show ?case using ab_sink.emits_nothing by (auto simp: rows_text_def)
next
  case (Suc n)
  let ?row = "ed_row_offset ed + y"
  have "\<exists>out. row_shown ed spans ?row out \<and> ab_sink.emits (\<lambda>ab. if ?row \<ge> line_count (ed_buffer ed)
      then ab_append_char ab 126 else draw_line ed spans ab ?row) out"
  proof (cases "?row < line_count (ed_buffer ed)")
    case True
    then have "ltext (ed_buffer ed) ?row \<in> set (texts (ed_buffer ed))"
      using nth_mem [of ?row "texts (ed_buffer ed)"] by simp
    with mem True emits_draw_line [OF wf True, of spans] show ?thesis by auto
  next
    case False
    then show ?thesis using emits_char [of 126] row_shown.tilde [of ed ?row spans] by auto
  qed
  then obtain out where out: "row_shown ed spans ?row out" "ab_sink.emits (\<lambda>ab. if ?row \<ge> line_count (ed_buffer ed)
      then ab_append_char ab 126 else draw_line ed spans ab ?row) out" by blast
  obtain outs where outs: "length outs = n" "\<forall>i<n. row_shown ed spans (ed_row_offset ed + Suc y + i) (outs ! i)"
    "ab_sink.emits (\<lambda>ab. draw_rows ed spans ab (y + 1) n) (rows_text (screen_text_rows ed) (Suc y) outs)"
    using Suc.IH [of "Suc y"] by auto
  have nl: "ab_sink.emits (\<lambda>ab. if y + 1 < screen_text_rows ed then ab_append_str ab [13, 10] else Some ab)
      (if y + 1 < screen_text_rows ed then [13, 10] else [])"
    by (rule emits_opt_str)
  have "ab_sink.emits (\<lambda>ab. draw_rows ed spans ab y (Suc n)) (rows_text (screen_text_rows ed) y (out # outs))"
    unfolding rows_text_Cons draw_rows.simps Let_def
    by (intro ab_sink.emits_seq out(2) emits_str nl outs(3))
  moreover have "\<forall>i<Suc n. row_shown ed spans (ed_row_offset ed + y + i) ((out # outs) ! i)"
    using out(1) outs(2) by (auto simp: less_Suc_eq_0_disj)
  ultimately show ?case using outs(1) by (intro exI [of _ "out # outs"]) simp
qed

section \<open>Status line and cursor\<close>

text \<open>The status line is as wide as the screen, whatever the names and messages in it.\<close>

definition status_text :: "editor \<Rightarrow> byte list" where
  "status_text ed =
     (let cols = size_of_int (ed_screen_cols ed); right = take cols (status_right ed)
      in padded (status_left ed) (cols - length right) @ right)"

lemma length_status: "length (status_text ed) = size_of_int (ed_screen_cols ed)"
  by (simp add: status_text_def Let_def length_padded)

lemma emits_put_opt:
  "n \<le> length s \<Longrightarrow> ab_sink.emits (\<lambda>ab. if n > 0 then ab_append ab s n else Some ab) (take n s)"
  using ab_sink.emits_put [of n s] ab_sink.emits_nothing by (cases "n > 0") auto

lemma emits_status: "ab_sink.emits (\<lambda>ab. draw_status ed ab) (status_text ed)"
proof -
  define left where "left = status_left ed"
  define right where "right = status_right ed"
  define cols where "cols = size_of_int (ed_screen_cols ed)"
  define rl where "rl = (if length right > cols then cols else length right)"
  define ll where "ll = (if length left > cols - rl then cols - rl else length left)"
  have l: "rl \<le> length right" "ll \<le> length left" "take rl right = take cols right" "rl = length (take cols right)"
    "take ll left @ replicate (cols - rl - ll) 32 = padded left (cols - rl)"
    by (auto simp: rl_def ll_def padded_def)
  have r: "ab_sink.emits (\<lambda>ab. ab_append_repeat ab [32] (cols - rl - ll)) (replicate (cols - rl - ll) 32)"
    using emits_repeat [of "[32]"] by (simp add: concat_replicate_single)
  have "ab_sink.emits (\<lambda>ab. draw_status ed ab) (take ll left @ replicate (cols - rl - ll) 32 @ take rl right)"
    unfolding draw_status_def Let_def left_def [symmetric] right_def [symmetric] cols_def [symmetric]
      rl_def [symmetric] ll_def [symmetric]
    by (intro ab_sink.emits_seq emits_put_opt r l(1,2))
  moreover have "status_text ed = (take ll left @ replicate (cols - rl - ll) 32) @ take cols right"
    unfolding l(5) status_text_def Let_def using l(4) by (simp flip: left_def right_def cols_def)
  ultimately show ?thesis using l(3) by simp
qed

lemma cursor_position_returns:
  assumes "wf_buffer (ed_buffer ed)"
  shows "\<exists>p. cursor_position ed text_rows = Some p"
  using line_facts [OF assms, of "cur_row ed"]
  by (auto simp: cursor_position_def Let_def split: prod.splits)

lemma int_of_size: "n < 2 ^ 31 \<Longrightarrow> int_of_size n = int n"
  by (simp add: int_of_size_def signed_of_nat signed_take_bit_int_eq_self)

text \<open>Without a window the cursor is where the text's cursor is shown.\<close>

lemma cursor_position_text:
  assumes wf: "wf_buffer (ed_buffer ed)" and row: "cur_row ed < line_count (ed_buffer ed)"
    and no: "\<not> fd_active (ed_finder ed)" "\<not> ed_prompt_active ed"
    and vis: "ed_row_offset ed \<le> cur_row ed" "cur_row ed < ed_row_offset ed + screen_text_rows ed"
    and size: "ed_screen_rows ed < 2 ^ 31"
  shows "\<exists>col. cursor_position ed text_rows = Some (int (cur_row ed - ed_row_offset ed) + 1, col) \<and>
    int (cur_row ed - ed_row_offset ed) + 1 \<le> ed_screen_rows ed - 1"
proof -
  have r: "int (cur_row ed - ed_row_offset ed) + 1 \<le> ed_screen_rows ed - 1"
    using vis by (auto simp: screen_text_rows_def split: if_splits)
  with size have "int (cur_row ed - ed_row_offset ed) < int (2 ^ 31)" by simp
  then have "cur_row ed - ed_row_offset ed < 2 ^ 31" by (simp only: of_nat_less_iff)
  then have "int_of_size (usub (cur_row ed) (ed_row_offset ed)) = int (cur_row ed - ed_row_offset ed)"
    using vis(1) by (simp add: usub_def int_of_size)
  with r no row line_facts [OF wf row] show ?thesis by (simp add: cursor_position_def)
qed

section \<open>The frame\<close>

definition frame_head :: "byte list" where
  "frame_head = csi (bytes_of ''?25l'') @ csi (bytes_of ''H'')"

text \<open>
  What one call of \<open>editor_refresh_screen\<close> writes: the rows of the text, the status line, the
  windows, and the cursor.
\<close>

definition frame_text :: "editor \<Rightarrow> byte list list \<Rightarrow> int \<times> int \<Rightarrow> byte list" where
  "frame_text ed outs cursor =
     (let text_rows = int (screen_text_rows ed)
      in csi (bytes_of ''?25l'') @ csi (bytes_of ''H'') @ rows_text (screen_text_rows ed) 0 outs @ [13, 10] @
         csi (bytes_of ''7m'') @ status_text ed @ csi (bytes_of ''m'') @ csi (bytes_of ''K'') @
         prompt_modal_text ed text_rows @ finder_modal_text ed text_rows @
         take 63 (move_cursor_text (fst cursor) (snd cursor)) @ csi (bytes_of ''?25h''))"

lemma text_rows_int: "(if ed_screen_rows ed > 1 then ed_screen_rows ed - 1 else 0) = int (screen_text_rows ed)"
  by (simp add: screen_text_rows_def)

lemma emits_frame:
  assumes wf: "wf_editor ed" and mem: "ed_mark_active ed \<longrightarrow> (\<forall>l\<in>set (texts (ed_buffer ed)). length l \<le> SIZE_MAX)"
  shows "\<exists>outs p. length outs = screen_text_rows ed \<and>
    (\<forall>i < screen_text_rows ed. row_shown ed spans (ed_row_offset ed + i) (outs ! i)) \<and>
    cursor_position ed (int (screen_text_rows ed)) = Some p \<and>
    ab_sink.emits (draw_frame ed spans) (frame_text ed outs p)"
proof -
  note d = wf_editorD [OF wf]
  obtain outs where outs: "length outs = screen_text_rows ed"
    "\<forall>i < screen_text_rows ed. row_shown ed spans (ed_row_offset ed + 0 + i) (outs ! i)"
    "ab_sink.emits (\<lambda>ab. draw_rows ed spans ab 0 (screen_text_rows ed)) (rows_text (screen_text_rows ed) 0 outs)"
    using emits_draw_rows [OF d(1) mem, of "screen_text_rows ed" spans 0] by auto
  obtain r c where p: "cursor_position ed (int (screen_text_rows ed)) = Some (r, c)"
    using cursor_position_returns [OF d(1), of "int (screen_text_rows ed)"] by auto
  have "ab_sink.emits (\<lambda>ab. draw_frame ed spans ab) (frame_text ed outs (r, c))"
    unfolding draw_frame_def frame_text_def Let_def text_rows_int nat_int p bind.bind_lunit prod.case fst_conv snd_conv
    by (intro ab_sink.emits_seq emits_str outs(3) emits_status emits_prompt_modal [OF d(7)] emits_finder_modal [OF d(5)])
  with outs p show ?thesis by auto
qed

definition redrawn :: "editor \<Rightarrow> editor \<Rightarrow> bool" where
  "redrawn ed ed' \<longleftrightarrow> ed' = ed\<lparr>ed_row_offset := ed_row_offset ed', ed_col_offset := ed_col_offset ed',
     ed_buffer := (ed_buffer ed)\<lparr>b_ts_tree := b_ts_tree (ed_buffer ed'), b_syntax_dirty := b_syntax_dirty (ed_buffer ed')\<rparr>,
     ed_tty := ed_tty ed'\<rparr>"

lemma buffer_tree_sel [simp]: "wf_buffer (buf\<lparr>b_ts_tree := t\<rparr>) = wf_buffer buf"
  "texts (buf\<lparr>b_ts_tree := t\<rparr>) = texts buf" "ltext (buf\<lparr>b_ts_tree := t\<rparr>) row = ltext buf row"
  by (simp_all add: wf_buffer_def texts_def ltext_def)

lemma scroll_syntax_sel:
  "scroll_cols ed = Some ed' \<Longrightarrow> ed' = ed\<lparr>ed_col_offset := ed_col_offset ed'\<rparr>"
  "scroll_rows ed = ed\<lparr>ed_row_offset := ed_row_offset (scroll_rows ed)\<rparr>"
  "refresh_syntax hl ed = Some ed' \<Longrightarrow> ed' = ed\<lparr>ed_buffer := (ed_buffer ed)\<lparr>
     b_ts_tree := b_ts_tree (ed_buffer ed'), b_syntax_dirty := b_syntax_dirty (ed_buffer ed')\<rparr>\<rparr>"
  by (auto simp: scroll_cols_def scroll_rows_def refresh_syntax_def Let_def bind_eq_Some_conv split: if_splits)

lemma refresh_redraws:
  assumes "editor_refresh_screen hl ed = Some ed'"
  shows "redrawn ed ed'"
proof -
  obtain e1 e2 out where e: "scroll_cols (scroll_rows ed) = Some e1" "refresh_syntax hl e1 = Some e2"
    "ed' = e2\<lparr>ed_tty := out\<rparr>"
    using assms by (auto simp: editor_refresh_screen_def editor_scroll_def bind_eq_Some_conv)
  obtain r where r: "scroll_rows ed = ed\<lparr>ed_row_offset := r\<rparr>" using scroll_syntax_sel(2) by blast
  obtain c where c: "e1 = ed\<lparr>ed_row_offset := r, ed_col_offset := c\<rparr>"
    using scroll_syntax_sel(1) [OF e(1)] by (simp add: r)
  obtain t d where "e2 = e1\<lparr>ed_buffer := (ed_buffer e1)\<lparr>b_ts_tree := t, b_syntax_dirty := d\<rparr>\<rparr>"
    using scroll_syntax_sel(3) [OF e(2)] by blast
  with c e(3) show ?thesis by (simp add: redrawn_def)
qed

lemma wf_redrawn: "wf_editor ed \<Longrightarrow> wf_editor (ed\<lparr>ed_row_offset := r, ed_col_offset := c,
     ed_buffer := (ed_buffer ed)\<lparr>b_ts_tree := t, b_syntax_dirty := d\<rparr>, ed_tty := o'\<rparr>)"
  by (simp add: state_defs)

lemma calm_redrawn: "calm (ed\<lparr>ed_row_offset := r, ed_col_offset := c,
     ed_buffer := (ed_buffer ed)\<lparr>b_ts_tree := t, b_syntax_dirty := d\<rparr>, ed_tty := o'\<rparr>) = calm ed"
  "good_mark (ed\<lparr>ed_row_offset := r, ed_col_offset := c,
     ed_buffer := (ed_buffer ed)\<lparr>b_ts_tree := t, b_syntax_dirty := d\<rparr>, ed_tty := o'\<rparr>) = good_mark ed"
  by (simp_all add: calm_def good_cursor_in_text good_mark_def)

text \<open>The parse tree is that of the text shown, unless the parser gave up on it.\<close>

definition fresh_tree :: "highlighter \<Rightarrow> buffer \<Rightarrow> bool" where
  "fresh_tree hl buf \<longleftrightarrow> b_syntax_enabled buf \<and> b_ts_parser buf \<and> b_ts_query buf \<longrightarrow>
     \<not> b_syntax_dirty buf \<and> b_ts_tree buf \<noteq> None \<longrightarrow>
     hl_parses hl (flat (texts buf)) \<longrightarrow> b_ts_tree buf = Some (flat (texts buf))"

lemma refresh_syntax_ok:
  assumes wf: "wf_buffer (ed_buffer ed)"
  shows "returns (refresh_syntax hl ed) (\<lambda>ed'. ed' = ed\<lparr>ed_buffer := (ed_buffer ed)\<lparr>b_ts_tree := b_ts_tree (ed_buffer ed'),
      b_syntax_dirty := b_syntax_dirty (ed_buffer ed')\<rparr>\<rparr> \<and>
    (fresh_tree hl (ed_buffer ed) \<longrightarrow> b_syntax_enabled (ed_buffer ed) \<longrightarrow> b_ts_parser (ed_buffer ed) \<longrightarrow>
       b_ts_query (ed_buffer ed) \<longrightarrow> hl_parses hl (flat (texts (ed_buffer ed))) \<longrightarrow>
       b_ts_tree (ed_buffer ed') = Some (flat (texts (ed_buffer ed))) \<and> \<not> b_syntax_dirty (ed_buffer ed')))"
proof (cases "b_syntax_enabled (ed_buffer ed) \<and> b_ts_parser (ed_buffer ed) \<and> b_ts_query (ed_buffer ed) \<and>
    (b_syntax_dirty (ed_buffer ed) \<or> b_ts_tree (ed_buffer ed) = None)")
  case True
  then show ?thesis
    by (auto simp: refresh_syntax_def Let_def build_buffer_text_eq [OF wf])
next
  case False
  then show ?thesis
    by (auto simp: refresh_syntax_def Let_def fresh_tree_def)
qed

lemma visible_spans_returns:
  assumes wf: "wf_buffer (ed_buffer ed)" and off: "ed_row_offset ed < line_count (ed_buffer ed)"
  shows "\<exists>spans. visible_spans hl ed = Some spans"
proof -
  let ?buf = "ed_buffer ed"
  have collect: "\<exists>sb. collect_loop nm rs re caps sb0 = Some sb" for nm rs re caps sb0
    by (induction nm rs re caps sb0 rule: collect_loop.induct) (auto simp: load_eq split: option.split)
  have col: "\<exists>x. collect_highlights hl ?buf rs re = Some x" for rs re
  proof (cases "b_ts_tree ?buf")
    case (Some tree)
    obtain sb where "collect_loop (hl_name hl) rs re (hl_captures hl tree rs re) \<lparr>sb_spans = [], sb_cap = 0\<rparr> = Some sb"
      using collect by blast
    with Some show ?thesis by (auto simp: collect_highlights_def)
  qed (simp add: collect_highlights_def)
  define last_row where "last_row = (if ed_row_offset ed + screen_text_rows ed - 1 \<ge> line_count ?buf
    then line_count ?buf - 1 else ed_row_offset ed + screen_text_rows ed - 1)"
  have last: "last_row < line_count ?buf" "screen_text_rows ed > 0 \<Longrightarrow> ed_row_offset ed \<le> last_row"
    using off by (auto simp: last_row_def)
  obtain os where os: "build_line_offsets ?buf last_row = Some os" "length os = last_row + 1"
    using build_line_offsets_ok [OF wf last(1)] by (auto elim: returnsE)
  obtain rs where rs: "collect_highlights hl ?buf (os ! ed_row_offset ed)
      (os ! last_row + length (ltext ?buf last_row)) = Some rs" using col by blast
  show ?thesis
    using last os rs line_facts(5) [OF wf last(1)] unfolding visible_spans_def Let_def last_row_def [symmetric]
    by (auto simp: load_eq)
qed

text \<open>Nothing of a frame depends on what was written before.\<close>

lemma geometry_tty [simp]:
  "finder_modal_geometry (ed\<lparr>ed_tty := t\<rparr>) n = finder_modal_geometry ed n"
  "prompt_modal_geometry (ed\<lparr>ed_tty := t\<rparr>) n = prompt_modal_geometry ed n"
  "screen_text_rows (ed\<lparr>ed_tty := t\<rparr>) = screen_text_rows ed"
  "status_text (ed\<lparr>ed_tty := t\<rparr>) = status_text ed"
  unfolding finder_modal_geometry_def prompt_modal_geometry_def finder_modal_width_def finder_list_rows_def
    screen_text_rows_def status_text_def status_left_def status_right_def by simp_all

lemma frame_tty [simp]:
  "selection_range_for_row (ed\<lparr>ed_tty := t\<rparr>) row = selection_range_for_row ed row"
  "cursor_position (ed\<lparr>ed_tty := t\<rparr>) n = cursor_position ed n"
  "visible_spans hl (ed\<lparr>ed_tty := t\<rparr>) = visible_spans hl ed"
  "prompt_modal_text (ed\<lparr>ed_tty := t\<rparr>) n = prompt_modal_text ed n"
  "finder_modal_text (ed\<lparr>ed_tty := t\<rparr>) n = finder_modal_text ed n"
  unfolding selection_range_for_row_def cursor_position_def visible_spans_def
    prompt_modal_text_def finder_modal_text_def by (simp_all cong: if_cong)

lemma frame_text_tty [simp]: "frame_text (ed\<lparr>ed_tty := t\<rparr>) outs p = frame_text ed outs p"
  by (simp add: frame_text_def)

lemma row_shown_tty: "row_shown ed spans row out \<Longrightarrow> row_shown (ed\<lparr>ed_tty := t\<rparr>) spans row out"
proof (induction rule: row_shown.induct)
  case (tilde row)
  then show ?case by (intro row_shown.tilde) simp
next
  case (blank row s)
  then show ?case by (intro row_shown.blank [of row _ s]) simp_all
next
  case (plain row s part)
  then have "row_shown (ed\<lparr>ed_tty := t\<rparr>) spans row
      (expand (vis_width 0 (take (ed_col_offset (ed\<lparr>ed_tty := t\<rparr>)) s)) part)"
    by (intro row_shown.plain) simp_all
  then show ?case by simp
next
  case (unselected row s f g part)
  then have "row_shown (ed\<lparr>ed_tty := t\<rparr>) spans row
      (expand (vis_width 0 (take (ed_col_offset (ed\<lparr>ed_tty := t\<rparr>)) s)) part)"
    by (intro row_shown.unselected [of row _ s f g]) simp_all
  then show ?case by simp
next
  case (coloured row s off part out)
  then show ?case by (intro row_shown.coloured [of row _ s _ off part]) simp_all
next
  case (selected row s f g off a b c v)
  show ?case
    by (rule row_shown.selected [of row _ s f g off a b c v]) (use selected in simp_all)
qed

lemma refresh_screen_ok:
  assumes wf: "wf_editor ed" and mem: "ed_mark_active ed \<longrightarrow> (\<forall>l\<in>set (texts (ed_buffer ed)). length l \<le> SIZE_MAX)"
  shows "returns (editor_refresh_screen hl ed) (\<lambda>ed'. redrawn ed ed' \<and>
    ed_row_offset ed' \<le> cur_row ed \<and>
    (2 \<le> ed_screen_rows ed \<longrightarrow> cur_row ed < ed_row_offset ed' + screen_text_rows ed) \<and>
    is_bnd (ltext (ed_buffer ed) (cur_row ed)) (ed_col_offset ed') \<and>
    (\<exists>spans outs p. visible_spans hl ed' = Some spans \<and> length outs = screen_text_rows ed \<and>
      (\<forall>i < screen_text_rows ed. row_shown ed' spans (ed_row_offset ed' + i) (outs ! i)) \<and>
      cursor_position ed' (int (screen_text_rows ed)) = Some p \<and>
      ed_tty ed' = ed_tty ed @ frame_text ed' outs p))"
proof -
  note d = wf_editorD [OF wf]
  obtain e1 where e1: "editor_scroll ed = Some e1" "scrolled ed e1" "ed_row_offset e1 \<le> cur_row ed"
    "2 \<le> ed_screen_rows ed \<Longrightarrow> cur_row ed < ed_row_offset e1 + screen_text_rows ed"
    "is_bnd (ltext (ed_buffer ed) (cur_row ed)) (ed_col_offset e1)"
    using editor_scroll_ok [OF d(1,3)] by (elim returnsE) simp
  define r c where "r = ed_row_offset e1" and "c = ed_col_offset e1"
  have e1': "e1 = ed\<lparr>ed_row_offset := r, ed_col_offset := c\<rparr>"
    using e1(2) by (simp add: scrolled_def r_def c_def)
  have b1: "ed_buffer e1 = ed_buffer ed" unfolding e1' by simp
  obtain e2 where e2: "refresh_syntax hl e1 = Some e2"
    "e2 = e1\<lparr>ed_buffer := (ed_buffer e1)\<lparr>b_ts_tree := b_ts_tree (ed_buffer e2),
      b_syntax_dirty := b_syntax_dirty (ed_buffer e2)\<rparr>\<rparr>"
  proof -
    have "wf_buffer (ed_buffer e1)" using d(1) b1 by simp
    from refresh_syntax_ok [OF this, of hl] show thesis by (elim returnsE conjE) (rule that)
  qed
  define t s where "t = b_ts_tree (ed_buffer e2)" and "s = b_syntax_dirty (ed_buffer e2)"
  have e2': "e2 = ed\<lparr>ed_row_offset := r, ed_col_offset := c,
      ed_buffer := (ed_buffer ed)\<lparr>b_ts_tree := t, b_syntax_dirty := s\<rparr>\<rparr>"
    using e2(2) unfolding b1 t_def [symmetric] s_def [symmetric] e1' by simp
  have sel: "screen_text_rows e2 = screen_text_rows ed" "ed_tty e2 = ed_tty ed" "ed_row_offset e2 = r"
    "ed_col_offset e2 = c" "ed_mark_active e2 = ed_mark_active ed" "line_count (ed_buffer e2) = line_count (ed_buffer ed)"
    "texts (ed_buffer e2) = texts (ed_buffer ed)"
    unfolding e2' by (simp_all add: screen_text_rows_def)
  have wf2: "wf_editor e2" using wf_redrawn [OF wf, where r = r and c = c and t = t and d = s and o' = "ed_tty ed"] unfolding e2' by simp
  obtain spans where sp: "visible_spans hl e2 = Some spans"
    using visible_spans_returns [OF wf_editorD(1) [OF wf2], of hl] e1(3) d(3) sel by (auto simp: r_def)
  obtain outs p where fr: "length outs = screen_text_rows e2"
    "\<forall>i < screen_text_rows e2. row_shown e2 spans (ed_row_offset e2 + i) (outs ! i)"
    "cursor_position e2 (int (screen_text_rows e2)) = Some p"
    "ab_sink.emits (draw_frame e2 spans) (frame_text e2 outs p)"
    using emits_frame [OF wf2, of spans] mem sel(5,7) by auto
  obtain ab where ab: "draw_frame e2 spans ab_init = Some ab" "ab_text ab = frame_text e2 outs p"
    using ab_sink.emitsD [OF fr(4) wf_ab_init(1)] wf_ab_init(2) by (auto elim: returnsE)
  let ?e = "e2\<lparr>ed_tty := ed_tty e2 @ ab_text ab\<rparr>"
  have run: "editor_refresh_screen hl ed = Some ?e"
    using e1(1) e2(1) sp ab(1) by (simp add: editor_refresh_screen_def ab_text_def)
  have rd: "redrawn ed ?e" unfolding redrawn_def e2' by simp
  show ?thesis
    unfolding run returns_Some
    using rd e1(3-5) sp fr ab(2) sel row_shown_tty by (auto simp: r_def c_def)
qed

end
