(* ===== verification/Terminal.thy ===== *)
theory Terminal
  imports Output
begin

text \<open>
  The terminal's modes (\<open>src/core.c\<close>, \<open>disable_raw_mode\<close> to \<open>get_window_size\<close>) and \<open>die\<close> of
  \<open>src/util.c\<close>. The terminal is the file behind standard input and output: its attributes, the status
  flags of the descriptor, and the control sequences written. The constants are those of the Linux
  headers. \<open>g_editor\<close> is a pointer, so that it can be NULL, point to the editor, or dangle; a read
  through a dangling pointer is \<open>None\<close>.
\<close>

unbundle bit_operations_syntax

record termios =
  c_iflag :: "32 word"
  c_oflag :: "32 word"
  c_cflag :: "32 word"
  c_lflag :: "32 word"
  c_cc :: "byte list"

record terminal =
  tm_attr :: termios
  tm_flags :: "32 word"
  tm_out :: "byte list"

text \<open>\<open>orig_termios\<close> and \<open>stdin_flags\<close> of the editor; \<open>calloc\<close> makes them zero.\<close>

record saved =
  sv_termios :: termios
  sv_flags :: "32 word"

datatype g_editor = No_editor | Editor_at saved | Freed_editor

text \<open>
  Which of the calls succeed: the four of \<open>enable_raw_mode\<close>, in their order, and the two of
  \<open>disable_raw_mode\<close>, whose results the code ignores.
\<close>

record sys =
  sy_getfl :: bool
  sy_setfl :: bool
  sy_getattr :: bool
  sy_setattr :: bool
  sy_restore_attr :: bool
  sy_restore_fl :: bool

definition BRKINT :: "32 word" where "BRKINT = 0x2"
definition ICRNL :: "32 word" where "ICRNL = 0x100"
definition INPCK :: "32 word" where "INPCK = 0x10"
definition ISTRIP :: "32 word" where "ISTRIP = 0x20"
definition IXON :: "32 word" where "IXON = 0x400"
definition OPOST :: "32 word" where "OPOST = 0x1"
definition CS8 :: "32 word" where "CS8 = 0x30"
definition ECHO :: "32 word" where "ECHO = 0x8"
definition ICANON :: "32 word" where "ICANON = 0x2"
definition IEXTEN :: "32 word" where "IEXTEN = 0x8000"
definition ISIG :: "32 word" where "ISIG = 0x1"
definition O_NONBLOCK :: "32 word" where "O_NONBLOCK = 0x800"
definition VTIME :: nat where "VTIME = 5"
definition VMIN :: nat where "VMIN = 6"

definition zero_saved :: saved where
  "zero_saved = \<lparr>sv_termios = \<lparr>c_iflag = 0, c_oflag = 0, c_cflag = 0, c_lflag = 0, c_cc = replicate 32 0\<rparr>,
     sv_flags = 0\<rparr>"

text \<open>The terminal is told to show the cursor, reset colours, end mouse reports and leave the
  alternate screen; then the attributes and the flags go back to what they were.\<close>

definition disable_text :: "byte list" where
  "disable_text = csi (bytes_of ''?25h'') @ csi (bytes_of ''m'') @ csi (bytes_of ''?1000l'') @
     csi (bytes_of ''?1002l'') @ csi (bytes_of ''?1006l'') @ csi (bytes_of ''?1049l'')"

definition disable_raw_mode :: "sys \<Rightarrow> g_editor \<Rightarrow> terminal \<Rightarrow> terminal option" where
  "disable_raw_mode sy g tm =
     (case g of
        No_editor \<Rightarrow> Some tm
      | Freed_editor \<Rightarrow> None
      | Editor_at saved \<Rightarrow>
          let tm = tm\<lparr>tm_out := tm_out tm @ disable_text\<rparr>;
              tm = (if sy_restore_attr sy then tm\<lparr>tm_attr := sv_termios saved\<rparr> else tm)
          in Some (if 0 \<le> sint (sv_flags saved) \<and> sy_restore_fl sy then tm\<lparr>tm_flags := sv_flags saved\<rparr> else tm))"

definition raw_termios :: "termios \<Rightarrow> termios" where
  "raw_termios t = t\<lparr>
     c_iflag := c_iflag t AND NOT (BRKINT OR ICRNL OR INPCK OR ISTRIP OR IXON),
     c_oflag := c_oflag t AND NOT OPOST,
     c_cflag := c_cflag t OR CS8,
     c_lflag := c_lflag t AND NOT (ECHO OR ICANON OR IEXTEN OR ISIG),
     c_cc := (c_cc t)[VMIN := 0, VTIME := 0]\<rparr>"

definition enable_text :: "byte list" where
  "enable_text = csi (bytes_of ''?1000h'') @ csi (bytes_of ''?1002h'') @ csi (bytes_of ''?1006h'') @
     csi (bytes_of ''?1049h'')"

text \<open>The last result is whether all calls succeeded; \<open>die\<close> is called otherwise.\<close>

definition enable_raw_mode :: "sys \<Rightarrow> saved \<Rightarrow> terminal \<Rightarrow> saved \<times> terminal \<times> bool" where
  "enable_raw_mode sy saved tm =
     (if \<not> sy_getfl sy then (saved\<lparr>sv_flags := -1\<rparr>, tm, False)
      else let saved = saved\<lparr>sv_flags := tm_flags tm\<rparr>
      in if \<not> sy_setfl sy then (saved, tm, False)
      else let tm = tm\<lparr>tm_flags := sv_flags saved OR O_NONBLOCK\<rparr>
      in if \<not> sy_getattr sy then (saved, tm, False)
      else let saved = saved\<lparr>sv_termios := tm_attr tm\<rparr>
      in if \<not> sy_setattr sy then (saved, tm, False)
      else (saved, tm\<lparr>tm_attr := raw_termios (sv_termios saved), tm_out := tm_out tm @ enable_text\<rparr>, True))"

text \<open>\<open>exit\<close> runs the handler registered with \<open>atexit\<close>; \<open>die\<close> is \<open>perror\<close> and \<open>exit(1)\<close>.\<close>

definition die :: "sys \<Rightarrow> g_editor \<Rightarrow> terminal \<Rightarrow> (nat \<times> terminal) option" where
  "die sy g tm = do { tm \<leftarrow> disable_raw_mode sy g tm; Some (1, tm) }"

definition handle_sigint :: "sys \<Rightarrow> g_editor \<Rightarrow> terminal \<Rightarrow> (nat \<times> terminal) option" where
  "handle_sigint sy g tm = do { tm \<leftarrow> disable_raw_mode sy g tm; Some (130, tm) }"

section \<open>Raw mode is left as it was entered\<close>

text \<open>
  What the shell sees after a session: each of the two modes is what it was before, or the raw one
  if the call that restores it failed; and the control sequences were all taken back.
\<close>

definition left_raw :: "sys \<Rightarrow> terminal \<Rightarrow> terminal \<Rightarrow> bool" where
  "left_raw sy before after \<longleftrightarrow>
     tm_attr after = (if sy_restore_attr sy then tm_attr before else raw_termios (tm_attr before)) \<and>
     tm_flags after = (if sy_restore_fl sy then tm_flags before else tm_flags before OR O_NONBLOCK) \<and>
     tm_out after = tm_out before @ enable_text @ disable_text"

definition all_ok :: sys where
  "all_ok = \<lparr>sy_getfl = True, sy_setfl = True, sy_getattr = True, sy_setattr = True,
     sy_restore_attr = True, sy_restore_fl = True\<rparr>"

lemma enable_modes:
  assumes "enable_raw_mode sy saved tm = (saved', tm', True)"
  shows "saved' = saved\<lparr>sv_flags := tm_flags tm, sv_termios := tm_attr tm\<rparr>"
    "tm_attr tm' = raw_termios (tm_attr tm)" "tm_flags tm' = tm_flags tm OR O_NONBLOCK"
    "tm_out tm' = tm_out tm @ enable_text"
  using assms by (auto simp: enable_raw_mode_def Let_def split: if_splits)

lemma raw_round_trip:
  assumes en: "enable_raw_mode sy saved tm = (saved', tm', True)" and flags: "0 \<le> sint (tm_flags tm)"
  shows "returns (disable_raw_mode sy (Editor_at saved') tm') (left_raw sy tm)"
  using enable_modes [OF en] flags by (simp add: disable_raw_mode_def Let_def left_raw_def)

text \<open>
  A start whose last call fails restores the modes too. One that fails earlier calls
  \<open>disable_raw_mode\<close> before the attributes were read, and sets them to zero.
\<close>

lemma failed_start:
  assumes en: "enable_raw_mode sy saved tm = (saved', tm', False)" and flags: "0 \<le> sint (tm_flags tm)"
    and later: "sy_getfl sy" "sy_setfl sy" "sy_getattr sy" and restore: "sy_restore_attr sy" "sy_restore_fl sy"
  shows "returns (die sy (Editor_at saved') tm')
    (\<lambda>(code, t). code = 1 \<and> tm_attr t = tm_attr tm \<and> tm_flags t = tm_flags tm)"
  using en flags later restore
  by (auto simp: enable_raw_mode_def Let_def die_def disable_raw_mode_def split: if_splits)

lemma early_failure_zeroes:
  assumes "enable_raw_mode sy zero_saved tm = (saved', tm', False)" "\<not> sy_getattr sy" "sy_restore_attr sy"
  shows "returns (die sy (Editor_at saved') tm') (\<lambda>(code, t). tm_attr t = sv_termios zero_saved)"
  using assms by (auto simp: enable_raw_mode_def Let_def die_def disable_raw_mode_def split: if_splits)

text \<open>Raw mode is what the editor needs: no echo, no line editing, no signals, no translation.\<close>

lemma raw_termios_bits:
  "c_lflag (raw_termios t) AND (ECHO OR ICANON OR IEXTEN OR ISIG) = 0"
  "c_iflag (raw_termios t) AND (BRKINT OR ICRNL OR INPCK OR ISTRIP OR IXON) = 0"
  "c_oflag (raw_termios t) AND OPOST = 0" "c_cflag (raw_termios t) AND CS8 = CS8"
  by (simp_all add: raw_termios_def bit_eq_iff bit_simps) auto

end
