(* ===== verification/Session.thy ===== *)
theory Session
  imports Step Drawing Terminal
begin

text \<open>
  The life of the process (\<open>src/core.c\<close> from \<open>get_window_size\<close> on, and \<open>src/main.c\<close>): start, the loop
  over the events of the terminal, and the end. What \<open>poll\<close>, \<open>read\<close> and \<open>ioctl\<close> return is a list of
  events; when the list ends the process is still running. The last part states what holds of every
  session: a machine whose steps keep an invariant, and one whose steps do not fail either.
\<close>

section \<open>Start\<close>

definition editor_start :: "os \<Rightarrow> byte list option \<Rightarrow> editor option" where
  "editor_start os arg = do {
     buf \<leftarrow> (case arg of None \<Rightarrow> Some buffer_init
            | Some path \<Rightarrow> buffer_load_file buffer_init path (os_read os path));
     Some \<lparr>ed_screen_rows = 0, ed_screen_cols = 0, ed_row_offset = 0, ed_col_offset = 0,
       ed_buffer = buffer_init_syntax (os_ts os) buf (b_file_path buf),
       ed_frame = \<lparr>f_row = 0, f_col = 0\<rparr>, ed_dirty = False, ed_should_exit = False,
       ed_pending_ctrl_x = False, ed_esc_state = ESC_NONE, ed_esc_buf = replicate ESC_BUF_SIZE 0,
       ed_esc_len = 0, ed_prompt_active = False, ed_prompt_save_as = False, ed_prompt = field_empty,
       ed_isearch_active = False, ed_isearch_forward = True, ed_isearch_has_match = False,
       ed_isearch_query = replicate FIELD_SIZE 0, ed_isearch_len = 0, ed_isearch_origin_row = 0,
       ed_isearch_origin_col = 0,
       ed_finder = \<lparr>fd_active = False, fd_query = field_empty, fd_project_root = None, fd_files = [],
         fd_file_cap = 0, fd_matches = [], fd_match_cap = 0, fd_scored_cap = 0, fd_selection = 0,
         fd_scroll = 0\<rparr>,
       ed_kill_ring = replicate KILL_RING_MAX None, ed_kill_ring_len = 0, ed_kill_ring_index = 0,
       ed_last_was_kill = False, ed_last_was_yank = False, ed_yank_start_row = 0,
       ed_yank_start_col = 0, ed_yank_end_row = 0, ed_yank_end_col = 0, ed_mark_active = False,
       ed_mark_row = 0, ed_mark_col = 0, ed_status_msg = bytes_of ''C-x C-s to save'',
       ed_tty = [], ed_saves = []\<rparr>
   }"

text \<open>\<open>ioctl\<close> gives the rows and columns of the window, or fails; \<open>Inl\<close> is a call of \<open>die\<close>.\<close>

definition get_window_size :: "(nat \<times> nat) option \<Rightarrow> editor \<Rightarrow> unit + editor" where
  "get_window_size ws ed =
     (case ws of
        None \<Rightarrow> Inl ()
      | Some (rows, cols) \<Rightarrow>
          if cols = 0 \<or> rows = 0 then Inl ()
          else Inr (ed\<lparr>ed_screen_rows := int rows, ed_screen_cols := int cols\<rparr>))"

record process =
  pr_editor :: editor
  pr_saved :: saved
  pr_tm :: terminal

datatype outcome = Running process | Quit process | Died nat terminal

definition dies :: "sys \<Rightarrow> saved \<Rightarrow> terminal \<Rightarrow> outcome option" where
  "dies sy saved tm = do { (code, tm) \<leftarrow> die sy (Editor_at saved) tm; Some (Died code tm) }"

definition editor_create ::
  "sys \<Rightarrow> os \<Rightarrow> byte list option \<Rightarrow> (nat \<times> nat) option \<Rightarrow> terminal \<Rightarrow> outcome option" where
  "editor_create sy os arg ws tm = do {
     ed \<leftarrow> editor_start os arg;
     case get_window_size ws ed of
       Inl _ \<Rightarrow> dies sy zero_saved tm
     | Inr ed \<Rightarrow>
         let (saved, tm, ok) = enable_raw_mode sy zero_saved tm
         in if ok then Some (Running \<lparr>pr_editor = ed, pr_saved = saved, pr_tm = tm\<rparr>)
            else dies sy saved tm
   }"

section \<open>The loop\<close>

text \<open>
  One turn of the loop: \<open>poll\<close> is interrupted or fails, reports something else than input, or
  reports input, and then \<open>read\<close> fails, has nothing (\<open>EAGAIN\<close>, or 0 bytes at the end of the input)
  or gives some bytes; \<open>ws\<close> is what \<open>ioctl\<close> says after those.
\<close>

datatype event = Poll_interrupted | Poll_error | No_input | Read_error | Read_nothing
  | Input "byte list" "(nat \<times> nat) option"

text \<open>A run of a machine over a list of inputs.\<close>

fun run :: "('s \<Rightarrow> 'e \<Rightarrow> 's option) \<Rightarrow> 's \<Rightarrow> 'e list \<Rightarrow> 's option" where
  "run step s [] = Some s"
| "run step s (e # es) = do { s \<leftarrow> step s e; run step s es }"

definition process_keys :: "os \<Rightarrow> editor \<Rightarrow> byte list \<Rightarrow> editor option" where
  "process_keys os ed keys = run (editor_process_key os) ed keys"

definition loop_turn :: "sys \<Rightarrow> os \<Rightarrow> highlighter \<Rightarrow> process \<Rightarrow> event \<Rightarrow> outcome option" where
  "loop_turn sy os hl p ev =
     (case ev of
        Poll_interrupted \<Rightarrow> Some (Running p)
      | Poll_error \<Rightarrow> dies sy (pr_saved p) (pr_tm p)
      | No_input \<Rightarrow> Some (Running p)
      | Read_error \<Rightarrow> dies sy (pr_saved p) (pr_tm p)
      | Read_nothing \<Rightarrow> Some (Running p)
      | Input keys ws \<Rightarrow> do {
          ed \<leftarrow> process_keys os (pr_editor p) keys;
          if ed_should_exit ed then Some (Quit (p\<lparr>pr_editor := ed\<rparr>))
          else (case get_window_size ws ed of
                  Inl _ \<Rightarrow> dies sy (pr_saved p) (pr_tm p)
                | Inr ed \<Rightarrow> do {
                    ed \<leftarrow> editor_refresh_screen hl ed;
                    Some (Running (p\<lparr>pr_editor := ed\<rparr>))
                  })
        })"

fun editor_loop :: "sys \<Rightarrow> os \<Rightarrow> highlighter \<Rightarrow> process \<Rightarrow> event list \<Rightarrow> outcome option" where
  "editor_loop sy os hl p [] = Some (Running p)"
| "editor_loop sy os hl p (ev # evs) = do {
     out \<leftarrow> loop_turn sy os hl p ev;
     case out of Running p \<Rightarrow> editor_loop sy os hl p evs | _ \<Rightarrow> Some out
   }"

definition editor_run :: "sys \<Rightarrow> os \<Rightarrow> highlighter \<Rightarrow> process \<Rightarrow> event list \<Rightarrow> outcome option" where
  "editor_run sy os hl p evs = do {
     ed \<leftarrow> editor_refresh_screen hl (pr_editor p);
     editor_loop sy os hl (p\<lparr>pr_editor := ed\<rparr>) evs
   }"

section \<open>The end\<close>

text \<open>
  \<open>editor_destroy\<close> ends raw mode and frees what the editor owns and the editor itself; \<open>g_editor\<close>
  still points to it. \<open>free_ring\<close> is the loop over the kill ring; \<open>n\<close> entries are left.
\<close>

fun free_ring :: "block option list \<Rightarrow> nat \<Rightarrow> nat \<Rightarrow> block option list option" where
  "free_ring ring i 0 = Some ring"
| "free_ring ring i (Suc n) = do { ring \<leftarrow> store ring i None; free_ring ring (i + 1) n }"

definition editor_destroy :: "sys \<Rightarrow> process \<Rightarrow> (g_editor \<times> terminal) option" where
  "editor_destroy sy p = do {
     tm \<leftarrow> disable_raw_mode sy (Editor_at (pr_saved p)) (pr_tm p);
     let ed = pr_editor p;
     let ed = ed\<lparr>ed_buffer := buffer_free (ed_buffer ed)\<rparr>;
     ed \<leftarrow> finder_reset ed;
     ring \<leftarrow> free_ring (ed_kill_ring ed) 0 (ed_kill_ring_len ed);
     Some (Freed_editor, tm)
   }"

text \<open>\<open>main\<close>: after its \<open>return 0\<close> the process exits, which runs \<open>disable_raw_mode\<close> again.\<close>

definition main_program ::
  "sys \<Rightarrow> os \<Rightarrow> highlighter \<Rightarrow> byte list option \<Rightarrow> (nat \<times> nat) option \<Rightarrow> terminal \<Rightarrow> event list \<Rightarrow> outcome option" where
  "main_program sy os hl arg ws tm evs = do {
     out \<leftarrow> editor_create sy os arg ws tm;
     case out of
       Running p \<Rightarrow> do {
         out \<leftarrow> editor_run sy os hl p evs;
         case out of
           Quit p \<Rightarrow> do {
             (g, tm) \<leftarrow> editor_destroy sy p;
             tm \<leftarrow> disable_raw_mode sy g tm;
             Some (Died 0 tm)
           }
         | _ \<Rightarrow> Some out
       }
     | _ \<Rightarrow> Some out
   }"

section \<open>The state an editor starts in\<close>

lemma editor_start_ok:
  "returns (editor_start os arg) (\<lambda>ed. wf_editor ed \<and> calm ed \<and> \<not> ed_mark_active ed \<and>
     ed_esc_state ed = ESC_NONE)"
proof -
  let ?m = "case arg of None \<Rightarrow> Some buffer_init
      | Some path \<Rightarrow> buffer_load_file buffer_init path (os_read os path)"
  have "returns ?m wf_buffer"
    using buffer_load_file_wf [OF wf_buffer_init] wf_buffer_init by (cases arg) simp_all
  then obtain buf where b: "?m = Some buf" "wf_buffer buf" by (rule returnsE)
  have s: "wf_buffer (buffer_init_syntax ts buf p)" "texts (buffer_init_syntax ts buf p) = texts buf"
    "line_count (buffer_init_syntax ts buf p) = line_count buf" for ts p
    using wf_buffer_init_syntax [of ts buf p] b(2) by (simp_all add: length_texts [symmetric] del: length_texts)
  have q: "wf_field \<lparr>fl_buf = replicate FIELD_SIZE 0, fl_len = 0, fl_col = 0\<rparr>"
    using wf_field_empty by (simp add: field_empty_def)
  show ?thesis
    unfolding editor_start_def b(1)
    using s b(2) q wf_field_empty wf_buffer_count [OF b(2)]
    by (simp add: state_defs wf_finder_def KILL_RING_MAX_def ESC_BUF_SIZE_def field_empty_def
        wf_field_def in_text_def)
qed

section \<open>Machines\<close>

text \<open>
  A machine whose steps keep an invariant, and one whose allowed steps also do not fail. The steps
  an input allows may depend on the state it is read in.
\<close>

locale preserving =
  fixes step :: "'s \<Rightarrow> 'e \<Rightarrow> 's option" and inv :: "'s \<Rightarrow> bool"
  assumes inv_step: "inv s \<Longrightarrow> step s e = Some s' \<Longrightarrow> inv s'"
begin

lemma run_inv: "inv s \<Longrightarrow> run step s es = Some s' \<Longrightarrow> inv s'"
  by (induction es arbitrary: s) (auto simp: bind_eq_Some_conv dest: inv_step)

end

fun allowed_run :: "('s \<Rightarrow> 'e \<Rightarrow> 's option) \<Rightarrow> ('s \<Rightarrow> 'e \<Rightarrow> bool) \<Rightarrow> 's \<Rightarrow> 'e list \<Rightarrow> bool" where
  "allowed_run step allowed s [] = True"
| "allowed_run step allowed s (e # es) =
     (allowed s e \<and> (case step s e of None \<Rightarrow> True | Some s' \<Rightarrow> allowed_run step allowed s' es))"

lemma allowed_all: "(\<And>s e. e \<in> set es \<Longrightarrow> allowed s e) \<Longrightarrow> allowed_run step allowed s es"
  by (induction es arbitrary: s) (auto split: option.split)

locale safe_machine =
  fixes step :: "'s \<Rightarrow> 'e \<Rightarrow> 's option" and allowed :: "'s \<Rightarrow> 'e \<Rightarrow> bool" and inv :: "'s \<Rightarrow> bool"
  assumes safe_step: "inv s \<Longrightarrow> allowed s e \<Longrightarrow> returns (step s e) inv"
begin

lemma run_safe: "inv s \<Longrightarrow> allowed_run step allowed s es \<Longrightarrow> returns (run step s es) inv"
proof (induction es arbitrary: s)
  case (Cons e es)
  from safe_step [OF Cons.prems(1)] Cons.prems(2) obtain s' where "step s e = Some s'" "inv s'"
    by (auto elim: returnsE)
  with Cons show ?case by simp
qed simp

end

text \<open>
  The keyboard. Every key keeps the invariant; and a key never fails as long as the mark stays in
  the text. The mark stays unset if it is never set: by \<open>C-@\<close> or by the mouse.
\<close>

definition key_inv :: "os \<Rightarrow> editor \<Rightarrow> bool" where
  "key_inv os ed \<longleftrightarrow> posix_paths os \<and> wf_editor ed"

definition quiet :: "editor \<Rightarrow> byte \<Rightarrow> bool" where
  "quiet ed key \<longleftrightarrow> key \<noteq> 0 \<and> \<not> mouse_final ed key"

definition quiet_inv :: "os \<Rightarrow> editor \<Rightarrow> bool" where
  "quiet_inv os ed \<longleftrightarrow> posix_paths os \<and> wf_editor ed \<and> calm ed \<and> \<not> ed_mark_active ed"

definition mark_in_text :: "os \<Rightarrow> editor \<Rightarrow> byte \<Rightarrow> bool" where
  "mark_in_text os ed key \<longleftrightarrow> \<not> mouse_final ed key \<and>
     (case editor_process_key os ed key of None \<Rightarrow> True | Some ed' \<Rightarrow> good_mark ed')"

definition marked_inv :: "os \<Rightarrow> editor \<Rightarrow> bool" where
  "marked_inv os ed \<longleftrightarrow> posix_paths os \<and> wf_editor ed \<and> calm ed \<and> good_mark ed"

lemma process_key_returns:
  assumes "posix_paths os" "wf_editor ed" "calm ed" "good_mark ed"
  shows "returns (editor_process_key os ed key) (stepped ed key)"
  using process_key_safe [OF assms(1,2), of key] assms(3,4) by (auto simp: safe_def returns_def)

interpretation any_keys: preserving "editor_process_key os" "key_inv os" for os
  using process_key_safe by unfold_locales (fastforce simp: key_inv_def safe_def stepped_def)

interpretation quiet_keys: safe_machine "editor_process_key os" quiet "quiet_inv os" for os
proof unfold_locales
  fix ed key assume "quiet_inv os ed" "quiet ed key"
  then show "returns (editor_process_key os ed key) (quiet_inv os)"
    by (intro returns_mono [OF process_key_returns])
       (auto simp: quiet_inv_def quiet_def good_mark_def stepped_def)
qed

interpretation marked_keys: safe_machine "editor_process_key os" "mark_in_text os" "marked_inv os" for os
proof unfold_locales
  fix ed key assume a: "marked_inv os ed" "mark_in_text os ed key"
  then obtain ed' where "editor_process_key os ed key = Some ed'" "stepped ed key ed'"
    using process_key_returns [of os ed key] by (auto simp: marked_inv_def elim: returnsE)
  with a show "returns (editor_process_key os ed key) (marked_inv os)"
    by (auto simp: marked_inv_def mark_in_text_def stepped_def)
qed

section \<open>Sessions\<close>

text \<open>The loop is a machine too: it stops stepping when the editor quits or dies.\<close>

definition loop_step :: "sys \<Rightarrow> os \<Rightarrow> highlighter \<Rightarrow> outcome \<Rightarrow> event \<Rightarrow> outcome option" where
  "loop_step sy os hl out ev = (case out of Running p \<Rightarrow> loop_turn sy os hl p ev | _ \<Rightarrow> Some out)"

lemma editor_loop_run: "editor_loop sy os hl p evs = run (loop_step sy os hl) (Running p) evs"
proof (induction evs arbitrary: p)
  case (Cons ev evs)
  have stop: "run (loop_step sy os hl) out evs = Some out" if "\<And>q. out \<noteq> Running q" for out
    using that by (induction evs) (auto simp: loop_step_def split: outcome.split)
  have "(case out of Running p \<Rightarrow> editor_loop sy os hl p evs | _ \<Rightarrow> Some out) = run (loop_step sy os hl) out evs" for out
    using Cons stop by (cases out) auto
  moreover have "loop_step sy os hl (Running p) ev = loop_turn sy os hl p ev" by (simp add: loop_step_def)
  ultimately show ?case by simp
qed simp

definition session_inv :: "os \<Rightarrow> outcome \<Rightarrow> bool" where
  "session_inv os out \<longleftrightarrow>
     (case out of Running p \<Rightarrow> quiet_inv os (pr_editor p) | Quit p \<Rightarrow> quiet_inv os (pr_editor p) | Died code _ \<Rightarrow> code = 1)"

definition quiet_event :: "os \<Rightarrow> outcome \<Rightarrow> event \<Rightarrow> bool" where
  "quiet_event os out ev \<longleftrightarrow>
     (case out of
        Running p \<Rightarrow> (case ev of
            Input keys ws \<Rightarrow> allowed_run (editor_process_key os) quiet (pr_editor p) keys | _ \<Rightarrow> True)
      | _ \<Rightarrow> True)"

lemma wf_window:
  "wf_editor (ed\<lparr>ed_screen_rows := r, ed_screen_cols := c\<rparr>) = wf_editor ed"
  "calm (ed\<lparr>ed_screen_rows := r, ed_screen_cols := c\<rparr>) = calm ed"
  "good_mark (ed\<lparr>ed_screen_rows := r, ed_screen_cols := c\<rparr>) = good_mark ed"
  by (simp_all add: state_defs good_mark_def)

lemma quiet_window: "quiet_inv os ed \<Longrightarrow> get_window_size ws ed = Inr ed' \<Longrightarrow> quiet_inv os ed'"
  by (auto simp: quiet_inv_def get_window_size_def wf_window split: option.splits if_splits)

lemma redrawnD:
  assumes "redrawn ed ed'"
  shows "wf_editor ed \<Longrightarrow> wf_editor ed'" "calm ed' = calm ed" "good_mark ed' = good_mark ed"
    "ed_mark_active ed' = ed_mark_active ed" "cur_row ed' = cur_row ed" "cur_col ed' = cur_col ed"
    "texts (ed_buffer ed') = texts (ed_buffer ed)" "ed_screen_rows ed' = ed_screen_rows ed"
proof -
  define r c t d o' where "r = ed_row_offset ed'" and "c = ed_col_offset ed'" and "t = b_ts_tree (ed_buffer ed')"
    and "d = b_syntax_dirty (ed_buffer ed')" and "o' = ed_tty ed'"
  have e: "ed' = ed\<lparr>ed_row_offset := r, ed_col_offset := c,
      ed_buffer := (ed_buffer ed)\<lparr>b_ts_tree := t, b_syntax_dirty := d\<rparr>, ed_tty := o'\<rparr>"
    using assms by (simp add: redrawn_def r_def c_def t_def d_def o'_def)
  show "wf_editor ed \<Longrightarrow> wf_editor ed'" "calm ed' = calm ed" "good_mark ed' = good_mark ed"
    "ed_mark_active ed' = ed_mark_active ed" "cur_row ed' = cur_row ed" "cur_col ed' = cur_col ed"
    "texts (ed_buffer ed') = texts (ed_buffer ed)" "ed_screen_rows ed' = ed_screen_rows ed"
    unfolding e using wf_redrawn calm_redrawn by (blast | simp)+
qed

lemma quiet_refresh:
  assumes "quiet_inv os ed"
  shows "returns (editor_refresh_screen hl ed) (quiet_inv os)"
proof -
  have "returns (editor_refresh_screen hl ed) (redrawn ed)"
    using assms by (intro returns_mono [OF refresh_screen_ok]) (auto simp: quiet_inv_def)
  then show ?thesis
    by (rule returns_mono) (use assms redrawnD in \<open>auto simp: quiet_inv_def\<close>)
qed

lemma dies_returns: "\<exists>t. dies sy saved tm = Some (Died 1 t)"
  by (auto simp: dies_def die_def disable_raw_mode_def Let_def)

interpretation sessions: safe_machine "loop_step sy os hl" "quiet_event os" "session_inv os" for sy os hl
proof unfold_locales
  fix out ev assume inv: "session_inv os out" and q: "quiet_event os out ev"
  show "returns (loop_step sy os hl out ev) (session_inv os)"
  proof (cases out)
    case (Running p)
    have die: "returns (dies sy (pr_saved p) (pr_tm p)) (session_inv os)"
      using dies_returns [of sy "pr_saved p" "pr_tm p"] by (auto simp: session_inv_def)
    show ?thesis
    proof (cases ev)
      case (Input keys ws)
      have "returns (run (editor_process_key os) (pr_editor p) keys) (quiet_inv os)"
        using inv q Running Input by (intro quiet_keys.run_safe) (simp_all add: session_inv_def quiet_event_def)
      then obtain ed where ed: "process_keys os (pr_editor p) keys = Some ed" "quiet_inv os ed"
        unfolding process_keys_def by (rule returnsE)
      show ?thesis
      proof (cases "get_window_size ws ed")
        case (Inl u)
        with ed die show ?thesis by (simp add: loop_step_def loop_turn_def Running Input) (simp add: session_inv_def)
      next
        case (Inr ed1)
        obtain ed2 where "editor_refresh_screen hl ed1 = Some ed2" "quiet_inv os ed2"
          using quiet_refresh [OF quiet_window [OF ed(2) Inr], of hl] by (rule returnsE)
        with ed Inr show ?thesis
          by (simp add: loop_step_def loop_turn_def Running Input) (simp add: session_inv_def)
      qed
    qed (use inv die in \<open>simp_all add: loop_step_def loop_turn_def Running\<close>)
  qed (use inv in \<open>simp_all add: loop_step_def\<close>)
qed

text \<open>A session of the keyboard that sets no mark runs without a failing access from start to end.\<close>

lemma dies_ends [simp]: "dies sy saved tm \<noteq> Some (Running p)" "dies sy saved tm \<noteq> Some (Quit p)"
  using dies_returns [of sy saved tm] by auto

lemma create_Running:
  assumes "editor_create sy os arg ws tm = Some (Running p)"
  obtains ed ed' saved tm' where "editor_start os arg = Some ed" "get_window_size ws ed = Inr ed'"
    "enable_raw_mode sy zero_saved tm = (saved, tm', True)"
    "p = \<lparr>pr_editor = ed', pr_saved = saved, pr_tm = tm'\<rparr>"
proof -
  obtain ed where ed: "editor_start os arg = Some ed"
    using assms by (auto simp: editor_create_def bind_eq_Some_conv)
  obtain saved tm' ok where en: "enable_raw_mode sy zero_saved tm = (saved, tm', ok)" by (rule prod_cases3)
  show thesis
  proof (cases "get_window_size ws ed")
    case (Inl u)
    with assms ed show thesis by (simp add: editor_create_def)
  next
    case (Inr ed')
    with assms ed en have "ok" "p = \<lparr>pr_editor = ed', pr_saved = saved, pr_tm = tm'\<rparr>"
      by (simp_all add: editor_create_def split: if_splits)
    with that [OF ed Inr] en show thesis by simp
  qed
qed

lemma create_quiet:
  assumes posix: "posix_paths os" and cr: "editor_create sy os arg ws tm = Some (Running p)"
  shows "quiet_inv os (pr_editor p)"
  using cr
proof (rule create_Running)
  fix ed ed' saved tm'
  assume e: "editor_start os arg = Some ed" "get_window_size ws ed = Inr ed'"
    "p = \<lparr>pr_editor = ed', pr_saved = saved, pr_tm = tm'\<rparr>"
  have "quiet_inv os ed"
    using editor_start_ok [of os arg] posix e(1) by (auto simp: quiet_inv_def elim!: returnsE)
  from quiet_window [OF this e(2)] show ?thesis by (simp add: e(3))
qed

text \<open>A session is quiet when all its events are, from the state after the first redraw on.\<close>

definition quiet_session :: "sys \<Rightarrow> os \<Rightarrow> highlighter \<Rightarrow> process \<Rightarrow> event list \<Rightarrow> bool" where
  "quiet_session sy os hl p evs \<longleftrightarrow>
     (case editor_refresh_screen hl (pr_editor p) of
        None \<Rightarrow> True
      | Some ed \<Rightarrow> allowed_run (loop_step sy os hl) (quiet_event os) (Running (p\<lparr>pr_editor := ed\<rparr>)) evs)"

lemma editor_run_quiet:
  assumes posix: "posix_paths os" and cr: "editor_create sy os arg ws tm = Some (Running p)"
    and q: "quiet_session sy os hl p evs"
  shows "returns (editor_run sy os hl p evs) (session_inv os)"
proof -
  obtain ed where ed: "editor_refresh_screen hl (pr_editor p) = Some ed" "quiet_inv os ed"
    using quiet_refresh [OF create_quiet [OF posix cr], of hl] by (rule returnsE)
  have "session_inv os (Running (p\<lparr>pr_editor := ed\<rparr>))" using ed(2) by (simp add: session_inv_def)
  from sessions.run_safe [OF this] q ed(1)
  show ?thesis by (simp add: editor_run_def editor_loop_run quiet_session_def)
qed

lemma create_returns:
  "returns (editor_create sy os arg ws tm) (\<lambda>out. case out of Running p \<Rightarrow> True | Quit p \<Rightarrow> False | Died code t \<Rightarrow> code = 1)"
proof -
  obtain ed where ed: "editor_start os arg = Some ed" using editor_start_ok [of os arg] by (auto elim: returnsE)
  have d: "returns (dies sy saved t) (\<lambda>out. case out of Running p \<Rightarrow> True | Quit p \<Rightarrow> False | Died code t \<Rightarrow> code = 1)" for saved t
    using dies_returns [of sy saved t] by auto
  show ?thesis
    using ed by (auto simp: editor_create_def Let_def d simp del: One_nat_def split: sum.split prod.split)
qed

section \<open>The terminal at the end\<close>

text \<open>Every session keeps the invariant of its editor, the mouse and the mark included.\<close>

definition outcome_inv :: "os \<Rightarrow> outcome \<Rightarrow> bool" where
  "outcome_inv os out \<longleftrightarrow>
     (case out of Running p \<Rightarrow> key_inv os (pr_editor p) | Quit p \<Rightarrow> key_inv os (pr_editor p) | Died _ _ \<Rightarrow> True)"

lemma key_inv_turn:
  assumes "key_inv os ed" "get_window_size ws ed = Inr ed1" "editor_refresh_screen hl ed1 = Some ed2"
  shows "key_inv os ed2"
  using assms redrawnD(1) [OF refresh_redraws [OF assms(3)]]
  by (auto simp: key_inv_def get_window_size_def wf_window split: option.splits if_splits)

interpretation outcomes: preserving "loop_step sy os hl" "outcome_inv os" for sy os hl
proof unfold_locales
  fix out ev out' assume inv: "outcome_inv os out" and st: "loop_step sy os hl out ev = Some out'"
  have dead: "outcome_inv os o'" if "dies sy sv tm = Some o'" for sv tm o'
    using that dies_returns [of sy sv tm] by (auto simp: outcome_inv_def)
  show "outcome_inv os out'"
  proof (cases out)
    case (Running p)
    have key: "key_inv os ed" if "process_keys os (pr_editor p) keys = Some ed" for keys ed
      using any_keys.run_inv [of os "pr_editor p" keys ed] that inv
      by (simp add: process_keys_def outcome_inv_def Running)
    show ?thesis
    proof (cases ev)
      case (Input keys ws)
      with st Running obtain ed where ed: "process_keys os (pr_editor p) keys = Some ed"
        by (auto simp: loop_step_def loop_turn_def bind_eq_Some_conv)
      show ?thesis
        using st ed key [OF ed] dead key_inv_turn [OF key [OF ed]]
        by (auto simp: loop_step_def loop_turn_def Running Input outcome_inv_def bind_eq_Some_conv
            split: if_splits sum.splits)
    qed (use st inv dead in \<open>auto simp: loop_step_def loop_turn_def Running\<close>)
  qed (use st inv in \<open>auto simp: loop_step_def\<close>)
qed

lemma free_ring_returns: "i + n \<le> length ring \<Longrightarrow> free_ring ring i n \<noteq> None"
  by (induction n arbitrary: i ring) (simp_all add: store_def)

lemma destroy_restores:
  assumes "wf_editor (pr_editor p)" "returns (disable_raw_mode sy (Editor_at (pr_saved p)) (pr_tm p)) Q"
  shows "returns (editor_destroy sy p) (\<lambda>(g, t). g = Freed_editor \<and> Q t)"
proof -
  let ?ed = "pr_editor p"
  have "0 < length (fl_buf (fd_query (ed_finder ?ed)))" "ed_kill_ring_len ?ed \<le> length (ed_kill_ring ?ed)"
    using assms(1) by (auto simp: wf_editor_def wf_finder_def wf_field_def FIELD_SIZE_def wf_kill_ring_def)
  moreover from this(2) obtain r where "free_ring (ed_kill_ring ?ed) 0 (ed_kill_ring_len ?ed) = Some r"
    using free_ring_returns [of 0 "ed_kill_ring_len ?ed" "ed_kill_ring ?ed"] by auto
  ultimately show ?thesis
    using assms(2) by (auto simp: editor_destroy_def finder_reset_def field_reset_def store_def elim!: returnsE)
qed

text \<open>The loop changes the editor only, so the modes are restored from what \<open>enable_raw_mode\<close> saved.\<close>

definition modes_of :: "saved \<Rightarrow> terminal \<Rightarrow> sys \<Rightarrow> outcome \<Rightarrow> bool" where
  "modes_of saved tm sy out \<longleftrightarrow>
     (case out of Running p \<Rightarrow> pr_saved p = saved \<and> pr_tm p = tm | Quit p \<Rightarrow> pr_saved p = saved \<and> pr_tm p = tm
      | Died code t \<Rightarrow> die sy (Editor_at saved) tm = Some (code, t))"

interpretation modes: preserving "loop_step sy os hl" "modes_of saved tm sy" for sy os hl saved tm
  by unfold_locales
     (auto simp: modes_of_def loop_step_def loop_turn_def dies_def bind_eq_Some_conv
       split: outcome.splits event.splits if_splits sum.splits)

lemma run_outcome:
  assumes cr: "editor_create sy os arg ws tm = Some (Running p)" and posix: "posix_paths os"
    and rn: "editor_run sy os hl p evs = Some out"
  shows "outcome_inv os out"
proof -
  from rn obtain ed where e: "editor_refresh_screen hl (pr_editor p) = Some ed"
    and r: "run (loop_step sy os hl) (Running (p\<lparr>pr_editor := ed\<rparr>)) evs = Some out"
    by (auto simp: editor_run_def editor_loop_run bind_eq_Some_conv)
  have "key_inv os ed"
    using create_quiet [OF posix cr] redrawnD(1) [OF refresh_redraws [OF e]]
    by (simp add: key_inv_def quiet_inv_def)
  then show ?thesis by (intro outcomes.run_inv [OF _ r]) (simp add: outcome_inv_def)
qed

lemma quit_frees:
  assumes "editor_create sy os arg ws tm = Some (Running p)" "posix_paths os"
    "editor_run sy os hl p evs = Some (Quit q)"
  shows "\<exists>t. editor_destroy sy q = Some (Freed_editor, t)"
proof -
  have "wf_editor (pr_editor q)" using run_outcome [OF assms] by (simp add: outcome_inv_def key_inv_def)
  moreover have "returns (disable_raw_mode sy (Editor_at (pr_saved q)) (pr_tm q)) (\<lambda>t. True)"
    by (simp add: disable_raw_mode_def Let_def)
  ultimately show ?thesis using destroy_restores [of q sy "\<lambda>t. True"] by (auto elim: returnsE)
qed

lemma terminal_restored:
  assumes cr: "editor_create sy os arg ws tm = Some (Running p)" and flags: "0 \<le> sint (tm_flags tm)"
    and posix: "posix_paths os" and rn: "editor_run sy os hl p evs = Some out"
  shows "case out of
      Running q \<Rightarrow> tm_attr (pr_tm q) = raw_termios (tm_attr tm)
    | Quit q \<Rightarrow> returns (editor_destroy sy q) (\<lambda>(g, t). g = Freed_editor \<and> left_raw sy tm t)
    | Died code t \<Rightarrow> code = 1 \<and> left_raw sy tm t"
proof -
  obtain ed saved tm' where en: "enable_raw_mode sy zero_saved tm = (saved, tm', True)"
    "p = \<lparr>pr_editor = ed, pr_saved = saved, pr_tm = tm'\<rparr>"
    using cr by (rule create_Running)
  from rn obtain ed where "run (loop_step sy os hl) (Running (p\<lparr>pr_editor := ed\<rparr>)) evs = Some out"
    by (auto simp: editor_run_def editor_loop_run bind_eq_Some_conv)
  then have m: "modes_of saved tm' sy out"
    by (rule modes.run_inv [rotated]) (simp add: modes_of_def en(2))
  note o' = run_outcome [OF cr posix rn]
  have d: "returns (disable_raw_mode sy (Editor_at saved) tm') (left_raw sy tm)"
    by (rule raw_round_trip [OF en(1) flags])
  show ?thesis
  proof (cases out)
    case (Quit q)
    with o' m d show ?thesis
      using destroy_restores [of q sy "left_raw sy tm"]
      by (simp add: outcome_inv_def key_inv_def modes_of_def)
  qed (use m d enable_modes(2) [OF en(1)] in \<open>auto simp: modes_of_def die_def bind_eq_Some_conv elim!: returnsE\<close>)
qed

text \<open>
  But a start whose window cannot be measured ends in \<open>disable_raw_mode\<close> before raw mode was
  entered: the attributes are set to zero. And \<open>main\<close> runs \<open>disable_raw_mode\<close> once more after the
  editor is freed.
\<close>

lemma no_window_zeroes:
  assumes "sy_restore_attr sy"
  shows "returns (editor_create sy os arg None tm) (\<lambda>out. \<exists>t. out = Died 1 t \<and> tm_attr t = sv_termios zero_saved)"
proof -
  obtain ed where ed: "editor_start os arg = Some ed"
    using editor_start_ok [of os arg] by (auto elim: returnsE)
  with assms show ?thesis
    by (simp add: editor_create_def get_window_size_def dies_def die_def disable_raw_mode_def Let_def)
qed

lemma main_uses_freed_editor:
  assumes "editor_create sy os arg ws tm = Some (Running p)" "editor_run sy os hl p evs = Some (Quit q)"
  shows "main_program sy os hl arg ws tm evs = None"
proof -
  have "g = Freed_editor" if "editor_destroy sy q = Some (g, t)" for g t
    using that by (auto simp: editor_destroy_def Let_def bind_eq_Some_conv)
  with assms show ?thesis
    by (cases "editor_destroy sy q") (auto simp: main_program_def disable_raw_mode_def)
qed

end
