(* ===== verification/Document.thy ===== *)
theory Document
  imports Session
begin

text \<open>
  What the keys promise, without rows, blocks and cursors: a document is one text with a point in it,
  and a key is a function on documents. The editor implements it: \<open>doc\<close> reads the document off an
  editor's state, and a key typed into an idle editor does to the document what \<open>doc_step\<close> says.
  The last part is about the pairs of commands that undo each other.
\<close>

section \<open>Documents\<close>

datatype doc = Doc (d_text: "byte list") (d_point: nat)

definition line_begin :: "byte list \<Rightarrow> nat \<Rightarrow> nat" where
  "line_begin s p = p - length (takeWhile (\<lambda>c. c \<noteq> nl) (rev (take p s)))"

definition line_end :: "byte list \<Rightarrow> nat \<Rightarrow> nat" where
  "line_end s p = p + length (takeWhile (\<lambda>c. c \<noteq> nl) (drop p s))"

text \<open>The end of the character at a position, and the start of the one before it.\<close>

definition next_char :: "byte list \<Rightarrow> nat \<Rightarrow> nat" where
  "next_char s p = (if length s \<le> p then p else if s ! p = nl then p + 1 else next_bnd s p)"

definition prev_char :: "byte list \<Rightarrow> nat \<Rightarrow> nat" where
  "prev_char s p =
     (if p = 0 then 0 else if s ! (p - 1) = nl then p - 1 else max (line_begin s p) (prev_bnd s p))"

fun doc_insert :: "byte list \<Rightarrow> doc \<Rightarrow> doc" where
  "doc_insert xs (Doc s p) = Doc (ins p xs s) (p + length xs)"

text \<open>
  The keys of a document: printable bytes, Return, Tab, \<open>C-a C-b C-d C-e C-f\<close> and \<open>C-o\<close>, which opens
  an empty line above the line of the point.
\<close>

definition doc_key :: "byte \<Rightarrow> bool" where
  "doc_key k \<longleftrightarrow> (32 \<le> k \<and> k \<noteq> 127) \<or> k \<in> {1, 2, 4, 5, 6, 9, 13, 15}"

fun doc_step :: "buffer_mode \<Rightarrow> doc \<Rightarrow> byte \<Rightarrow> doc" where
  "doc_step m (Doc s p) k =
     (if k = 1 then Doc s (line_begin s p)
      else if k = 5 then Doc s (line_end s p)
      else if k = 2 then Doc s (prev_char s p)
      else if k = 6 then Doc s (next_char s p)
      else if k = 4 then Doc (del p (next_char s p) s) p
      else if k = 15 then Doc (ins (line_begin s p) [nl] s) (p + 1)
      else if k = 9 then doc_insert (if m = MAKEFILE_MODE then [9] else [32, 32]) (Doc s p)
      else if k = 13 then doc_insert [nl] (Doc s p)
      else doc_insert [k] (Doc s p))"

section \<open>Positions of a text that is split at a line\<close>

lemma nl_not_continuation [simp]: "\<not> utf8_is_continuation nl"
  by (simp add: utf8_is_continuation_def nl_def)

lemma after_cases: "after B = [] \<or> (\<exists>r. after B = nl # r)"
  by (cases B) auto

lemma before_cases: "rev (before A) = [] \<or> (\<exists>r. rev (before A) = nl # r)"
  by (cases A rule: rev_cases) auto

lemma takeWhile_line:
  assumes "nl \<notin> set l" "r = [] \<or> (\<exists>r'. r = nl # r')"
  shows "takeWhile (\<lambda>c. c \<noteq> nl) (l @ r) = l"
  using assms by (auto simp: takeWhile_all_ne)

lemma takeWhile_stop:
  "\<not> P x \<Longrightarrow> takeWhile P (xs @ x # ys) = takeWhile P xs"
  by (induction xs) auto

text \<open>The text is the flattened lines, and the point is in line \<open>l\<close>, with the lines \<open>A\<close> before and \<open>B\<close> after it.\<close>

definition at_line :: "byte list \<Rightarrow> nat \<Rightarrow> byte list list \<Rightarrow> byte list \<Rightarrow> byte list list \<Rightarrow> nat \<Rightarrow> bool" where
  "at_line s p A l B col \<longleftrightarrow>
     s = before A @ l @ after B \<and> p = length (before A) + col \<and> col \<le> length l \<and> nl \<notin> set l"

lemma at_lineD:
  assumes "at_line s p A l B col"
  shows "s = before A @ l @ after B" "p = length (before A) + col" "col \<le> length l" "nl \<notin> set l"
    "take p s = before A @ take col l" "drop p s = drop col l @ after B"
  using assms by (auto simp: at_line_def)

lemma line_end_eq:
  assumes "at_line s p A l B col"
  shows "line_end s p = length (before A) + length l"
proof -
  note d = at_lineD [OF assms]
  have "takeWhile (\<lambda>c. c \<noteq> nl) (drop p s) = drop col l"
    using takeWhile_line [OF set_drop_sub [OF d(4)] after_cases] by (simp add: d(6))
  then show ?thesis using d(2,3) by (simp add: line_end_def)
qed

lemma line_begin_eq:
  assumes "at_line s p A l B col"
  shows "line_begin s p = length (before A)"
proof -
  note d = at_lineD [OF assms]
  have "nl \<notin> set (rev (take col l))" using d(4) by (simp add: set_take_sub)
  then have "takeWhile (\<lambda>c. c \<noteq> nl) (rev (take p s)) = rev (take col l)"
    using takeWhile_line [OF _ before_cases] by (simp add: d(5))
  then show ?thesis using d(2,3) by (simp add: line_begin_def)
qed

lemma next_char_line:
  assumes a: "at_line s p A l B col" and c: "col < length l"
  shows "next_char s p = length (before A) + next_bnd l col"
proof -
  note d = at_lineD [OF a]
  have n: "s ! p = l ! col" "p < length s" using c by (simp_all add: d(1,2) nth_append)
  then have "s ! p \<noteq> nl" using c d(4) by (metis nth_mem)
  moreover have "drop (Suc p) s = drop (Suc col) l @ after B" using c by (simp add: d(1,2))
  then have "takeWhile utf8_is_continuation (drop (Suc p) s) = takeWhile utf8_is_continuation (drop (Suc col) l)"
    using after_cases [of B] by (auto simp: takeWhile_stop)
  ultimately show ?thesis using n(2) c by (simp add: next_char_def next_bnd_def d(2))
qed

lemma next_char_end:
  "at_line s p A l B col \<Longrightarrow> col = length l \<Longrightarrow> next_char s p = (if B = [] then p else p + 1)"
  by (cases B) (auto simp: at_line_def next_char_def nth_append)

lemma back_bnd_line:
  assumes "at_line s p A l B col"
  shows "c < length l \<Longrightarrow>
    max (length (before A)) (back_bnd s (length (before A) + c)) = length (before A) + back_bnd l c"
proof (induction c)
  case 0
  then show ?case using back_bnd_le [of s "length (before A)"] by simp
next
  case (Suc c)
  then have "s ! (length (before A) + Suc c) = l ! Suc c"
    by (simp add: at_lineD(1) [OF assms] nth_append)
  with Suc show ?case by simp
qed

lemma prev_char_line:
  assumes a: "at_line s p A l B col" and c: "0 < col"
  shows "prev_char s p = length (before A) + prev_bnd l col"
proof -
  note d = at_lineD [OF a]
  obtain c' where c': "col = Suc c'" using c by (cases col) auto
  have "s ! (p - 1) = l ! c'" using c' d(3) by (simp add: d(1,2) nth_append)
  then have "s ! (p - 1) \<noteq> nl" using d(4) c' d(3) by (metis Suc_le_lessD nth_mem)
  then show ?thesis
    using back_bnd_line [OF a, of c'] d(3) line_begin_eq [OF a] by (simp add: prev_char_def prev_bnd_def d(2) c')
qed

lemma prev_char_begin:
  "at_line s p A l B 0 \<Longrightarrow> prev_char s p = (if A = [] then 0 else p - 1)"
  by (cases A rule: rev_cases) (auto simp: at_line_def prev_char_def nth_append)

section \<open>The buffer as a document\<close>

text \<open>No line holds a newline: the loader splits there, and the keys insert none.\<close>

definition clean :: "buffer \<Rightarrow> bool" where
  "clean buf \<longleftrightarrow> (\<forall>l\<in>set (texts buf). nl \<notin> set l)"

definition buffer_doc :: "buffer \<Rightarrow> nat \<Rightarrow> nat \<Rightarrow> doc" where
  "buffer_doc buf row col = Doc (flat (texts buf)) (offset (texts buf) row col)"

text \<open>The operation succeeds, and with the cursor at the position given the document is \<open>d\<close>.\<close>

definition yields :: "buffer \<Rightarrow> buffer option \<Rightarrow> nat \<Rightarrow> nat \<Rightarrow> doc \<Rightarrow> bool" where
  "yields buf m row col d \<longleftrightarrow> returns m (\<lambda>b. wf_buffer b \<and> clean b \<and> b_mode b = b_mode buf \<and>
     in_text (texts b) row col \<and> buffer_doc b row col = d)"

lemma yieldsE:
  assumes "yields buf m row col d"
  obtains b where "m = Some b" "wf_buffer b" "clean b" "b_mode b = b_mode buf" "in_text (texts b) row col"
    "buffer_doc b row col = d"
  using assms unfolding yields_def by (elim returnsE conjE) (rule that)

lemma texts_at:
  "row < line_count buf \<Longrightarrow> texts buf = take row (texts buf) @ ltext buf row # drop (Suc row) (texts buf)"
  using id_take_nth_drop [of row "texts buf"] by simp

lemma drop_texts_at:
  "row < line_count buf \<Longrightarrow> drop row (texts buf) = ltext buf row # drop (Suc row) (texts buf)"
  using Cons_nth_drop_Suc [of row "texts buf"] by simp

lemma at_cursor:
  assumes "in_text (texts buf) row col" "clean buf"
  shows "at_line (flat (texts buf)) (offset (texts buf) row col) (take row (texts buf)) (ltext buf row)
    (drop (Suc row) (texts buf)) col"
proof -
  obtain A l B where s: "texts buf = A @ l # B" "length A = row" "ltext buf row = l" "col \<le> length l"
    "take row (texts buf) = A" "drop (Suc row) (texts buf) = B"
    using assms(1) by (rule texts_split)
  then show ?thesis
    using assms(2) by (simp add: at_line_def flat_split offset_def clean_def)
qed

lemma cleanI: "texts b = U \<Longrightarrow> (\<And>l. l \<in> set U \<Longrightarrow> nl \<notin> set l) \<Longrightarrow> clean b"
  by (simp add: clean_def)

lemma clean_line: "clean buf \<Longrightarrow> row < line_count buf \<Longrightarrow> nl \<notin> set (ltext buf row)"
  by (metis clean_def length_texts nth_mem texts_nth)

lemma insert_char_yields:
  assumes wf: "wf_buffer buf" and cl: "clean buf" and pos: "in_text (texts buf) row col"
    and k: "k \<noteq> 0" "k \<noteq> nl"
  shows "yields buf (buffer_insert_char buf row col k) row (col + 1) (doc_insert [k] (buffer_doc buf row col))"
proof -
  have row: "row < line_count buf" using pos by (simp add: in_text_def)
  obtain b where b: "buffer_insert_char buf row col k = Some b" "wf_buffer b" "b_mode b = b_mode buf"
    using insert_char_mode [OF wf row k(1), of col] by (rule returnsE) simp
  have t: "texts b = (texts buf)[row := take (min col (length (ltext buf row))) (ltext buf row) @ k #
      drop (min col (length (ltext buf row))) (ltext buf row)]"
    using buffer_insert_char_texts [OF wf row k(1), of col] b(1) by simp
  have "clean b"
    using cl clean_line [OF cl row] k(2)
    by (intro cleanI [OF t]) (auto simp: clean_def dest!: set_update_subset_insert [THEN subsetD]
        dest: in_set_takeD in_set_dropD)
  with b ved.put_law [OF wf pos k(1)] show ?thesis
    by (simp add: yields_def buffer_doc_def)
qed

lemma insert_newline_mode:
  assumes "wf_buffer buf" "row < line_count buf" "buffer_insert_newline buf row col = Some b"
  shows "b_mode b = b_mode buf"
  using assms(3) by (auto simp: buffer_insert_newline_eq [OF assms(1,2)] Let_def)

lemma insert_newline_yields:
  assumes wf: "wf_buffer buf" and cl: "clean buf" and pos: "in_text (texts buf) row col"
  shows "yields buf (buffer_insert_newline buf row col) (row + 1) 0 (doc_insert [nl] (buffer_doc buf row col))"
proof -
  have row: "row < line_count buf" using pos by (simp add: in_text_def)
  obtain b where b: "buffer_insert_newline buf row col = Some b" "wf_buffer b"
    "texts b = take row (texts buf) @ [take (min col (length (ltext buf row))) (ltext buf row),
       drop (min col (length (ltext buf row))) (ltext buf row)] @ drop (Suc row) (texts buf)"
    using buffer_insert_newline_texts [OF wf row, of col] by (rule returnsE) simp
  have "clean b"
    using cl clean_line [OF cl row]
    by (intro cleanI [OF b(3)]) (auto simp: clean_def dest: in_set_takeD in_set_dropD)
  with b insert_newline_mode [OF wf row b(1)] ved.brk_law [OF wf pos] show ?thesis
    by (simp add: yields_def buffer_doc_def)
qed

lemma open_line_yields:
  assumes wf: "wf_buffer buf" and cl: "clean buf" and pos: "in_text (texts buf) row col"
    and d: "buffer_doc buf row col = Doc s p"
  shows "yields buf (buffer_insert_newline buf row 0) (row + 1) col (Doc (ins (line_begin s p) [nl] s) (p + 1))"
proof -
  have row: "row < line_count buf" using pos by (simp add: in_text_def)
  have pos0: "in_text (texts buf) row 0" using row by (simp add: in_text_def)
  obtain b where b: "buffer_insert_newline buf row 0 = Some b" "wf_buffer b"
    "texts b = take row (texts buf) @ [[], ltext buf row] @ drop (Suc row) (texts buf)"
    using buffer_insert_newline_texts [OF wf row, of 0] by (rule returnsE) simp
  have "clean b"
    using cl clean_line [OF cl row]
    by (intro cleanI [OF b(3)]) (auto simp: clean_def dest: in_set_takeD in_set_dropD)
  moreover have "line_begin s p = offset (texts buf) row 0"
    using line_begin_eq [OF at_cursor [OF pos cl]] d by (simp add: buffer_doc_def offset_def)
  moreover have "in_text (texts b) (row + 1) col" "offset (texts b) (row + 1) col = p + 1"
    using b(3) row pos d by (auto simp: in_text_def nth_append offset_def buffer_doc_def)
  moreover have "flat (texts b) = ins (offset (texts buf) row 0) [nl] (flat (texts buf))"
    using ved.brk_law [OF wf pos0] b(1) by simp
  ultimately show ?thesis
    using b d insert_newline_mode [OF wf row b(1)] by (simp add: yields_def buffer_doc_def)
qed

lemma insert_tab_yields:
  assumes wf: "wf_buffer buf" and cl: "clean buf" and pos: "in_text (texts buf) row col"
  shows "yields buf (buffer_insert_tab buf row col) row (col + (if b_mode buf = MAKEFILE_MODE then 1 else 2))
    (doc_insert (if b_mode buf = MAKEFILE_MODE then [9] else [32, 32]) (buffer_doc buf row col))"
proof (cases "b_mode buf = MAKEFILE_MODE")
  case True
  with insert_char_yields [OF wf cl pos, of 9] show ?thesis by (simp add: buffer_insert_tab_def nl_def)
next
  case False
  have i: "i \<le> length s \<Longrightarrow> ins (i + 1) [32] (ins i [32] s) = ins i [32, 32] s" for i and s :: "byte list"
    using ins_append [of i s "[32]" "[32]"] by simp
  obtain b where b: "buffer_insert_char buf row col 32 = Some b" "wf_buffer b" "clean b" "b_mode b = b_mode buf"
    "in_text (texts b) row (col + 1)" "buffer_doc b row (col + 1) = doc_insert [32] (buffer_doc buf row col)"
    by (rule yieldsE [OF insert_char_yields [OF wf cl pos, of 32]]) (simp_all add: nl_def)
  from insert_char_yields [OF b(2,3,5), of 32] False b(1,4,6) show ?thesis
    using offset_le_length [OF pos]
    by (simp add: buffer_insert_tab_def nl_def yields_def) (simp add: buffer_doc_def i [simplified])
qed

lemma join_yields:
  assumes wf: "wf_buffer buf" and cl: "clean buf" and row: "Suc row < line_count buf"
    and col: "col = length (ltext buf row)"
  shows "yields buf (join_rows buf row) row col
    (Doc (del (offset (texts buf) row col) (offset (texts buf) row col + 1) (flat (texts buf)))
       (offset (texts buf) row col))"
proof -
  obtain b where b: "join_rows buf row = Some b" "wf_buffer b"
    "texts b = take row (texts buf) @ [ltext buf row @ ltext buf (Suc row)] @ drop (row + 2) (texts buf)"
    using join_rows_texts [OF wf row] by (rule returnsE) simp
  have "clean b"
    using cl clean_line [OF cl, of row] clean_line [OF cl row] row
    by (intro cleanI [OF b(3)]) (auto simp: clean_def dest: in_set_takeD in_set_dropD)
  moreover have "b_mode b = b_mode buf"
    using b(1) by (auto simp: join_rows_eq [OF wf row])
  moreover have t: "texts buf = take row (texts buf) @ ltext buf row # [] @ ltext buf (Suc row) # drop (row + 2) (texts buf)"
    using texts_at [of row buf] drop_texts_at [OF row] row by simp
  have "flat (texts b) = del (offset (texts buf) row col) (offset (texts buf) (Suc row) 0) (flat (texts buf))"
    using flat_cut_rows [OF t, of row "Suc row" col 0] row col b(3) by simp
  moreover have "offset (texts buf) (Suc row) 0 = offset (texts buf) row col + 1"
    using offset_Suc_row [of row "texts buf"] row col by simp
  moreover have "in_text (texts b) row col" "offset (texts b) row col = offset (texts buf) row col"
    using b(3) row col by (auto simp: in_text_def nth_append offset_def)
  ultimately show ?thesis using b by (simp add: yields_def buffer_doc_def)
qed

lemma cut_yields:
  assumes wf: "wf_buffer buf" and cl: "clean buf" and row: "row < line_count buf"
    and ij: "i < j" "j \<le> length (ltext buf row)"
    and c: "c \<le> length (ltext buf row) - (j - i)"
  shows "yields buf (Some (set_line buf row (cut_block (b_lines buf ! row) i j))) row c
    (Doc (del (offset (texts buf) row i) (offset (texts buf) row j) (flat (texts buf))) (offset (texts buf) row c))"
proof -
  let ?b = "set_line buf row (cut_block (b_lines buf ! row) i j)"
  let ?l = "take i (ltext buf row) @ drop j (ltext buf row)"
  have t: "texts ?b = (texts buf)[row := ?l]" using row by (simp add: ltext_def)
  have "clean ?b"
    using cl clean_line [OF cl row]
    by (intro cleanI [OF t]) (auto simp: clean_def dest!: set_update_subset_insert [THEN subsetD]
        dest: in_set_takeD in_set_dropD)
  moreover have s: "texts buf = take row (texts buf) @ ltext buf row # drop (Suc row) (texts buf)"
    using row by (rule texts_at)
  have "flat (texts ?b) = del (offset (texts buf) row i) (offset (texts buf) row j) (flat (texts buf))"
    using flat_cut [OF s, of row i j] ij row unfolding t by (simp add: upd_conv_take_nth_drop)
  moreover have "in_text (texts ?b) row c" "offset (texts ?b) row c = offset (texts buf) row c"
    using row ij c by (simp_all add: t in_text_def offset_def del: texts_set_line)
  moreover have "b_mode ?b = b_mode buf" by (simp add: set_line_def)
  ultimately show ?thesis using wf by (simp add: yields_def buffer_doc_def wf_set_line)
qed

lemma delete_forward_yields:
  assumes wf: "wf_buffer buf" and cl: "clean buf" and pos: "in_text (texts buf) row col"
    and d: "buffer_doc buf row col = Doc s p"
  shows "yields buf (buffer_delete_forward buf row col) row col (Doc (del p (next_char s p) s) p)"
proof -
  note a = at_cursor [OF pos cl]
  have row: "row < line_count buf" and col: "col \<le> length (ltext buf row)" using pos by (auto simp: in_text_def)
  have sp: "s = flat (texts buf)" "p = offset (texts buf) row col" using d by (simp_all add: buffer_doc_def)
  consider "col < length (ltext buf row)" | "col = length (ltext buf row)" "Suc row < line_count buf"
    | "col = length (ltext buf row)" "Suc row = line_count buf"
    using col row by linarith
  then show ?thesis
  proof cases
    case 1
    have n: "next_char s p = offset (texts buf) row (next_bnd (ltext buf row) col)"
      using next_char_line [OF a 1] by (simp add: sp offset_def)
    show ?thesis
      using cut_yields [OF wf cl row next_bnd_greater [OF 1] next_bnd_le, of col] 1
        next_bnd_greater [OF 1] next_bnd_le [of "ltext buf row" col]
      by (simp add: buffer_delete_forward_eq [OF wf row 1] Let_def n [unfolded sp] sp)
  next
    case 2
    then have "next_char s p = p + 1" using next_char_end [OF a] by (simp add: sp)
    with join_yields [OF wf cl 2(2,1)] 2 show ?thesis
      by (simp add: buffer_delete_forward_join [OF wf row] join_rows_eq [OF wf] sp)
  next
    case 3
    then have "next_char s p = p" using next_char_end [OF a] by (simp add: sp)
    with 3 wf cl pos show ?thesis
      by (simp add: buffer_delete_forward_join [OF wf row] yields_def buffer_doc_def sp del_def)
  qed
qed

text \<open>
  Backspace deletes the character before the point; at the start of a line it joins the line to the
  one before, and the cursor of the document is then in the middle of the merged line.
\<close>

lemma delete_char_yields:
  assumes wf: "wf_buffer buf" and cl: "clean buf" and pos: "in_text (texts buf) row col"
    and d: "buffer_doc buf row col = Doc s p" and p: "0 < p"
  shows "\<exists>row' col'. yields buf (buffer_delete_char buf row col) row' col'
    (Doc (del (prev_char s p) p s) (prev_char s p)) \<and>
    (if col = 0 then Suc row' = row \<and> col' = length (ltext buf row')
     else row' = row \<and> col' = prev_bnd (ltext buf row) col)"
proof -
  note a = at_cursor [OF pos cl]
  have row: "row < line_count buf" and col: "col \<le> length (ltext buf row)" using pos by (auto simp: in_text_def)
  have sp: "s = flat (texts buf)" "p = offset (texts buf) row col" using d by (simp_all add: buffer_doc_def)
  show ?thesis
  proof (cases "col = 0")
    case False
    then have c: "0 < col" by simp
    let ?i = "prev_bnd (ltext buf row) col"
    have i: "?i < col" using c by (rule prev_bnd_less)
    have n: "prev_char s p = offset (texts buf) row ?i"
      using prev_char_line [OF a c] by (simp add: sp offset_def)
    have "yields buf (buffer_delete_char buf row col) row ?i (Doc (del (prev_char s p) p s) (prev_char s p))"
      using cut_yields [OF wf cl row i col, of ?i] i col
      by (simp add: buffer_delete_char_eq [OF wf row c] Let_def n [unfolded sp] sp min_absorb1)
    with False show ?thesis by auto
  next
    case True
    then have "row \<noteq> 0" using p by (cases row) (auto simp: sp offset_def)
    then obtain r where r: "row = Suc r" by (cases row) auto
    let ?c = "length (ltext buf r)"
    have o: "p = offset (texts buf) r ?c + 1"
      using offset_Suc_row [of r "texts buf"] row by (simp add: sp True r)
    have "take row (texts buf) \<noteq> []" using row r length_texts [of buf] by (auto simp del: length_texts)
    then have n: "prev_char s p = p - 1"
      using prev_char_begin [of s p] a True by (auto simp: sp)
    have "yields buf (buffer_delete_char buf row col) r ?c (Doc (del (prev_char s p) p s) (prev_char s p))"
      using join_yields [OF wf cl row [unfolded r] refl]
      by (simp add: True r buffer_delete_char_join [OF wf row [unfolded r]]
          join_rows_eq [OF wf row [unfolded r], simplified] n) (simp add: o sp(1))
    with True r show ?thesis by auto
  qed
qed

section \<open>Moves\<close>

definition moves_to :: "buffer \<Rightarrow> frame option \<Rightarrow> doc \<Rightarrow> bool" where
  "moves_to buf m d \<longleftrightarrow>
     returns m (\<lambda>fr. in_text (texts buf) (f_row fr) (f_col fr) \<and> buffer_doc buf (f_row fr) (f_col fr) = d)"

lemma moves_yield:
  assumes wf: "wf_buffer buf" and cl: "clean buf" and pos: "in_text (texts buf) (f_row fr) (f_col fr)"
    and d: "buffer_doc buf (f_row fr) (f_col fr) = Doc s p"
  shows "moves_to buf (Some (frame_move_line_start fr)) (Doc s (line_begin s p))"
    "moves_to buf (frame_move_line_end buf fr) (Doc s (line_end s p))"
    "moves_to buf (frame_move_next_char buf fr) (Doc s (next_char s p))"
    "moves_to buf (frame_move_prev_char buf fr) (Doc s (prev_char s p))"
proof -
  let ?row = "f_row fr" and ?col = "f_col fr"
  let ?l = "ltext buf ?row"
  note a = at_cursor [OF pos cl]
  have row: "?row < line_count buf" and col: "?col \<le> length ?l" using pos by (auto simp: in_text_def)
  have sp: "s = flat (texts buf)" "p = offset (texts buf) ?row ?col" using d by (simp_all add: buffer_doc_def)
  have b: "load_line buf ?row = Some (b_lines buf ! ?row)" "line_length buf ?row = Some (length ?l)"
    using row wf by (simp_all add: mem_simps)
  show "moves_to buf (Some (frame_move_line_start fr)) (Doc s (line_begin s p))"
    using row line_begin_eq [OF a]
    by (simp add: moves_to_def frame_move_line_start_def in_text_def buffer_doc_def offset_def sp)
  show "moves_to buf (frame_move_line_end buf fr) (Doc s (line_end s p))"
    using row line_end_eq [OF a] b
    by (simp add: moves_to_def frame_move_line_end_def in_text_def buffer_doc_def sp) (simp add: offset_def)
  show "moves_to buf (frame_move_next_char buf fr) (Doc s (next_char s p))"
  proof (cases "?col < length ?l")
    case True
    then show ?thesis
      using row next_char_line [OF a True] b next_boundary_line [OF wf row] next_bnd_le [of ?l]
      by (simp add: moves_to_def frame_move_next_char_def in_text_def buffer_doc_def sp) (simp add: offset_def)
  next
    case False
    then show ?thesis
      using row col next_char_end [OF a] b offset_Suc_row [of ?row "texts buf"]
      by (auto simp: moves_to_def frame_move_next_char_def in_text_def buffer_doc_def sp)
  qed
  show "moves_to buf (frame_move_prev_char buf fr) (Doc s (prev_char s p))"
  proof (cases "?col = 0")
    case False
    then show ?thesis
      using row prev_char_line [OF a] b prev_boundary_line [OF wf row col] prev_bnd_le [of ?l ?col] col
      by (simp add: moves_to_def frame_move_prev_char_def in_text_def buffer_doc_def sp) (simp add: offset_def)
  next
    case True
    show ?thesis
    proof (cases "?row")
      case 0
      with True row a show ?thesis
        by (simp add: moves_to_def frame_move_prev_char_def in_text_def buffer_doc_def sp)
          (simp add: offset_def prev_char_def)
    next
      case (Suc r)
      have "take ?row (texts buf) \<noteq> []" using row Suc length_texts [of buf] by (auto simp del: length_texts)
      then have "prev_char s p = p - 1" using prev_char_begin [of s p] a True by (auto simp: sp)
      moreover have "line_length buf r = Some (length (ltext buf r))" using row Suc wf by (simp add: mem_simps)
      ultimately show ?thesis
        using row offset_Suc_row [of r "texts buf"] True Suc
        by (simp add: moves_to_def frame_move_prev_char_def in_text_def buffer_doc_def sp)
    qed
  qed
qed

section \<open>The editor as a document\<close>

text \<open>No escape sequence, search, prompt, finder or \<open>C-x\<close> is under way: a key goes to the switch.\<close>

definition idle :: "editor \<Rightarrow> bool" where
  "idle ed \<longleftrightarrow> ed_esc_state ed = ESC_NONE \<and> \<not> ed_prompt_active ed \<and> \<not> ed_isearch_active ed \<and>
     \<not> fd_active (ed_finder ed) \<and> \<not> ed_pending_ctrl_x ed"

definition ready :: "editor \<Rightarrow> bool" where
  "ready ed \<longleftrightarrow> wf_editor ed \<and> calm ed \<and> idle ed \<and> clean (ed_buffer ed)"

definition doc :: "editor \<Rightarrow> doc" where
  "doc ed = buffer_doc (ed_buffer ed) (cur_row ed) (cur_col ed)"

lemma ctrl_keys:
  "ctrl_key 97 = 1" "ctrl_key 98 = 2" "ctrl_key 99 = 3" "ctrl_key 100 = 4" "ctrl_key 101 = 5"
  "ctrl_key 102 = 6" "ctrl_key 103 = 7" "ctrl_key 104 = 8" "ctrl_key 107 = 11" "ctrl_key 110 = 14"
  "ctrl_key 111 = 15" "ctrl_key 112 = 16" "ctrl_key 114 = 18" "ctrl_key 115 = 19" "ctrl_key 119 = 23"
  "ctrl_key 120 = 24" "ctrl_key 121 = 25"
  by (simp_all add: ctrl_key_def)

lemma readyD:
  assumes "ready ed"
  shows "wf_editor ed" "calm ed" "idle ed" "clean (ed_buffer ed)" "wf_buffer (ed_buffer ed)"
    "in_text (texts (ed_buffer ed)) (cur_row ed) (cur_col ed)" "\<not> ed_isearch_active ed"
  using assms calm_text wf_editorD(1) by (auto simp: ready_def idle_def)

lemma process_key_idle:
  assumes "idle ed" "key \<notin> {7, 18, 19, 27}"
  shows "editor_process_key os ed key =
    do { (ed, rk, ry) \<leftarrow> editor_switch ed key True True; Some (editor_done rk ry ed) }"
  using assms by (simp add: editor_process_key_def editor_key_def isearch_handle_key_def editor_command_def
      idle_def ctrl_keys)

lemma idle_other [simp]:
  "idle (editor_done rk ry ed) = idle ed" "idle (mark_dirty ed) = idle ed" "idle (set_cursor r c ed) = idle ed"
  "idle (ed\<lparr>ed_buffer := b\<rparr>) = idle ed" "idle (ed\<lparr>ed_frame := f\<rparr>) = idle ed"
  "idle (ed\<lparr>ed_last_was_kill := k\<rparr>) = idle ed" "idle (ed\<lparr>ed_last_was_yank := k\<rparr>) = idle ed"
  by (simp_all add: idle_def editor_done_def Let_def mark_dirty_def set_cursor_def)

lemma clean_dirty [simp]: "clean (b\<lparr>b_syntax_dirty := d\<rparr>) = clean b"
  by (simp add: clean_def)

lemma ready_done: "ready e \<Longrightarrow> ready (editor_done rk ry e)"
  using wf_done by (simp add: ready_def editor_done_def Let_def)

lemma doc_other [simp]: "doc (editor_done rk ry ed) = doc ed"
  "ed_buffer (editor_done rk ry ed) = ed_buffer ed"
  "doc (ed\<lparr>ed_last_was_kill := k\<rparr>) = doc ed" "doc (ed\<lparr>ed_last_was_yank := k\<rparr>) = doc ed"
  by (simp_all add: doc_def editor_done_def Let_def)

text \<open>The editor's state after an edit and after a move.\<close>

lemma edit_ready:
  assumes r: "ready ed" and b: "wf_buffer b" "clean b" "in_text (texts b) row col" "buffer_doc b row col = d"
  shows "ready (mark_dirty (set_cursor row col (ed\<lparr>ed_buffer := b\<rparr>))) \<and>
    doc (mark_dirty (set_cursor row col (ed\<lparr>ed_buffer := b\<rparr>))) = d"
proof -
  note rd = readyD [OF r]
  have "kept ed (mark_dirty (set_cursor row col (ed\<lparr>ed_buffer := b\<rparr>)))"
    using b(3) by (intro set_cursor_kept [OF rd(1,7) b(1)]) (auto simp: in_text_def)
  then show ?thesis
    using rd(2,3) b by (simp add: ready_def kept_def doc_def) (simp add: mark_dirty_def set_cursor_def buffer_doc_def)
qed

lemma move_ready:
  assumes r: "ready ed" and g: "in_text (texts (ed_buffer ed)) (f_row g) (f_col g)"
  shows "ready (ed\<lparr>ed_frame := g\<rparr>)"
proof -
  note rd = readyD [OF r]
  have "good_cursor (ed_buffer ed) g" using g by (simp add: good_cursor_in_text)
  then have "kept ed (ed\<lparr>ed_buffer := ed_buffer ed, ed_frame := g\<rparr>)"
    by (intro edit_and_move_kept [OF rd(1,7,5)] good_cursor_row)
  then show ?thesis using rd(2-4) by (simp add: ready_def kept_def)
qed

text \<open>The command succeeds, the editor stays ready, and its document is then \<open>d\<close>.\<close>

definition does :: "editor \<Rightarrow> editor option \<Rightarrow> doc \<Rightarrow> bool" where
  "does ed m d \<longleftrightarrow> returns m (\<lambda>e. ready e \<and> doc e = d \<and> b_mode (ed_buffer e) = b_mode (ed_buffer ed))"

lemma does_done:
  "does ed m d \<Longrightarrow> does ed (Option.bind m (\<lambda>e. Some (editor_done rk ry e))) d"
  by (auto simp: does_def ready_done elim!: returns_mono)

lemma edit_does:
  assumes "ready ed" "yields (ed_buffer ed) m row col d"
  shows "does ed (Option.bind (with_buffer ed m) (\<lambda>e. Some (mark_dirty (set_cursor row col e)))) d"
  using assms(2)
proof (rule yieldsE)
  fix b assume b: "m = Some b" "wf_buffer b" "clean b" "b_mode b = b_mode (ed_buffer ed)"
    "in_text (texts b) row col" "buffer_doc b row col = d"
  with edit_ready [OF assms(1) b(2,3,5,6)] show ?thesis
    by (simp add: does_def with_buffer_def) (simp add: mark_dirty_def set_cursor_def)
qed

lemma move_does:
  assumes r: "ready ed" and m: "moves_to (ed_buffer ed) m d"
  shows "does ed (with_frame ed m) d"
  using m move_ready [OF r] unfolding moves_to_def does_def with_frame_def
  by (elim returnsE) (simp add: doc_def)

lemma switch_does:
  assumes "ready ed" "k \<notin> {7, 18, 19, 27}"
    and "editor_switch ed k True True = Option.bind m (\<lambda>e. Some (e, True, True))" "does ed m d"
  shows "does ed (editor_process_key os ed k) d"
  using does_done [OF assms(4), of True True]
  by (simp add: process_key_idle [OF readyD(3) [OF assms(1)] assms(2)] assms(3))

lemma key_insert_does:
  assumes r: "ready ed" and k: "32 \<le> k" "k \<noteq> 127"
  shows "does ed (key_insert ed k) (doc_insert [k] (doc ed))"
proof -
  note rd = readyD [OF r]
  have "k \<noteq> 0" "k \<noteq> nl" using k by (auto simp: nl_def)
  from insert_char_yields [OF rd(5,4,6) this]
  have "does ed (Option.bind (with_buffer ed (buffer_insert_char (ed_buffer ed) (cur_row ed) (cur_col ed) k))
      (\<lambda>e. Some (mark_dirty (set_cursor (cur_row ed) (cur_col ed + 1) e)))) (doc_insert [k] (doc ed))"
    unfolding doc_def by (rule edit_does [OF r])
  then show ?thesis using k by (simp add: key_insert_def KEY_BACKSPACE_def with_buffer_def Let_def)
qed

lemma key_does:
  assumes r: "ready ed" and k: "doc_key k"
  shows "does ed (editor_process_key os ed k) (doc_step (b_mode (ed_buffer ed)) (doc ed) k)"
proof -
  note rd = readyD [OF r]
  obtain s p where d: "doc ed = Doc s p" by (cases "doc ed")
  note d' = d [unfolded doc_def]
  note mv = moves_yield [OF rd(5,4,6) d']
  note sw = editor_switch_def ctrl_keys KEY_BACKSPACE_def
  consider "32 \<le> k" "k \<noteq> 127" | "k = 1" | "k = 2" | "k = 4" | "k = 5" | "k = 6" | "k = 9" | "k = 13" | "k = 15"
    using k unfolding doc_key_def by blast
  then show ?thesis
  proof cases
    case 1
    then have n: "k \<notin> {0, 1, 2, 4, 5, 6, 7, 9, 11, 13, 14, 15, 16, 18, 19, 23, 24, 25, 27}" by (auto simp: word_le_nat_alt)
    show ?thesis
      using switch_does [OF r, of k "key_insert ed k"] key_insert_does [OF r 1] 1 n by (simp add: sw d)
  next
    case 2
    then show ?thesis using mv(1) by (intro switch_does [OF r _ _ move_does [OF r]]) (simp_all add: sw d)
  next
    case 3
    then show ?thesis using mv(4) by (intro switch_does [OF r _ _ move_does [OF r]]) (simp_all add: sw d)
  next
    case 5
    then show ?thesis using mv(2) by (intro switch_does [OF r _ _ move_does [OF r]]) (simp_all add: sw d)
  next
    case 6
    then show ?thesis using mv(3) by (intro switch_does [OF r _ _ move_does [OF r]]) (simp_all add: sw d)
  next
    case 4
    have "does ed (key_delete ed) (Doc (del p (next_char s p) s) p)"
      using edit_does [OF r delete_forward_yields [OF rd(5,4,6) d']]
      by (simp add: key_delete_def with_buffer_def set_cursor_def frame_eta)
    with 4 show ?thesis by (intro switch_does [OF r, of k]) (simp_all add: sw d)
  next
    case 7
    have tab: "does ed (key_tab ed)
        (doc_insert (if b_mode (ed_buffer ed) = MAKEFILE_MODE then [9] else [32, 32]) (Doc s p))"
    proof (rule yieldsE [OF insert_tab_yields [OF rd(5,4,6)]])
      fix b assume b: "buffer_insert_tab (ed_buffer ed) (cur_row ed) (cur_col ed) = Some b"
        "b_mode b = b_mode (ed_buffer ed)"
      show ?thesis
        using edit_does [OF r insert_tab_yields [OF rd(5,4,6)]] d' b
        by (simp add: key_tab_def with_buffer_def del: doc_insert.simps)
    qed
    with 7 tab show ?thesis by (intro switch_does [OF r, of k]) (simp_all add: sw d)
  next
    case 8
    have "does ed (key_newline ed) (doc_insert [nl] (Doc s p))"
      using edit_does [OF r insert_newline_yields [OF rd(5,4,6)]] d'
      by (simp add: key_newline_def with_buffer_def)
    with 8 show ?thesis by (intro switch_does [OF r, of k]) (simp_all add: sw d)
  next
    case 9
    have "does ed (key_open_line ed) (Doc (ins (line_begin s p) [nl] s) (p + 1))"
      using edit_does [OF r open_line_yields [OF rd(5,4,6) d']]
      by (simp add: key_open_line_def with_buffer_def)
    with 9 show ?thesis by (intro switch_does [OF r, of k]) (simp_all add: sw d)
  qed
qed

section \<open>Runs of keys\<close>

text \<open>
  A machine that does not fail on the inputs allowed and is seen from outside as another one: the
  abstraction of the state after a run is the abstract machine's state after it.
\<close>

locale simulation =
  fixes step :: "'s \<Rightarrow> 'e \<Rightarrow> 's option" and allowed :: "'e \<Rightarrow> bool" and inv :: "'s \<Rightarrow> bool"
    and abs :: "'s \<Rightarrow> 'a" and astep :: "'a \<Rightarrow> 'e \<Rightarrow> 'a"
  assumes sim_step: "inv s \<Longrightarrow> allowed e \<Longrightarrow> returns (step s e) (\<lambda>s'. inv s' \<and> abs s' = astep (abs s) e)"
begin

lemma run_sim:
  "inv s \<Longrightarrow> list_all allowed es \<Longrightarrow> returns (run step s es) (\<lambda>s'. inv s' \<and> abs s' = foldl astep (abs s) es)"
proof (induction es arbitrary: s)
  case (Cons e es)
  from sim_step [OF Cons.prems(1)] Cons.prems(2)
  obtain s' where s': "step s e = Some s'" "inv s'" "abs s' = astep (abs s) e" by (auto elim: returnsE)
  from Cons.IH [OF s'(2)] Cons.prems(2) s'(1,3) show ?case by simp
qed simp

end

interpretation keyboard: simulation "editor_process_key os" doc_key
  "\<lambda>ed. ready ed \<and> b_mode (ed_buffer ed) = m" doc "doc_step m" for os m
  by unfold_locales (auto intro!: returns_mono [OF key_does [unfolded does_def]])

lemma typing:
  assumes "ready ed" "list_all doc_key keys"
  shows "returns (process_keys os ed keys) (\<lambda>e. ready e \<and> b_mode (ed_buffer e) = b_mode (ed_buffer ed) \<and>
    doc e = foldl (doc_step (b_mode (ed_buffer ed))) (doc ed) keys)"
  using keyboard.run_sim [of ed "b_mode (ed_buffer ed)" keys os] assms by (simp add: process_keys_def)

section \<open>Killing and yanking\<close>

lemma doc_insert_append:
  "p \<le> length s \<Longrightarrow> doc_insert ys (doc_insert xs (Doc s p)) = doc_insert (xs @ ys) (Doc s p)"
  by (simp add: ins_append)

lemma type_bytes_yields:
  "wf_buffer buf \<Longrightarrow> clean buf \<Longrightarrow> in_text (texts buf) row col \<Longrightarrow> 0 \<notin> set data \<Longrightarrow>
   returns (type_bytes buffer_insert_char buffer_insert_newline buf row col data)
     (\<lambda>(b, row', col'). wf_buffer b \<and> clean b \<and> b_mode b = b_mode buf \<and> in_text (texts b) row' col' \<and>
        buffer_doc b row' col' = doc_insert data (buffer_doc buf row col))"
proof (induction data arbitrary: buf row col)
  case Nil
  then show ?case by (simp add: buffer_doc_def)
next
  case (Cons k data)
  note le = offset_le_length [OF Cons.prems(3)]
  have i: "doc_insert data (doc_insert [k] (buffer_doc buf row col)) = doc_insert (k # data) (buffer_doc buf row col)"
    using doc_insert_append [OF le, of data "[k]"] by (simp add: buffer_doc_def)
  show ?case
  proof (cases "k = nl")
    case True
    from Cons.prems(1-3) show ?thesis
    proof (rule yieldsE [OF insert_newline_yields])
      fix b assume b: "buffer_insert_newline buf row col = Some b" "wf_buffer b" "clean b"
        "b_mode b = b_mode buf" "in_text (texts b) (row + 1) 0"
        "buffer_doc b (row + 1) 0 = doc_insert [nl] (buffer_doc buf row col)"
      from Cons.IH [OF b(2,3,5)] Cons.prems(4) b(1,4,6) i True show ?thesis by simp
    qed
  next
    case False
    from Cons.prems(1-3) show ?thesis
    proof (rule yieldsE [OF insert_char_yields])
      fix b assume b: "buffer_insert_char buf row col k = Some b" "wf_buffer b" "clean b"
        "b_mode b = b_mode buf" "in_text (texts b) row (col + 1)"
        "buffer_doc b row (col + 1) = doc_insert [k] (buffer_doc buf row col)"
      from Cons.IH [OF b(2,3,5)] Cons.prems(4) b(1,4,6) i False show ?thesis by simp
    qed (use False Cons.prems(4) in auto)
  qed
qed

lemma wf_yanked: "wf_editor ed \<Longrightarrow> idle ed \<Longrightarrow> wf_editor (ed\<lparr>ed_last_was_yank := True\<rparr>)"
  by (auto simp: state_defs idle_def)

lemma yank_does:
  assumes r: "ready ed" and ring: "0 < ed_kill_ring_len ed"
  shows "does ed (editor_process_key os ed 25) (doc_insert (kill_top ed) (doc ed))"
proof -
  note rd = readyD [OF r]
  let ?i = "ed_kill_ring_index ed"
  obtain b where b: "ed_kill_ring ed ! ?i = Some b" "wf_block b" "?i < length (ed_kill_ring ed)"
    using wf_editorD(6) [OF rd(1)] ring by (auto simp: wf_kill_ring_def)
  then have top: "kill_top ed = cstr b" using ring by (simp add: kill_top_def)
  obtain buf row col where t: "type_bytes buffer_insert_char buffer_insert_newline (ed_buffer ed) (cur_row ed)
      (cur_col ed) (cstr b) = Some (buf, row, col)" "wf_buffer buf" "clean buf"
      "b_mode buf = b_mode (ed_buffer ed)" "in_text (texts buf) row col"
      "buffer_doc buf row col = doc_insert (cstr b) (doc ed)"
    using type_bytes_yields [OF rd(5,4,6), of "cstr b"] by (auto simp: doc_def elim: returnsE)
  let ?e = "mark_dirty ((set_cursor row col ed)\<lparr>ed_buffer := buf, ed_yank_start_row := cur_row ed,
      ed_yank_start_col := cur_col ed, ed_yank_end_row := row, ed_yank_end_col := col\<rparr>)"
  have y: "editor_yank ed = Some (?e, True)"
    using ring b t(1) by (simp add: editor_yank_def editor_yank_from_def mem_simps)
  have b': "ed_buffer ?e = buf\<lparr>b_syntax_dirty := True\<rparr>" "cur_row ?e = row" "cur_col ?e = col"
    by (simp_all add: mark_dirty_def set_cursor_def)
  have id: "idle ?e" using rd(3) by (simp add: idle_def mark_dirty_def set_cursor_def)
  have "kept ed ?e" using editor_yank_ok [OF rd(1,7)] y by simp
  then have w: "wf_editor ?e" "calm ?e" using rd(2) by (auto simp: kept_def)
  have e: "ready (?e\<lparr>ed_last_was_yank := True\<rparr>)"
    unfolding ready_def using wf_yanked [OF w(1)] w(2) id t(3) by (simp add: b'(1))
  have d: "doc (?e\<lparr>ed_last_was_yank := True\<rparr>) = doc_insert (cstr b) (doc ed)"
    using t(6) unfolding doc_other by (simp add: doc_def b' buffer_doc_def) (simp add: set_cursor_def)
  have "editor_switch ed 25 True True = Some (?e\<lparr>ed_last_was_yank := True\<rparr>, True, False)"
    by (simp add: editor_switch_def ctrl_keys y)
  then have "editor_process_key os ed 25 = Some (editor_done True False (?e\<lparr>ed_last_was_yank := True\<rparr>))"
    by (simp add: process_key_idle [OF rd(3)])
  with ready_done [OF e, of True False] d t(4) show ?thesis
    by (simp add: does_def top b'(1) del: mark_dirty_sel)
qed

lemma idle_ring: "ring_only ed e \<Longrightarrow> idle e = idle ed"
  by (auto simp: ring_only_def idle_def)

lemma kill_top_ring: "kill_top ed \<noteq> [] \<Longrightarrow> 0 < ed_kill_ring_len ed"
  by (auto simp: kill_top_def split: if_splits)

lemma kill_top_flags [simp]: "kill_top (editor_done rk ry ed) = kill_top ed"
  "kill_top (ed\<lparr>ed_last_was_kill := k\<rparr>) = kill_top ed" "kill_top (say msg ed) = kill_top ed"
  by (simp_all add: kill_top_def editor_done_def Let_def say_def status_def)

text \<open>\<open>C-k\<close> in a line: the text from the point to the end of the line goes to the kill ring.\<close>

lemma kill_line_does:
  assumes r: "ready ed" and d: "doc ed = Doc s p" and in_line: "p < line_end s p"
  shows "returns (editor_kill_line ed) (\<lambda>e. ready e \<and> doc e = Doc (del p (line_end s p) s) p \<and>
    kill_top e = (if ed_last_was_kill ed then kill_top ed else []) @ slice p (line_end s p) s \<and>
    b_mode (ed_buffer e) = b_mode (ed_buffer ed))"
proof -
  note rd = readyD [OF r]
  note a = at_cursor [OF rd(6,4)]
  let ?row = "cur_row ed" and ?col = "cur_col ed"
  let ?l = "ltext (ed_buffer ed) ?row"
  have row: "?row < line_count (ed_buffer ed)" using rd(6) by (simp add: in_text_def)
  have sp: "s = flat (texts (ed_buffer ed))" "p = offset (texts (ed_buffer ed)) ?row ?col"
    using d by (simp_all add: doc_def buffer_doc_def)
  have e: "line_end s p = offset (texts (ed_buffer ed)) ?row (length ?l)"
    using line_end_eq [OF a] by (simp add: sp offset_def)
  have c: "?col < length ?l" using in_line by (simp add: e) (simp add: sp offset_def)
  have wb: "wf_block (b_lines (ed_buffer ed) ! ?row)" using wf_buffer_line [OF rd(5) row] .
  have lc: "cstr (b_lines (ed_buffer ed) ! ?row) = ?l" by (simp add: ltext_def)
  have sl: "take (length ?l - ?col) (drop ?col (b_lines (ed_buffer ed) ! ?row)) = drop ?col ?l"
    using take_drop_line [OF wb, of ?col "length ?l - ?col"] c by (simp add: lc)
  have off: "?col + (length ?l - ?col) \<le> length (b_lines (ed_buffer ed) ! ?row)"
    using length_cstr_less [OF wb] c by (simp add: lc)
  have nul: "0 \<notin> set (take (length ?l - ?col) (drop ?col (b_lines (ed_buffer ed) ! ?row)))"
    unfolding sl by (rule set_drop_sub) simp
  obtain e1 where e1: "editor_kill_set ed (b_lines (ed_buffer ed) ! ?row) ?col (length ?l - ?col)
      (ed_last_was_kill ed) = Some e1" "killed ed (drop ?col ?l) (ed_last_was_kill ed) e1"
    using editor_kill_set_ok [OF wf_editorD(6) [OF rd(1)] off nul, of "ed_last_was_kill ed"]
    unfolding sl by (rule returnsE)
  let ?b = "set_line (ed_buffer ed) ?row ((b_lines (ed_buffer ed) ! ?row)[?col := 0])"
  have cut: "(b_lines (ed_buffer ed) ! ?row)[?col := 0] = cut_block (b_lines (ed_buffer ed) ! ?row) ?col (length ?l)"
    using c off take_cstr [of ?col "b_lines (ed_buffer ed) ! ?row"]
    by (simp add: cut_block_def lc list_update_split)
  have k: "editor_kill_line ed = Some (mark_dirty (e1\<lparr>ed_buffer := ?b\<rparr>))"
    using row wb c e1(1) rd(5) killedD(3,4) [OF e1(2)] length_cstr_less [OF wb]
    by (simp add: editor_kill_line_def mem_simps lc)
  have y: "yields (ed_buffer ed) (Some ?b) ?row ?col (Doc (del p (line_end s p) s) p)"
    using cut_yields [OF rd(5,4) row c, of ?col] c by (simp add: cut e [unfolded sp] sp)
  have "kept ed (mark_dirty (e1\<lparr>ed_buffer := ?b\<rparr>))"
    using kill_line_ok [OF rd(1,7)] k by simp
  then have "ready (mark_dirty (e1\<lparr>ed_buffer := ?b\<rparr>))"
    using y rd(2,3) idle_ring [OF killedD(1) [OF e1(2)]]
    by (simp add: ready_def kept_def yields_def) (simp add: mark_dirty_def)
  moreover have "doc (mark_dirty (e1\<lparr>ed_buffer := ?b\<rparr>)) = Doc (del p (line_end s p) s) p"
    using y killedD(3) [OF e1(2)] by (simp add: doc_def yields_def) (simp add: mark_dirty_def buffer_doc_def)
  moreover have sl': "drop ?col ?l = slice p (line_end s p) s"
    using c at_lineD(6) [OF a] by (simp add: slice_def e) (simp add: sp offset_def)
  have "slice p (line_end s p) s \<noteq> []" using c unfolding sl' [symmetric] by simp
  then have "kill_top (mark_dirty (e1\<lparr>ed_buffer := ?b\<rparr>)) =
      (if ed_last_was_kill ed then kill_top ed else []) @ slice p (line_end s p) s"
    using e1(2) by (simp add: killed_def sl')
  moreover have "b_mode (ed_buffer (mark_dirty (e1\<lparr>ed_buffer := ?b\<rparr>))) = b_mode (ed_buffer ed)"
    by (simp add: mark_dirty_def set_line_def)
  ultimately show ?thesis by (simp add: k)
qed

text \<open>\<open>C-k\<close> and then \<open>C-y\<close>: the text is back, and the point is where \<open>C-e\<close> would have put it.\<close>

lemma doc_insert_slice:
  "p \<le> q \<Longrightarrow> q \<le> length s \<Longrightarrow> doc_insert (slice p q s) (Doc (del p q s) p) = Doc s q"
  by (simp add: ins_slice_del) (simp add: slice_def)

lemma ready_killed: "ready e \<Longrightarrow> ready (e\<lparr>ed_last_was_kill := k\<rparr>)"
  by (simp add: ready_def)

lemma yank_back:
  assumes e: "ready e" "doc e = Doc (del p q s) p" "kill_top e = slice p q s" and q: "p < q" "q \<le> length s"
  shows "does e (editor_process_key os e 25) (Doc s q)"
proof -
  have "slice p q s \<noteq> []" using q by (simp add: slice_def)
  then have "0 < ed_kill_ring_len e" using e(3) by (intro kill_top_ring) simp
  from yank_does [OF e(1) this, of os] show ?thesis
    using doc_insert_slice [of p q s] q by (simp add: e(2,3) del: doc_insert.simps)
qed

lemma kill_yank_line:
  assumes r: "ready ed" and d: "doc ed = Doc s p" and in_line: "p < line_end s p" and l: "\<not> ed_last_was_kill ed"
  shows "does ed (process_keys os ed [11, 25]) (Doc s (line_end s p))"
proof -
  have q: "line_end s p \<le> length s"
    using length_takeWhile_le [of "\<lambda>c. c \<noteq> nl" "drop p s"] in_line
    by (cases "p \<le> length s") (simp_all add: line_end_def)
  obtain e where e: "editor_kill_line ed = Some e" "ready e" "doc e = Doc (del p (line_end s p) s) p"
    "kill_top e = slice p (line_end s p) s" "b_mode (ed_buffer e) = b_mode (ed_buffer ed)"
    using kill_line_does [OF r d in_line] l by (auto elim: returnsE)
  have k: "editor_process_key os ed 11 = Some (editor_done False True (e\<lparr>ed_last_was_kill := True\<rparr>))"
    by (simp add: process_key_idle [OF readyD(3) [OF r]] editor_switch_def ctrl_keys e(1))
  have "does (editor_done False True (e\<lparr>ed_last_was_kill := True\<rparr>))
      (editor_process_key os (editor_done False True (e\<lparr>ed_last_was_kill := True\<rparr>)) 25) (Doc s (line_end s p))"
    using e in_line q by (intro yank_back ready_done ready_killed) simp_all
  with k e(5) show ?thesis
    by (simp add: process_keys_def does_def)
qed

text \<open>\<open>C-w\<close> and then \<open>C-y\<close>: the text is back, and the point is at the end of what was the region.\<close>


lemma delete_region_yields:
  assumes wf: "wf_buffer buf" and cl: "clean buf" and s: "in_text (texts buf) sr sc" and e: "in_text (texts buf) er ec"
    and lt: "Pos sr sc < Pos er ec"
  shows "yields buf (buffer_delete_region buf sr sc er ec) sr sc
    (Doc (del (offset (texts buf) sr sc) (offset (texts buf) er ec) (flat (texts buf))) (offset (texts buf) sr sc))"
proof -
  have in_s: "sr < line_count buf" "sc \<le> length (ltext buf sr)" and in_e: "er < line_count buf" "ec \<le> length (ltext buf er)"
    using s e by (auto simp: in_text_def)
  consider "sr = er" "sc < ec" | "sr < er" using lt by (auto simp: less_pos_def)
  then show ?thesis
  proof cases
    case 1
    have "buffer_delete_region buf sr sc er ec = buffer_delete_range buf sr sc ec"
      using 1 in_s by (simp add: buffer_delete_region_def buffer_delete_ordered_def)
    with 1 in_s in_e cut_yields [OF wf cl in_s(1) 1(2), of sc] show ?thesis
      by (simp add: buffer_delete_range_eq [OF wf in_e(1)] Let_def min_absorb1)
  next
    case 2
    let ?l = "take sc (ltext buf sr) @ drop ec (ltext buf er)"
    let ?b = "buf\<lparr>b_lines := take sr (b_lines buf) @ [?l @ [0]] @ drop (Suc er) (b_lines buf)\<rparr>"
    have b: "buffer_delete_region buf sr sc er ec = Some ?b"
      using 2 in_s in_e buffer_delete_ordered_rows_eq [OF wf 2 in_e(1), of sc ec]
      by (simp add: buffer_delete_region_def Let_def min_absorb1)
    have "cstr (?l @ [0]) = ?l"
      using cstr_append_nul [of ?l "[]"] by (auto simp: set_take_sub set_drop_sub simp del: cstr_append_nul)
    then have t: "texts ?b = take sr (texts buf) @ [?l] @ drop (Suc er) (texts buf)"
      by (simp add: texts_def take_map drop_map)
    have "clean ?b"
      using cl clean_line [OF cl in_s(1)] clean_line [OF cl in_e(1)]
      by (intro cleanI [OF t]) (auto simp: clean_def dest: in_set_takeD in_set_dropD)
    with b ved.cut_law [OF wf s e less_imp_le [OF lt]] show ?thesis
      by (simp add: yields_def buffer_doc_def)
  qed
qed

lemma kill_region_does:
  assumes r: "ready ed" and m: "good_mark ed" and reg: "editor_get_region ed = Some (sr, sc, er, ec)"
    and d: "flat (texts (ed_buffer ed)) = s" "offset (texts (ed_buffer ed)) sr sc = p" "offset (texts (ed_buffer ed)) er ec = q"
  shows "returns (editor_kill_region ed) (\<lambda>(e, k). k \<and> ready e \<and> doc e = Doc (del p q s) p \<and>
    kill_top e = (if ed_last_was_kill ed then kill_top ed else []) @ slice p q s \<and>
    b_mode (ed_buffer e) = b_mode (ed_buffer ed)) \<and> p < q \<and> q \<le> length s"
proof -
  note rd = readyD [OF r]
  have inn: "in_text (texts (ed_buffer ed)) sr sc" "in_text (texts (ed_buffer ed)) er ec"
    using region_in_text [OF rd(2) m reg] by simp_all
  note lt = editor_get_region_SomeD(2) [OF reg]
  note cr = copy_region_ok [OF rd(5) reg inn]
  let ?t = "region_text ed sr sc er ec"
  have t: "?t = slice p q s" by (simp add: region_text_def Let_def d)
  obtain e1 where e1: "editor_kill_set ed (?t @ [0]) 0 (length ?t) (ed_last_was_kill ed) = Some e1"
    "killed ed ?t (ed_last_was_kill ed) e1"
    using editor_kill_set_ok [OF wf_editorD(6) [OF rd(1)], of 0 "length ?t" "?t @ [0]" "ed_last_was_kill ed"]
      region_text_no_nul [of ed sr sc er ec] by (auto elim: returnsE)
  obtain b where b: "buffer_delete_region (ed_buffer ed) sr sc er ec = Some b" "wf_buffer b" "clean b"
    "b_mode b = b_mode (ed_buffer ed)" "in_text (texts b) sr sc" "buffer_doc b sr sc = Doc (del p q s) p"
    using delete_region_yields [OF rd(5,4) inn lt] unfolding d by (rule yieldsE)
  obtain e2 where e2: "osc52_set_clipboard e1 (?t @ [0]) (length ?t) = Some (e1\<lparr>ed_tty := e2\<rparr>)"
    using osc52_ok [of "length ?t" "?t @ [0]" e1] by auto
  let ?e = "(mark_dirty (set_cursor sr sc (e1\<lparr>ed_tty := e2, ed_buffer := b\<rparr>)))\<lparr>ed_mark_active := False\<rparr>"
  have k: "editor_kill_region ed = Some (?e, True)"
    using killedD(4) [OF e1(2)]
    by (simp add: editor_kill_region_def reg cr(1) e1(1) e2 with_buffer_def b(1))
  have "kept ed ?e" using editor_kill_region_ok [OF rd(1,7) reg inn] by (simp add: k)
  moreover have "idle ?e"
    using rd(3) idle_ring [OF killedD(1) [OF e1(2)]] by (simp add: idle_def mark_dirty_def set_cursor_def)
  moreover have eb: "ed_buffer ?e = b\<lparr>b_syntax_dirty := True\<rparr>" "cur_row ?e = sr" "cur_col ?e = sc"
    by (simp_all add: mark_dirty_def set_cursor_def)
  ultimately have "ready ?e" using rd(2) b(3) unfolding ready_def kept_def eb by simp
  moreover have "doc ?e = Doc (del p q s) p" using b(6) unfolding doc_def eb by (simp add: buffer_doc_def)
  moreover have "kill_top ?e = (if ed_last_was_kill ed then kill_top ed else []) @ ?t"
    using e1(2) cr(2) by (simp add: killed_def)
  moreover have "p < q" "q \<le> length s"
    using cr(4) offset_le_length [OF inn(2)] by (simp_all add: d)
  ultimately show ?thesis using b(4) unfolding k t eb by (simp add: eb)
qed

lemma ready_said: "ready e \<Longrightarrow> ready (say msg e)" "doc (say msg e) = doc e"
  by (simp_all add: ready_def say_def) (simp_all add: idle_def status_def doc_def)

lemma kill_yank_region:
  assumes r: "ready ed" and m: "good_mark ed" "editor_get_region ed \<noteq> None" and l: "\<not> ed_last_was_kill ed"
  shows "\<exists>q. does ed (process_keys os ed [23, 25]) (Doc (flat (texts (ed_buffer ed))) q)"
proof -
  obtain sr sc er ec where reg: "editor_get_region ed = Some (sr, sc, er, ec)" using m(2) by auto
  let ?s = "flat (texts (ed_buffer ed))"
  define p q where "p = offset (texts (ed_buffer ed)) sr sc" and "q = offset (texts (ed_buffer ed)) er ec"
  have pq: "p < q" "q \<le> length ?s"
    using kill_region_does [OF r m(1) reg refl refl refl] by (simp_all add: p_def q_def)
  obtain e where e: "editor_kill_region ed = Some (e, True)" "ready e" "doc e = Doc (del p q ?s) p"
    "kill_top e = slice p q ?s" "b_mode (ed_buffer e) = b_mode (ed_buffer ed)"
    using kill_region_does [OF r m(1) reg refl refl refl] l by (auto simp: p_def q_def elim!: returnsE)
  let ?e = "editor_done False True (say ''Killed'' (e\<lparr>ed_last_was_kill := True\<rparr>))"
  have k: "editor_process_key os ed 23 = Some ?e"
    by (simp add: process_key_idle [OF readyD(3) [OF r]] editor_switch_def ctrl_keys e(1))
  have "does ?e (editor_process_key os ?e 25) (Doc ?s q)"
    using e pq by (intro yank_back ready_done ready_said ready_killed) (simp_all add: ready_said)
  moreover have "ed_buffer ?e = ed_buffer e" by (simp add: say_def status_def)
  ultimately show ?thesis using k e(5) by (auto simp: process_keys_def does_def)
qed

text \<open>
  \<open>C-k\<close> at the end of a line removes only the newline, but puts the whole next line into the kill
  ring: \<open>C-y\<close> then gives that line twice.
\<close>


lemma kill_end_does:
  assumes r: "ready ed" and row: "Suc (cur_row ed) < line_count (ed_buffer ed)"
    and at_end: "cur_col ed = length (ltext (ed_buffer ed) (cur_row ed))"
    and d: "doc ed = Doc s p" and l: "\<not> ed_last_was_kill ed"
  shows "returns (editor_kill_line ed) (\<lambda>e. ready e \<and> doc e = Doc (del p (p + 1) s) p \<and>
    kill_top e = nl # ltext (ed_buffer ed) (Suc (cur_row ed)) \<and> b_mode (ed_buffer e) = b_mode (ed_buffer ed))"
proof -
  note rd = readyD [OF r]
  have sp: "s = flat (texts (ed_buffer ed))" "p = offset (texts (ed_buffer ed)) (cur_row ed) (cur_col ed)"
    using d by (simp_all add: doc_def buffer_doc_def)
  obtain e b where e: "editor_kill_newline_and_next ed = Some (e\<lparr>ed_buffer := b\<rparr>)" "ring_only ed e"
    "join_rows (ed_buffer ed) (cur_row ed) = Some b" "kept ed (e\<lparr>ed_buffer := b\<rparr>)"
    "kill_top (e\<lparr>ed_buffer := b\<rparr>) = nl # ltext (ed_buffer ed) (Suc (cur_row ed))"
    using kill_newline_ok [OF rd(1,7) row] l by (auto elim!: returnsE)
  have b: "wf_buffer b" "clean b" "buffer_doc b (cur_row ed) (cur_col ed) = Doc (del p (p + 1) s) p"
    "b_mode b = b_mode (ed_buffer ed)"
    using join_yields [OF rd(5,4) row at_end] e(3) by (simp_all add: yields_def sp)
  let ?e = "mark_dirty (e\<lparr>ed_buffer := b\<rparr>)"
  have k: "editor_kill_line ed = Some ?e"
    using row at_end e(1) rd(5) by (simp add: editor_kill_line_def mem_simps)
  have "idle ?e" using rd(3) idle_ring [OF e(2)] by simp
  moreover have eb: "ed_buffer ?e = b\<lparr>b_syntax_dirty := True\<rparr>" "ed_frame ?e = ed_frame ed"
    using ring_only_sel(2) [OF e(2)] by (simp_all add: mark_dirty_def)
  moreover have "kept ed ?e" using e(4) by simp
  then have "wf_editor ?e" "calm ?e" using rd(2) by (auto simp: kept_def)
  ultimately have "ready ?e" using b(2) unfolding ready_def eb by simp
  moreover have "doc ?e = Doc (del p (p + 1) s) p" using b(3) unfolding doc_def eb by (simp add: buffer_doc_def)
  ultimately show ?thesis using e(5) b(4) by (simp add: k) (simp add: eb)
qed

lemma kill_yank_end:
  assumes r: "ready ed" and d: "doc ed = Doc (a @ nl # l @ r) (length a)"
    and l: "nl \<notin> set l" "r = [] \<or> hd r = nl" and k: "\<not> ed_last_was_kill ed"
  shows "does ed (process_keys os ed [11, 25]) (Doc (a @ nl # l @ l @ r) (length a + 1 + length l))"
proof -
  note rd = readyD [OF r]
  let ?row = "cur_row ed" and ?col = "cur_col ed" and ?s = "a @ nl # l @ r"
  note at = at_cursor [OF rd(6,4)]
  have row: "?row < line_count (ed_buffer ed)" and col: "?col \<le> length (ltext (ed_buffer ed) ?row)"
    using rd(6) by (auto simp: in_text_def)
  have sp: "flat (texts (ed_buffer ed)) = ?s" "offset (texts (ed_buffer ed)) ?row ?col = length a"
    using d by (simp_all add: doc_def buffer_doc_def)
  have "line_end ?s (length a) = length a" by (simp add: line_end_def)
  with line_end_eq [OF at] have c: "?col = length (ltext (ed_buffer ed) ?row)"
    by (simp add: sp) (use sp(2) in \<open>simp add: offset_def\<close>)
  have B: "nl # l @ r = after (drop (Suc ?row) (texts (ed_buffer ed)))"
    using at_lineD(6) [OF at, unfolded sp, unfolded c] by simp
  then have row': "Suc ?row < line_count (ed_buffer ed)"
    using row by (cases "Suc ?row < line_count (ed_buffer ed)") simp_all
  have "l = takeWhile (\<lambda>c. c \<noteq> nl) (l @ r)"
    using takeWhile_line [OF l(1), of r] l(2) by (cases r) (simp_all add: takeWhile_all_ne [OF l(1)])
  also have "l @ r = ltext (ed_buffer ed) (Suc ?row) @ after (drop (Suc (Suc ?row)) (texts (ed_buffer ed)))"
    using B by (simp add: drop_texts_at [OF row'])
  also have "takeWhile (\<lambda>c. c \<noteq> nl) \<dots> = ltext (ed_buffer ed) (Suc ?row)"
    using takeWhile_line [OF clean_line [OF rd(4) row'] after_cases] .
  finally have nx: "ltext (ed_buffer ed) (Suc ?row) = l" ..
  obtain e where e: "editor_kill_line ed = Some e" "ready e" "doc e = Doc (del (length a) (length a + 1) ?s) (length a)"
    "kill_top e = nl # l" "b_mode (ed_buffer e) = b_mode (ed_buffer ed)"
    using kill_end_does [OF r row' c d k] by (auto simp: nx elim!: returnsE)
  let ?e = "editor_done False True (e\<lparr>ed_last_was_kill := True\<rparr>)"
  have p: "editor_process_key os ed 11 = Some ?e"
    by (simp add: process_key_idle [OF rd(3)] editor_switch_def ctrl_keys e(1))
  have "0 < ed_kill_ring_len ?e" using e(4) by (intro kill_top_ring) simp
  with yank_does [OF ready_done [OF ready_killed [OF e(2)]]]
  have "does ?e (editor_process_key os ?e 25) (doc_insert (nl # l) (Doc (del (length a) (length a + 1) ?s) (length a)))"
    using e(3,4) by simp
  moreover have "doc_insert (nl # l) (Doc (del (length a) (length a + 1) ?s) (length a)) =
      Doc (a @ nl # l @ l @ r) (length a + 1 + length l)"
    by (simp add: ins_def del_def)
  ultimately show ?thesis using p e(5) by (simp add: process_keys_def does_def)
qed

section \<open>Backspace\<close>

text \<open>
  The text is as it should be; where the cursor ends is another matter. In a line without multi-byte
  characters it is where the character was. At the start of a line the cursor goes to the end of the
  merged line, not to the place of the join.
\<close>


lemma backspace_plain:
  assumes "wf_block b" "0 < c" "c \<le> length (cstr b)" "\<forall>ch\<in>set (cstr b). \<not> utf8_is_continuation ch"
  shows "prev_bnd (cstr b) c = c - 1" "prev_bnd (cut_block b (c - 1) c) c = c - 1"
proof -
  obtain c' where c': "c = Suc c'" using assms(2) by (cases c) auto
  have "\<not> utf8_is_continuation (cstr b ! c')" using assms c' by (simp add: Suc_le_eq)
  then show "prev_bnd (cstr b) c = c - 1" using c' by (cases c') (simp_all add: prev_bnd_def)
  have "cut_block b (c - 1) c ! c' = (if c < length (cstr b) then cstr b ! c else 0)"
    using assms(3) c' by (auto simp: cut_block_def nth_append)
  then have "\<not> utf8_is_continuation (cut_block b (c - 1) c ! c')" using assms(4) by auto
  then show "prev_bnd (cut_block b (c - 1) c) c = c - 1" using c' by (cases c') (simp_all add: prev_bnd_def)
qed

lemma backspace_does:
  assumes r: "ready ed" and d: "doc ed = Doc s p" and p: "0 < p"
  shows "returns (key_backspace ed) (\<lambda>e. ready e \<and> d_text (doc e) = del (prev_char s p) p s \<and>
    b_mode (ed_buffer e) = b_mode (ed_buffer ed) \<and>
    (p = line_begin s p \<longrightarrow> d_point (doc e) = line_end (del (p - 1) p s) (p - 1)) \<and>
    (p \<noteq> line_begin s p \<longrightarrow> (\<forall>ch\<in>set s. \<not> utf8_is_continuation ch) \<longrightarrow> d_point (doc e) = p - 1))"
proof -
  note rd = readyD [OF r]
  let ?row = "cur_row ed" and ?col = "cur_col ed"
  let ?l = "ltext (ed_buffer ed) ?row"
  note a = at_cursor [OF rd(6,4)]
  have row: "?row < line_count (ed_buffer ed)" and col: "?col \<le> length ?l" using rd(6) by (auto simp: in_text_def)
  have sp: "s = flat (texts (ed_buffer ed))" "p = offset (texts (ed_buffer ed)) ?row ?col"
    using d by (simp_all add: doc_def buffer_doc_def)
  have lb: "p = line_begin s p \<longleftrightarrow> ?col = 0" using line_begin_eq [OF a] by (simp add: sp) (simp add: offset_def)
  have moves: "0 < ?col \<or> 0 < ?row" using p by (cases "?row") (auto simp: sp offset_def)
  obtain row' col' b where b: "buffer_delete_char (ed_buffer ed) ?row ?col = Some b" "wf_buffer b" "clean b"
    "b_mode b = b_mode (ed_buffer ed)" "in_text (texts b) row' col'"
    "buffer_doc b row' col' = Doc (del (prev_char s p) p s) (prev_char s p)"
    "if ?col = 0 then Suc row' = ?row \<and> col' = length (ltext (ed_buffer ed) row')
     else row' = ?row \<and> col' = prev_bnd ?l ?col"
    using delete_char_yields [OF rd(5,4,6) d [unfolded doc_def] p] by (metis yieldsE)
  obtain e where e: "key_backspace ed = Some e" "kept ed e"
    using key_backspace_kept [OF rd(1,7)] rd(2) by (auto simp: safe_def)
  obtain g where g: "frame_move_prev_char b (ed_frame ed) = Some g"
    "e = mark_dirty (ed\<lparr>ed_buffer := b, ed_frame := g\<rparr>)"
    using e(1) moves by (auto simp: key_backspace_def with_buffer_def with_frame_def b(1) bind_eq_Some_conv)
  have eb: "ed_buffer e = b\<lparr>b_syntax_dirty := True\<rparr>" "ed_frame e = g" by (simp_all add: g(2) mark_dirty_def)
  have "idle e" using rd(3) by (simp add: g(2))
  then have re: "ready e" using e(2) rd(2) b(3) unfolding ready_def eb by (auto simp: kept_def)
  have txt_e: "d_text (doc e) = del (prev_char s p) p s" and
    point: "d_point (doc e) = offset (texts b) (f_row g) (f_col g)"
    using b(6) unfolding doc_def eb by (simp_all add: buffer_doc_def)
  have "d_point (doc e) = line_end (del (p - 1) p s) (p - 1)" if c: "?col = 0"
  proof -
    have r': "Suc row' = ?row" "row' < line_count b" using b(5,7) c by (auto simp: in_text_def)
    have "take ?row (texts (ed_buffer ed)) \<noteq> []" using row r'(1) length_texts [of "ed_buffer ed"] by (auto simp del: length_texts)
    then have n: "prev_char s p = p - 1" using prev_char_begin [of s p] a c by (auto simp: sp)
    have "g = \<lparr>f_row = row', f_col = length (ltext b row')\<rparr>"
      using g(1) c r' b(2) by (cases "ed_frame ed") (auto simp: frame_move_prev_char_def mem_simps)
    moreover have "line_end (flat (texts b)) (offset (texts b) row' col') = offset (texts b) row' (length (ltext b row'))"
      using line_end_eq [OF at_cursor [OF b(5,3)]] by (simp add: offset_def)
    ultimately show ?thesis using b(6) by (simp add: point n buffer_doc_def)
  qed
  moreover have "d_point (doc e) = p - 1" if c: "?col \<noteq> 0" and asc: "\<forall>ch\<in>set s. \<not> utf8_is_continuation ch"
  proof -
    have wb: "wf_block (b_lines (ed_buffer ed) ! ?row)" using wf_buffer_line [OF rd(5) row] .
    have lc: "cstr (b_lines (ed_buffer ed) ! ?row) = ?l" by (simp add: ltext_def)
    have "set ?l \<subseteq> set s" using at_lineD(1) [OF a] by (auto simp: sp)
    then have pl: "prev_bnd ?l ?col = ?col - 1"
      "prev_bnd (cut_block (b_lines (ed_buffer ed) ! ?row) (?col - 1) ?col) ?col = ?col - 1"
      using backspace_plain [OF wb, of ?col] c col asc by (auto simp: lc)
    have bl: "b = set_line (ed_buffer ed) ?row (cut_block (b_lines (ed_buffer ed) ! ?row) (?col - 1) ?col)"
      using b(1) c col by (simp add: buffer_delete_char_eq [OF rd(5) row] Let_def pl(1) min_absorb1)
    have "?col \<le> length (cut_block (b_lines (ed_buffer ed) ! ?row) (?col - 1) ?col)"
      using length_cut_block [OF wb, of "?col - 1" ?col] length_cstr_less [OF wb] col by (simp add: lc)
    then have "g = \<lparr>f_row = ?row, f_col = ?col - 1\<rparr>"
      using g(1) c row pl(2)
      by (cases "ed_frame ed") (auto simp: frame_move_prev_char_def load_line_def bl utf8_prev_boundary_eq set_line_def)
    moreover have "row' = ?row" "col' = ?col - 1" using b(7) c pl(1) by simp_all
    moreover have "prev_char s p = p - 1" using prev_char_line [OF a] c pl(1) by (simp add: sp) (simp add: offset_def)
    ultimately show ?thesis using b(6) by (simp add: point buffer_doc_def)
  qed
  moreover have "b_mode (ed_buffer e) = b_mode (ed_buffer ed)" by (simp add: eb b(4))
  ultimately show ?thesis using re txt_e lb by (simp add: e(1))
qed

section \<open>The document of a new editor\<close>

lemma getlines_nl: "r \<in> set (getlines bs) \<Longrightarrow> \<exists>l t. r = l @ t \<and> nl \<notin> set l \<and> (t = [] \<or> t = [nl])"
proof (induction bs rule: getlines.induct)
  case (1 bs)
  consider "bs = []" | "bs \<noteq> []" "nl \<in> set bs" | "bs \<noteq> []" "nl \<notin> set bs" by blast
  then show ?case
  proof cases
    case 1
    with "1.prems" show ?thesis by simp
  next
    case 3
    then have "getlines bs = [bs]" by (subst getlines.simps) simp
    with "1.prems" 3(2) show ?thesis by auto
  next
    case 2
    then have g: "getlines bs = (takeWhile (\<lambda>c. c \<noteq> nl) bs @ [nl]) # getlines (tl (dropWhile (\<lambda>c. c \<noteq> nl) bs))"
      by (subst getlines.simps) (simp only: 2 if_False if_True simp_thms)
    have "r = takeWhile (\<lambda>c. c \<noteq> nl) bs @ [nl] \<or> r \<in> set (getlines (tl (dropWhile (\<lambda>c. c \<noteq> nl) bs)))"
      using "1.prems" unfolding g by simp
    then show ?thesis
    proof
      assume "r = takeWhile (\<lambda>c. c \<noteq> nl) bs @ [nl]"
      then show ?thesis using takeWhile_not_mem [of nl bs] by blast
    qed (rule "1.IH" [OF 2])
  qed
qed

lemma load_text_nl: "nl \<notin> set l \<Longrightarrow> t = [] \<or> t = [nl] \<Longrightarrow> nl \<notin> set (load_text (l @ t))"
proof -
  assume a: "nl \<notin> set l" "t = [] \<or> t = [nl]"
  have "set (strip l) \<subseteq> set l" by (auto simp: strip_def dest: set_dropWhileD)
  then have "nl \<notin> set (strip (l @ t))" using a by (auto simp: strip_snoc nl_def)
  then show ?thesis by (auto simp: load_text_def cstr_def nl_def dest: set_takeWhileD)
qed

lemma file_lines_nl: "l \<in> set (file_lines bytes) \<Longrightarrow> nl \<notin> set l"
  using getlines_nl load_text_nl by (fastforce simp: file_lines_def split: if_splits)

definition start_lines :: "os \<Rightarrow> byte list option \<Rightarrow> byte list list" where
  "start_lines os arg = (case arg of None \<Rightarrow> [[]]
     | Some path \<Rightarrow> (case os_read os path of None \<Rightarrow> [[]] | Some bytes \<Rightarrow> file_lines bytes))"

lemma editor_start_ready:
  "returns (editor_start os arg) (\<lambda>ed. ready ed \<and> texts (ed_buffer ed) = start_lines os arg \<and>
     doc ed = Doc (flat (start_lines os arg)) 0 \<and> \<not> ed_mark_active ed \<and> \<not> ed_last_was_kill ed \<and>
     ed_kill_ring_len ed = 0)"
proof -
  obtain ed where ed: "editor_start os arg = Some ed" "wf_editor ed" "calm ed" "\<not> ed_mark_active ed"
    "ed_esc_state ed = ESC_NONE"
    using editor_start_ok [of os arg] by (auto elim: returnsE)
  obtain b where b: "(case arg of None \<Rightarrow> Some buffer_init
      | Some path \<Rightarrow> buffer_load_file buffer_init path (os_read os path)) = Some b"
    using ed(1) by (auto simp: editor_start_def bind_eq_Some_conv)
  have init: "texts buffer_init = [[]]" by (simp add: texts_def buffer_init_def cstr_def)
  have t: "texts b = start_lines os arg"
  proof (cases arg)
    case (Some path)
    then show ?thesis
      using b returnsD [OF buffer_load_file_eq [of buffer_init path]] init
      by (cases "os_read os path") (auto simp: start_lines_def buffer_load_file_def [of _ _ None])
  qed (use b init in \<open>simp add: start_lines_def\<close>)
  have "clean (buffer_init_syntax ts b p)" for ts p
    using file_lines_nl by (auto simp: clean_def t start_lines_def split: option.splits)
  then show ?thesis
    using ed t
    by (auto simp: editor_start_def b ready_def idle_def doc_def buffer_doc_def offset_def)
qed

section \<open>Quitting\<close>

lemma quit_keys:
  assumes "idle ed"
  shows "returns (process_keys os ed [24, 3]) ed_should_exit"
proof -
  let ?e = "editor_done True True (say ''C-x'' (ed\<lparr>ed_pending_ctrl_x := True\<rparr>))"
  have k: "editor_process_key os ed 24 = Some ?e"
    by (simp add: process_key_idle [OF assms] editor_switch_def ctrl_keys)
  have e: "ed_esc_state ?e = ESC_NONE" "\<not> ed_prompt_active ?e" "\<not> ed_isearch_active ?e"
    "\<not> fd_active (ed_finder ?e)" "ed_pending_ctrl_x ?e"
    using assms by (simp_all add: idle_def editor_done_def say_def status_def)
  then have "returns (editor_process_key os ?e 3) ed_should_exit"
    by (simp add: editor_process_key_def editor_key_def isearch_handle_key_def editor_ctrl_x_def ctrl_keys)
  with k show ?thesis by (simp add: process_keys_def)
qed

lemma idle_window: "idle (ed\<lparr>ed_screen_rows := r, ed_screen_cols := c\<rparr>) = idle ed"
  by (simp add: idle_def)

lemma idle_redrawn: "redrawn ed ed' \<Longrightarrow> idle ed' = idle ed"
proof -
  assume "redrawn ed ed'"
  then obtain r c b t where "ed' = ed\<lparr>ed_row_offset := r, ed_col_offset := c, ed_buffer := b, ed_tty := t\<rparr>"
    by (auto simp: redrawn_def)
  then show ?thesis by (simp add: idle_def)
qed

text \<open>So \<open>C-x C-c\<close> as the first keys brings every session to the end of \<open>main\<close>.\<close>

lemma create_idle:
  assumes "editor_create sy os arg ws tm = Some (Running p)"
  shows "idle (pr_editor p)"
  using assms
proof (rule create_Running)
  fix ed ed' saved tm'
  assume e: "editor_start os arg = Some ed" "get_window_size ws ed = Inr ed'"
    "p = \<lparr>pr_editor = ed', pr_saved = saved, pr_tm = tm'\<rparr>"
  have "idle ed" using returnsD [OF editor_start_ready e(1)] by (simp add: ready_def)
  with e(2,3) show ?thesis by (auto simp: get_window_size_def idle_window split: option.splits if_splits)
qed

lemma quit_run:
  assumes posix: "posix_paths os" and cr: "editor_create sy os arg ws tm = Some (Running p)"
  shows "\<exists>q. editor_run sy os hl p [Input [24, 3] ws'] = Some (Quit q)"
proof -
  have q: "quiet_inv os (pr_editor p)" using create_quiet [OF posix cr] .
  have "returns (editor_refresh_screen hl (pr_editor p)) (redrawn (pr_editor p))"
    using q by (intro returns_mono [OF refresh_screen_ok]) (auto simp: quiet_inv_def)
  then obtain ed where ed: "editor_refresh_screen hl (pr_editor p) = Some ed" "redrawn (pr_editor p) ed" by (rule returnsE)
  then have "idle ed" using idle_redrawn create_idle [OF cr] by simp
  from quit_keys [OF this, of os] obtain e where "process_keys os ed [24, 3] = Some e" "ed_should_exit e" by (rule returnsE)
  with ed(1) show ?thesis by (simp add: editor_run_def loop_turn_def)
qed

end
