(* ===== verification/Cancel.thy ===== *)
theory Cancel
  imports Document
begin

text \<open>
  A search that is canceled: between \<open>C-s\<close> and \<open>C-g\<close> the keys of the search move the cursor, grow and
  shrink the query and turn around, and nothing else; \<open>C-g\<close> then gives the cursor back.
\<close>

section \<open>What a search leaves alone\<close>

definition search_key :: "byte \<Rightarrow> bool" where
  "search_key k \<longleftrightarrow> 32 \<le> k \<or> k \<in> {8, 18, 19}"

text \<open>The editor \<open>e\<close> is searching, and the search began in \<open>ed\<close>.\<close>

definition searching :: "editor \<Rightarrow> editor \<Rightarrow> bool" where
  "searching ed e \<longleftrightarrow> wf_editor e \<and> ed_isearch_active e \<and> ed_buffer e = ed_buffer ed \<and>
     ed_isearch_origin_row e = cur_row ed \<and> ed_isearch_origin_col e = cur_col ed \<and>
     ed_esc_state e = ESC_NONE \<and> \<not> ed_prompt_active e \<and> \<not> fd_active (ed_finder e) \<and> \<not> ed_pending_ctrl_x e"

text \<open>The fields the search functions do not write, taken together.\<close>

definition same_rest :: "editor \<Rightarrow> editor \<Rightarrow> bool" where
  "same_rest e e' \<longleftrightarrow> ed_buffer e' = ed_buffer e \<and> ed_isearch_active e' = ed_isearch_active e \<and>
     ed_isearch_origin_row e' = ed_isearch_origin_row e \<and> ed_isearch_origin_col e' = ed_isearch_origin_col e \<and>
     ed_esc_state e' = ed_esc_state e \<and> ed_prompt_active e' = ed_prompt_active e \<and>
     ed_finder e' = ed_finder e \<and> ed_pending_ctrl_x e' = ed_pending_ctrl_x e"

lemma searching_same: "searching ed e \<Longrightarrow> wf_editor e' \<Longrightarrow> same_rest e e' \<Longrightarrow> searching ed e'"
  by (simp add: searching_def same_rest_def)

lemma same_rest_refl [simp]: "same_rest e e"
  by (simp add: same_rest_def)

lemma same_rest_trans: "same_rest e e1 \<Longrightarrow> same_rest e1 e2 \<Longrightarrow> same_rest e e2"
  by (simp add: same_rest_def)

lemma same_rest_updates [simp]:
  "same_rest e (status msg e') = same_rest e e'" "same_rest e (set_cursor r c e') = same_rest e e'"
  "same_rest e (e'\<lparr>ed_isearch_has_match := m\<rparr>) = same_rest e e'"
  "same_rest e (e'\<lparr>ed_isearch_forward := f\<rparr>) = same_rest e e'"
  "same_rest e (e'\<lparr>ed_isearch_query := q\<rparr>) = same_rest e e'"
  "same_rest e (e'\<lparr>ed_isearch_len := n\<rparr>) = same_rest e e'"
  "same_rest e (editor_done rk ry e') = same_rest e e'"
  "same_rest (e\<lparr>ed_isearch_forward := f\<rparr>) e' = same_rest e e'"
  by (simp_all add: same_rest_def status_def set_cursor_def editor_done_def Let_def)

lemma set_status_rest: "isearch_set_status e failed = Some e' \<Longrightarrow> same_rest e e'"
  by (auto simp: isearch_set_status_def bind_eq_Some_conv)

lemma find_rest:
  assumes "isearch_find e rep = Some (e', found)"
  shows "same_rest e e'"
  using assms
  by (auto simp: isearch_find_def bind_eq_Some_conv dest!: set_status_rest split: if_splits option.splits
      elim!: same_rest_trans [rotated])

lemma append_rest: "isearch_append e key = Some e' \<Longrightarrow> same_rest e e'"
  by (auto simp: isearch_append_def bind_eq_Some_conv dest!: find_rest split: if_splits elim!: same_rest_trans [rotated])

lemma backspace_rest: "isearch_backspace e = Some e' \<Longrightarrow> same_rest e e'"
  by (auto simp: isearch_backspace_def bind_eq_Some_conv dest!: find_rest split: if_splits elim!: same_rest_trans [rotated])

lemma search_key_rest:
  assumes "search_key k" "ed_isearch_active e" "isearch_handle_key e k = Some (e', h)"
  shows "h \<and> same_rest e e'"
proof -
  have k: "k \<notin> {7, 13, 27}" using assms(1) by (auto simp: search_key_def word_le_nat_alt)
  from assms(1) consider "k = 18" | "k = 19" | "k = 8 \<or> k = 127" | "32 \<le> k" "k \<notin> {8, 18, 19, 127}"
    unfolding search_key_def by blast
  then show ?thesis
  proof cases
    case 4
    with k assms(2,3) show ?thesis
      by (auto simp: isearch_handle_key_def ctrl_keys KEY_BACKSPACE_def bind_eq_Some_conv dest!: append_rest)
  qed (use k assms(2,3) in \<open>auto simp: isearch_handle_key_def ctrl_keys KEY_BACKSPACE_def bind_eq_Some_conv
      dest!: find_rest backspace_rest elim!: same_rest_trans [rotated]\<close>)
qed

section \<open>The search as a machine\<close>

lemma search_step:
  assumes s: "searching ed e" and k: "search_key k"
  shows "returns (editor_process_key os e k) (searching ed)"
proof -
  have wf: "wf_editor e" and f: "ed_esc_state e = ESC_NONE" "\<not> fd_active (ed_finder e)" "ed_isearch_active e"
    using s by (simp_all add: searching_def)
  obtain e' h where e': "isearch_handle_key e k = Some (e', h)" "wf_editor e'"
    using isearch_handle_key_kept [OF wf, of k] by (rule returnsE) (auto simp: kept_def)
  have r: "h" "same_rest e e'" using search_key_rest [OF k f(3) e'(1)] by simp_all
  have "editor_process_key os e k = Some (editor_done True True e')"
    using f e'(1) r(1) by (simp add: editor_process_key_def editor_key_def)
  with searching_same [OF s wf_done [OF e'(2), of True True]] r(2) show ?thesis by simp
qed

interpretation search: safe_machine "editor_process_key os" "\<lambda>e. search_key" "searching ed" for os ed
  by unfold_locales (rule search_step)

lemma search_begins:
  assumes r: "ready ed" and k: "k = 18 \<or> k = 19"
  shows "returns (editor_process_key os ed k) (searching ed)"
proof -
  note rd = readyD [OF r]
  have i: "ed_esc_state ed = ESC_NONE" "\<not> ed_prompt_active ed" "\<not> ed_isearch_active ed"
    "\<not> fd_active (ed_finder ed)" "\<not> ed_pending_ctrl_x ed" using rd(3) by (simp_all add: idle_def)
  obtain e where e: "isearch_begin ed (k = 19) = Some e" "wf_editor e"
    using isearch_begin_kept [OF rd(1) i(1,4), of "k = 19"] by (auto simp: kept_def elim: returnsE)
  have p: "editor_process_key os ed k = Some (editor_done True True e)"
    using i e(1) k by (auto simp: editor_process_key_def editor_key_def isearch_handle_key_def editor_command_def ctrl_keys)
  obtain q where "same_rest (ed\<lparr>ed_isearch_active := True, ed_isearch_len := 0, ed_isearch_query := q,
      ed_isearch_origin_row := cur_row ed, ed_isearch_origin_col := cur_col ed, ed_isearch_has_match := False\<rparr>) e"
    using e(1) i(3) by (auto simp: isearch_begin_def bind_eq_Some_conv dest!: set_status_rest elim!: same_rest_trans [rotated])
  then have "same_rest (ed\<lparr>ed_isearch_active := True, ed_isearch_len := 0, ed_isearch_query := q,
      ed_isearch_origin_row := cur_row ed, ed_isearch_origin_col := cur_col ed, ed_isearch_has_match := False\<rparr>)
      (editor_done True True e)" by simp
  then show ?thesis
    using wf_done [OF e(2), of True True] i unfolding p by (simp add: searching_def same_rest_def)
qed

lemma search_canceled:
  assumes s: "searching ed e" and r: "ready ed"
  shows "returns (editor_process_key os e 7) (\<lambda>e'. ready e' \<and> doc e' = doc ed \<and> ed_buffer e' = ed_buffer ed)"
proof -
  note rd = readyD [OF r]
  have wf: "wf_editor e" and i: "ed_esc_state e = ESC_NONE" "\<not> ed_prompt_active e" "ed_isearch_active e"
    "\<not> fd_active (ed_finder e)" "\<not> ed_pending_ctrl_x e" and o: "ed_isearch_origin_row e = cur_row ed"
    "ed_isearch_origin_col e = cur_col ed" and b: "ed_buffer e = ed_buffer ed"
    using s by (simp_all add: searching_def)
  obtain e' where e': "isearch_finish e True = Some e'" "wf_editor e'" "\<not> ed_isearch_active e'"
    using isearch_finish_kept [OF wf, of True] by (auto simp: kept_def elim: returnsE)
  have f: "ed_buffer e' = ed_buffer ed" "cur_row e' = cur_row ed" "cur_col e' = cur_col ed"
    "ed_esc_state e' = ESC_NONE" "\<not> ed_prompt_active e'" "\<not> fd_active (ed_finder e')" "\<not> ed_pending_ctrl_x e'"
    using e'(1) i o b by (auto simp: isearch_finish_def bind_eq_Some_conv set_cursor_def)
  have "editor_process_key os e 7 = Some (editor_done True True e')"
    using i e'(1) by (simp add: editor_process_key_def editor_key_def isearch_handle_key_def ctrl_keys)
  moreover have "calm e'"
    using rd(2) f(1-3) e'(3) by (simp add: calm_def good_cursor_in_text)
  then have "ready e'" using e' f rd(4) by (simp add: ready_def idle_def)
  ultimately show ?thesis using f(1-3) by (simp add: ready_done) (simp add: doc_def)
qed

lemma search_cancel:
  assumes r: "ready ed" and k: "k = 18 \<or> k = 19" and keys: "list_all search_key keys"
  shows "returns (process_keys os ed (k # keys @ [7])) (\<lambda>e. ready e \<and> doc e = doc ed \<and> ed_buffer e = ed_buffer ed)"
proof -
  have append: "run step s (xs @ ys) = Option.bind (run step s xs) (\<lambda>s. run step s ys)"
    for step :: "editor \<Rightarrow> byte \<Rightarrow> editor option" and s xs ys
    by (induction xs arbitrary: s) simp_all
  obtain e1 where e1: "editor_process_key os ed k = Some e1" "searching ed e1"
    using search_begins [OF r k] by (rule returnsE)
  have "allowed_run (editor_process_key os) (\<lambda>e. search_key) e1 keys"
    using keys by (intro allowed_all) (simp add: list_all_iff)
  from search.run_safe [OF e1(2) this]
  obtain e2 where e2: "run (editor_process_key os) e1 keys = Some e2" "searching ed e2" by (rule returnsE)
  from search_canceled [OF e2(2) r, of os] e1(1) e2(1) show ?thesis
    by (simp add: process_keys_def append)
qed

end
