(* ===== verification/Spec2Isabelle.thy ===== *)
theory Spec2Isabelle
  imports Cancel
begin

text \<open>
  ved is a terminal text editor in C (\<open>src/*.c\<close>): it reads bytes from the terminal in raw mode,
  interprets each as a key, and redraws the screen. This development models the whole program as
  HOL functions and proves what its parts promise. The properties C1 to C40 are in this theory, in
  the order of their importance within each part; the lemmas they rest on are in the theories of
  the components.

  \<^bold>\<open>The program and its model.\<close> Each theory follows the functions of one file, under their names in
  the source; helper definitions cut out of a long function say so where they stand.

    \<^item> \<open>Prelude\<close>: bytes, heap blocks as lists of bytes, and the C library on them (\<open>memmove\<close>, \<open>memcpy\<close>,
      \<open>strlen\<close>, \<open>strdup\<close>, \<open>realloc\<close>). An access outside a block is \<open>None\<close>, so \<open>f x = Some y\<close> says that
      the call neither reads nor writes out of bounds, and \<open>returns m P\<close> that it returns a result
      with \<open>P\<close>.
    \<^item> \<open>Utf8\<close> (\<open>utf8.c\<close>), \<open>Util\<close> (the encoder of \<open>util.c\<close>), \<open>Order\<close> (\<open>pos_compare\<close> of \<open>editor.h\<close> and \<open>qsort\<close>),
      \<open>Chars\<close> (word tests and word loops).
    \<^item> \<open>Buffer\<close>, \<open>File_IO\<close> (\<open>buffer.c\<close>): the lines and their edits; loading and saving. \<open>Text\<close> is the
      abstract view, a text with newlines; \<open>Editable\<close> the contract between the two.
    \<^item> \<open>Editor\<close> (\<open>editor.h\<close>): the state. \<open>Field\<close>, \<open>Motion\<close>, \<open>Isearch\<close>, \<open>Kill\<close>, \<open>Mouse\<close>, \<open>Keys\<close> (\<open>input.c\<close>): the
      prompt, the cursor, the search, the kill ring, the mouse, and the dispatch of a key.
    \<^item> \<open>Growth\<close>, \<open>Ignore\<close>, \<open>Scan\<close>, \<open>Fuzzy\<close>, \<open>Finder\<close> (\<open>finder.c\<close>): the file finder, from the \<open>.gitignore\<close>
      rules and the directory walk to the ranking and the keys of its window.
    \<^item> \<open>Output\<close>, \<open>Modal\<close>, \<open>Highlight\<close>, \<open>Screen\<close> (\<open>render.c\<close>): the output buffer, the two windows, the
      syntax colours, and the frame. \<open>Drawing\<close> holds what a frame shows.
    \<^item> \<open>Terminal\<close>, \<open>Session\<close> (\<open>core.c\<close>, \<open>main.c\<close>, \<open>die\<close> of \<open>util.c\<close>): raw mode, start, loop and end.
    \<^item> \<open>Invariant\<close>, \<open>Step\<close>: the invariant of the state and what a key does to it. \<open>Document\<close>, \<open>Cancel\<close>: the
      abstract document that the keys implement, and the search that is taken back.

  \<^bold>\<open>How the parts interact.\<close> \<open>main_program\<close> creates an editor (\<open>editor_create\<close>), runs \<open>editor_loop\<close> over
  a list of events and destroys it. An input event is a chunk of bytes, each of which goes through
  \<open>editor_process_key\<close>: to the escape parser (arrow keys, meta keys, mouse), else to the finder, the
  search, the prompt, \<open>C-x\<close>, or the editing keys. The editing keys call the buffer; saving and the
  finder ask the operating system. After the chunk the window size is read and
  \<open>editor_refresh_screen\<close> scrolls, has the text parsed, and draws.

  The state is passed explicitly. The buffer pointer of the frame and of the finder always means
  the editor's own buffer, so functions take that buffer as an argument. Two members are not in
  the struct: \<open>ed_tty\<close>, the bytes handed to the terminal, and \<open>ed_saves\<close>, the saves made.

  \<^bold>\<open>What the theorems show.\<close>

    \<^item> C1 to C4: no session fails, whatever is typed, unless a mark is set or the mouse is used; a key
      fails at most when a mark or the cursor is outside the text, and every key keeps the invariant of
      the whole state (\<open>wf_editor\<close>). C4 is the failure that a mark left behind by edits causes. The
      locales \<open>preserving\<close> and \<open>safe_machine\<close> of \<open>Session\<close> carry the safety of a key to a session
      (\<open>quiet_keys\<close>, \<open>sessions\<close>), and to keys that leave the mark in the text (\<open>marked_keys\<close>).
    \<^item> C5 to C10: keys as functions on a document, a text with a point in it. The locale \<open>simulation\<close>
      of \<open>Document\<close> lifts the refinement of one key to runs of keys. Killing and yanking give the
      text back, and C9 is the case in which they do not; C10 says why \<open>M-y\<close> has no effect.
    \<^item> C11, C12, C35 to C38: what a frame shows, and that it fits the screen.
    \<^item> C13 to C15: the terminal at the end of the process, with two defects of the code. What the calls
      that restore the modes fail to do is part of the statement (\<open>left_raw\<close>).
    \<^item> C16 to C21: the buffer refines the text; what is saved can be loaded, and a save is reported as
      done exactly when every call of it succeeded.
    \<^item> C22 to C24: the search finds the first (or last) occurrence, and canceling it restores all.
    \<^item> C25 to C30: the finder: rules, files, scores, ranking, selection.
    \<^item> C31 to C34, C39, C40: characters and columns, base64, the input fields, the terminal's writes, the
      mouse.

  The other interfaces are locales too: \<open>editable\<close> (texts with three edits), \<open>char_steps\<close> (steps
  between boundaries), \<open>comparator\<close> and \<open>total_comparator\<close> (what \<open>qsort\<close> needs), \<open>growing\<close> (arrays that
  double), \<open>sink\<close> (output that only grows). Each is interpreted on the functions of the model where
  those are defined.

  \<^bold>\<open>Bounds and fuel.\<close> A \<open>size_t\<close> is a natural number; where the code may subtract below zero (\<open>usub\<close>),
  cast to \<open>int\<close> (\<open>int_of_size\<close>) or cast from it (\<open>size_of_int\<close>), the wrap-around is written out. Sums of
  sizes do not wrap, since they are sizes of objects in memory. Bytes are \<open>8 word\<close>, the bits of
  base64 and of the terminal's flags \<open>32 word\<close>. The walk over the directories
  has the fuel \<open>PATH_MAX\<close>: every level makes the path longer by a byte at least, and a path of
  \<open>PATH_MAX\<close> bytes cannot be opened (\<open>posix_paths\<close>). The growth of the output buffer (\<open>grow_to\<close>) is a
  partial function, shown to return (\<open>grow_to_ok\<close>). Every other loop is a total function.

  \<^bold>\<open>Parameters.\<close> What is not in the sources is an argument: the system calls on files and \<open>fnmatch\<close>
  (record \<open>os\<close>), the results of \<open>open\<close>, \<open>write\<close> and \<open>close\<close> of a save (\<open>save_env\<close>), tree-sitter (records
  \<open>ts_setup\<close> and \<open>highlighter\<close>), the calls on the terminal (\<open>sys\<close>, \<open>terminal\<close>), and what \<open>poll\<close>, \<open>read\<close> and
  \<open>ioctl\<close> report (\<open>event\<close>). The answers of \<open>os\<close> do not change during the keys of one run.
  The hypothesis \<open>posix_paths\<close> is documented behaviour of POSIX: a path of \<open>PATH_MAX\<close> bytes or more
  names nothing, and \<open>readdir\<close> gives no empty names. \<open>qsort\<close> is an insertion sort; for the file list any
  sorting function gives the same result, since no two matches compare equal. Spans that start in
  the same place keep their order here, which the C library does not promise.

  \<^bold>\<open>Not modelled.\<close> Failures of \<open>malloc\<close> and its kin (the branches that call \<open>die\<close> for them); \<open>SIGINT\<close>
  in the middle of a function (\<open>handle_sigint\<close> is modelled as a call between two steps); the
  vendored tree-sitter and its grammar; the contents of an object after it is freed. The memory of
  distinct lines and arrays is never shared in the program, so the model has values and no store.
\<close>

section \<open>A concrete setting\<close>

text \<open>
  The properties are applied to it in the theorems that follow them: an operating system with one
  file, a terminal, a highlighter that finds nothing, and the editor started on the file.
\<close>

definition sample_path :: "byte list" where
  "sample_path = bytes_of ''a.c''"

definition sample_os :: os where
  "sample_os = \<lparr>os_stat = \<lambda>_. None,
     os_read = \<lambda>p. if p = sample_path then Some (bytes_of ''foo bar'' @ [10] @ bytes_of ''baz'') else None,
     os_readdir = \<lambda>_. None, os_realpath = \<lambda>_. None, os_getcwd = None, os_readable = \<lambda>_. True,
     os_strerror = bytes_of ''No such file'', os_fnmatch = \<lambda>_ _ _. False,
     os_save = \<lambda>_. \<lparr>sv_open = True, sv_write = \<lambda>_ n. int n, sv_close = True\<rparr>,
     os_ts = \<lparr>ts_new_ok = True, ts_language_ok = True, ts_query_ok = True, ts_query_clean = True\<rparr>\<rparr>"

definition sample_hl :: highlighter where
  "sample_hl = \<lparr>hl_parses = \<lambda>_. True, hl_cursor = True, hl_name = \<lambda>_. None, hl_captures = \<lambda>_ _ _. []\<rparr>"

definition sample_tm :: terminal where
  "sample_tm = \<lparr>tm_attr = \<lparr>c_iflag = 0x500, c_oflag = 5, c_cflag = 0xbf, c_lflag = 0x8a3b, c_cc = replicate 32 1\<rparr>,
     tm_flags = 2, tm_out = []\<rparr>"

definition sample_doc :: "byte list" where
  "sample_doc = bytes_of ''foo bar'' @ [10] @ bytes_of ''baz''"

lemma sample_posix: "posix_paths sample_os"
  by (simp add: posix_paths_def sample_os_def)

lemma sample_lines: "start_lines sample_os (Some sample_path) = [bytes_of ''foo bar'', bytes_of ''baz'']"
proof -
  have "file_lines (bytes_of ''foo bar'' @ [10] @ bytes_of ''baz'') = [bytes_of ''foo bar'', bytes_of ''baz'']"
    by code_simp
  then show ?thesis by (simp add: start_lines_def sample_os_def)
qed

lemma sample_editor:
  obtains ed where "editor_start sample_os (Some sample_path) = Some ed" "ready ed"
    "doc ed = Doc sample_doc 0" "texts (ed_buffer ed) = [bytes_of ''foo bar'', bytes_of ''baz'']"
    "\<not> ed_mark_active ed" "\<not> ed_last_was_kill ed" "ed_kill_ring_len ed = 0"
proof -
  have f: "flat [bytes_of ''foo bar'', bytes_of ''baz''] = sample_doc" by (simp add: sample_doc_def nl_def)
  from editor_start_ready [of sample_os "Some sample_path"] show thesis
    unfolding sample_lines f by (elim returnsE conjE) (rule that)
qed

lemma sample_process:
  obtains p where "editor_create all_ok sample_os (Some sample_path) (Some (24, 80)) sample_tm = Some (Running p)"
  by (rule sample_editor) (auto simp: editor_create_def get_window_size_def enable_raw_mode_def all_ok_def Let_def)

section \<open>Sessions\<close>

text \<open>
  C1. No session of the keyboard fails. Whatever file is opened and however the terminal and the system
  answer (within the limits of POSIX on paths), the start returns a running editor or has died with status 1; and when it runs, a session in
  which no key \<open>C-@\<close> is pressed and no mouse report (press, release, drag or wheel) is completed
  returns: no key and no redraw reads or writes outside a block, and the session is still running or has
  been quit, with a well formed state and the cursor in the text, or has died with status 1.
\<close>

theorem session_never_fails:
  assumes "posix_paths os"
  shows "returns (editor_create sy os arg ws tm) (\<lambda>start. case start of
      Running p \<Rightarrow> quiet_session sy os hl p evs \<longrightarrow> returns (editor_run sy os hl p evs) (\<lambda>out.
        case out of Running q \<Rightarrow> wf_editor (pr_editor q) \<and> calm (pr_editor q)
          | Quit q \<Rightarrow> wf_editor (pr_editor q) \<and> calm (pr_editor q) | Died code t \<Rightarrow> code = 1)
    | Quit p \<Rightarrow> False | Died code t \<Rightarrow> code = 1)"
proof -
  obtain start where st: "editor_create sy os arg ws tm = Some start"
    "case start of Running p \<Rightarrow> True | Quit p \<Rightarrow> False | Died code t \<Rightarrow> code = 1"
    using create_returns by (rule returnsE)
  have run: "returns (editor_run sy os hl p evs) (\<lambda>out.
      case out of Running q \<Rightarrow> wf_editor (pr_editor q) \<and> calm (pr_editor q)
        | Quit q \<Rightarrow> wf_editor (pr_editor q) \<and> calm (pr_editor q) | Died code t \<Rightarrow> code = 1)"
    if "start = Running p" "quiet_session sy os hl p evs" for p
    by (rule returns_mono [OF editor_run_quiet [OF assms st(1) [unfolded that(1)] that(2)]])
       (auto simp: session_inv_def quiet_inv_def split: outcome.splits)
  show ?thesis using st run by (cases start) (simp_all del: One_nat_def)
qed

theorem session_never_fails_witness:
  "\<exists>p. editor_create all_ok sample_os (Some sample_path) (Some (24, 80)) sample_tm = Some (Running p) \<and>
     returns (editor_run all_ok sample_os sample_hl p [Input [72, 13, 11, 25] (Some (10, 20)), Read_nothing])
       (\<lambda>out. case out of Running q \<Rightarrow> wf_editor (pr_editor q) \<and> calm (pr_editor q)
          | Quit q \<Rightarrow> wf_editor (pr_editor q) \<and> calm (pr_editor q) | Died code t \<Rightarrow> code = 1)"
proof -
  let ?evs = "[Input [72, 13, 11, 25] (Some (10, 20)), Read_nothing]"
  obtain p where p: "editor_create all_ok sample_os (Some sample_path) (Some (24, 80)) sample_tm = Some (Running p)"
    by (rule sample_process)
  have "allowed_run (loop_step all_ok sample_os sample_hl) (quiet_event sample_os) out ?evs" for out
    by (rule allowed_all) (auto simp: quiet_event_def quiet_def mouse_final_def simp del: allowed_run.simps
        intro!: allowed_all split: outcome.split)
  then have q: "quiet_session all_ok sample_os sample_hl p ?evs"
    unfolding quiet_session_def by (simp del: allowed_run.simps split: option.split)
  have "returns (editor_run all_ok sample_os sample_hl p ?evs)
       (\<lambda>out. case out of Running q \<Rightarrow> wf_editor (pr_editor q) \<and> calm (pr_editor q)
          | Quit q \<Rightarrow> wf_editor (pr_editor q) \<and> calm (pr_editor q) | Died code t \<Rightarrow> code = 1)"
    using session_never_fails [OF sample_posix, of all_ok "Some sample_path" "Some (24, 80)" sample_tm sample_hl ?evs]
    unfolding p returns_Some outcome.case using q by (rule mp)
  with p show ?thesis by blast
qed

text \<open>
  C2. Every key keeps the invariant of the editor, mouse and mark included: if a run of keys comes to
  a state at all, the buffer, the prompt, the search, the finder and the kill ring are well formed
  in it, and the cursor is in a row that exists.
\<close>

theorem keys_keep_invariant:
  assumes "posix_paths os" "wf_editor ed" "process_keys os ed keys = Some ed'"
  shows "wf_editor ed'"
  using any_keys.run_inv [of os ed keys ed'] assms by (simp add: key_inv_def process_keys_def)

theorem keys_keep_invariant_witness:
  "\<exists>ed ed'. editor_start sample_os (Some sample_path) = Some ed \<and>
     process_keys sample_os ed [65, 13, 66] = Some ed' \<and> wf_editor ed'"
proof (rule sample_editor)
  fix ed assume ed: "editor_start sample_os (Some sample_path) = Some ed" "ready ed"
  have "list_all doc_key [65, 13, 66]" by (simp add: doc_key_def)
  from typing [OF ed(2) this, of sample_os]
  obtain ed' where "process_keys sample_os ed [65, 13, 66] = Some ed'" by (rule returnsE)
  with keys_keep_invariant [OF sample_posix readyD(1) [OF ed(2)] this] ed(1) show ?thesis by blast
qed

text \<open>
  C3. A key never fails when the cursor and an active mark are in the text, and the cursor is in the
  text afterwards too, unless the key ends a mouse report; only \<open>C-@\<close> and the mouse set the mark.
\<close>

theorem key_never_fails:
  assumes "posix_paths os" "wf_editor ed" "calm ed" "good_mark ed"
  shows "returns (editor_process_key os ed key) (\<lambda>ed'. wf_editor ed' \<and> (\<not> mouse_final ed key \<longrightarrow> calm ed') \<and>
    (ed_mark_active ed' \<longrightarrow> ed_mark_active ed \<or> key = 0 \<or> mouse_final ed key))"
  by (rule returns_mono [OF process_key_returns [OF assms]]) (use assms(3,4) in \<open>auto simp: stepped_def\<close>)

theorem key_never_fails_witness:
  "\<exists>ed. editor_start sample_os (Some sample_path) = Some ed \<and>
     returns (editor_process_key sample_os ed 11) (\<lambda>ed'. wf_editor ed' \<and> (\<not> mouse_final ed 11 \<longrightarrow> calm ed') \<and>
       (ed_mark_active ed' \<longrightarrow> ed_mark_active ed \<or> 11 = (0 :: byte) \<or> mouse_final ed 11))"
proof (rule sample_editor)
  fix ed assume ed: "editor_start sample_os (Some sample_path) = Some ed" "ready ed" "\<not> ed_mark_active ed"
  then have "good_mark ed" by (simp add: good_mark_def)
  from key_never_fails [OF sample_posix readyD(1,2) [OF ed(2)] this, of 11] ed(1) show ?thesis by blast
qed

text \<open>
  C4. A mark behind the last line breaks the region commands of an idle editor. When the line array has
  no entry for the mark's row, \<open>C-w\<close> and \<open>M-w\<close> read behind the array; when it still has one, \<open>C-w\<close>
  deletes nothing, takes the mark away and reports "Killed". Edits lead there, since they do not move the
  mark: in an empty buffer three times Return, \<open>C-@\<close>, three times Backspace, and Return.
\<close>

theorem stale_mark_reads_out_of_bounds:
  assumes "wf_editor ed" "idle ed" "ed_mark_active ed" "line_count (ed_buffer ed) \<le> ed_mark_row ed"
  shows "if b_slots (ed_buffer ed) \<le> ed_mark_row ed
    then editor_process_key os ed 23 = None \<and> process_keys os ed [27, 119] = None
    else returns (editor_process_key os ed 23) (\<lambda>e. texts (ed_buffer e) = texts (ed_buffer ed) \<and>
      ed_frame e = ed_frame ed \<and> \<not> ed_mark_active e \<and> ed_status_msg e = bytes_of ''Killed'')"
proof (cases "b_slots (ed_buffer ed) \<le> ed_mark_row ed")
  case True
  let ?ed = "ed\<lparr>ed_last_was_kill := False, ed_last_was_yank := False, ed_esc_state := ESC_NONE\<rparr>"
  have w: "wf_editor ?ed" using assms(1) by (simp add: state_defs)
  have m: "editor_kill_region ed = None" "editor_copy_region ?ed = None"
    using stale_mark_fails [OF assms(1,3,4) True] stale_mark_fails [OF w] assms(3,4) True by simp_all
  have "editor_process_key os ed 23 = None"
    by (simp add: process_key_idle [OF assms(2)] editor_switch_def ctrl_keys KEY_BACKSPACE_def m(1))
  moreover have "editor_process_key os ed 27 = Some (ed\<lparr>ed_esc_state := ESC_SEEN, ed_last_was_kill := False,
      ed_last_was_yank := False\<rparr>)"
    using assms(2) by (simp add: idle_def editor_process_key_def editor_key_def isearch_handle_key_def editor_done_def Let_def)
  then have "process_keys os ed [27, 119] = None"
    using assms(2) m(2)
    by (simp add: process_keys_def)
       (simp add: editor_process_key_def handle_escape_def handle_meta_key_def KEY_BACKSPACE_def idle_def Let_def)
  ultimately show ?thesis using True by simp
next
  case False
  obtain e where e: "editor_kill_region ed = Some (e, True)" "texts (ed_buffer e) = texts (ed_buffer ed)"
    "ed_frame e = ed_frame ed" "\<not> ed_mark_active e"
    using stale_mark_kills_nothing [OF assms(1,3,4)] False by (auto elim!: returnsE)
  then show ?thesis using False
    by (simp add: process_key_idle [OF assms(2)] editor_switch_def ctrl_keys KEY_BACKSPACE_def
        say_def status_def editor_done_def bytes_of_def)
qed

theorem stale_mark_reads_out_of_bounds_witness:
  "\<exists>ed e. editor_start sample_os None = Some ed \<and>
     process_keys sample_os ed [13, 13, 13, 0, 127, 127, 127, 13] = Some e \<and>
     editor_process_key sample_os e 23 = None \<and> process_keys sample_os e [27, 119] = None"
proof -
  let ?keys = "[13, 13, 13, 0, 127, 127, 127, 13]"
  have c: "map_option (\<lambda>e. (ed_mark_active e, line_count (ed_buffer e), b_slots (ed_buffer e), ed_mark_row e, idle e))
      (Option.bind (editor_start sample_os None) (\<lambda>ed. process_keys sample_os ed ?keys)) = Some (True, 2, 2, 3, True)"
    by code_simp
  obtain ed where ed: "editor_start sample_os None = Some ed" "wf_editor ed"
    using editor_start_ok [of sample_os None] by (auto elim: returnsE)
  obtain e where e: "process_keys sample_os ed ?keys = Some e" "ed_mark_active e" "line_count (ed_buffer e) = 2"
    "b_slots (ed_buffer e) = 2" "ed_mark_row e = 3" "idle e"
    using c by (auto simp: ed(1))
  have "key_inv sample_os ed" using ed(2) sample_posix by (simp add: key_inv_def)
  then have "wf_editor e"
    using any_keys.run_inv [of sample_os ed ?keys e] e(1) by (simp add: key_inv_def process_keys_def)
  from stale_mark_reads_out_of_bounds [OF this e(6,2), of sample_os] e ed(1) show ?thesis by auto
qed

section \<open>Editing\<close>

text \<open>
  C5. The editor implements the document. Typed into an editor that is ready (well formed, nothing
  under way), any run of printable keys, Return, Tab, \<open>C-a C-b C-d C-e C-f C-o\<close> does to the text and
  the cursor's offset in it what the abstract keys do to a text with a point: rows, blocks, shared
  memory and byte columns do not show.
\<close>

theorem keys_refine_document:
  assumes "ready ed" "list_all doc_key keys"
  shows "returns (process_keys os ed keys) (\<lambda>e. ready e \<and> b_mode (ed_buffer e) = b_mode (ed_buffer ed) \<and>
    doc e = foldl (doc_step (b_mode (ed_buffer ed))) (doc ed) keys)"
  by (rule typing [OF assms])

theorem keys_refine_document_witness:
  "\<exists>ed. editor_start sample_os (Some sample_path) = Some ed \<and>
     returns (process_keys sample_os ed [5, 13, 72, 1, 2, 4]) (\<lambda>e. doc e = Doc (bytes_of ''foo barH'' @ [10] @ bytes_of ''baz'') 7)"
proof (rule sample_editor)
  fix ed assume ed: "editor_start sample_os (Some sample_path) = Some ed" "ready ed" "doc ed = Doc sample_doc 0"
  have k: "list_all doc_key [5, 13, 72, 1, 2, 4]" by (simp add: doc_key_def)
  have "foldl (doc_step m) (Doc sample_doc 0) [5, 13, 72, 1, 2, 4] = Doc (bytes_of ''foo barH'' @ [10] @ bytes_of ''baz'') 7" for m
    by (cases m; code_simp)
  with keys_refine_document [OF ed(2) k, of sample_os] ed(1,3) show ?thesis by (auto elim!: returns_mono)
qed

text \<open>
  C6. In an editor that is ready and whose last key was not a kill, \<open>C-k\<close> within a line and then \<open>C-y\<close>
  give the text back, with the cursor at the end of the line.
\<close>

theorem kill_line_yank_restores:
  assumes "ready ed" "doc ed = Doc s p" "p < line_end s p" "\<not> ed_last_was_kill ed"
  shows "returns (process_keys os ed [11, 25]) (\<lambda>e. ready e \<and> doc e = Doc s (line_end s p))"
  using kill_yank_line [OF assms, of os] by (auto simp: does_def elim: returns_mono)

theorem kill_line_yank_restores_witness:
  "\<exists>ed. editor_start sample_os (Some sample_path) = Some ed \<and>
     returns (process_keys sample_os ed [11, 25]) (\<lambda>e. ready e \<and> doc e = Doc sample_doc 7)"
proof (rule sample_editor)
  fix ed assume ed: "editor_start sample_os (Some sample_path) = Some ed" "ready ed" "doc ed = Doc sample_doc 0"
    "\<not> ed_last_was_kill ed"
  have e: "line_end sample_doc 0 = 7" by code_simp
  show ?thesis using kill_line_yank_restores [OF ed(2,3) _ ed(4), of sample_os] ed(1) by (simp add: e)
qed

text \<open>
  C7. In an editor that is ready, whose mark is in the text and whose last key was not a kill, \<open>C-w\<close> on a
  region (that is not empty) and then \<open>C-y\<close> give the text back, whatever rows the region spans.
\<close>

theorem kill_region_yank_restores:
  assumes "ready ed" "good_mark ed" "editor_get_region ed \<noteq> None" "\<not> ed_last_was_kill ed"
  shows "returns (process_keys os ed [23, 25]) (\<lambda>e. ready e \<and> flat (texts (ed_buffer e)) = flat (texts (ed_buffer ed)))"
  using kill_yank_region [OF assms, of os]
  by (auto simp: does_def doc_def buffer_doc_def elim: returns_mono)

theorem kill_region_yank_restores_witness:
  "\<exists>ed. editor_start sample_os (Some sample_path) = Some ed \<and>
     returns (process_keys sample_os (set_mark 1 2 ed) [23, 25]) (\<lambda>e. flat (texts (ed_buffer e)) = sample_doc)"
proof (rule sample_editor)
  fix ed assume ed: "editor_start sample_os (Some sample_path) = Some ed" "ready ed" "doc ed = Doc sample_doc 0"
    "texts (ed_buffer ed) = [bytes_of ''foo bar'', bytes_of ''baz'']" "\<not> ed_last_was_kill ed"
  let ?ed = "set_mark 1 2 ed"
  note rd = readyD [OF ed(2)]
  have "calm ?ed" "idle ?ed" using rd(2,3) by (simp_all add: calm_def idle_def set_mark_def)
  then have r: "ready ?ed" using rd(1,4) by (simp add: ready_def)
  have b: "ed_buffer ?ed = ed_buffer ed" "ed_last_was_kill ?ed = ed_last_was_kill ed" by (simp_all add: set_mark_def)
  have g: "good_mark ?ed" unfolding good_mark_def b ed(4) by (simp add: set_mark_def in_text_def bytes_of_def)
  have "flat (texts (ed_buffer ed)) = sample_doc" "offset (texts (ed_buffer ed)) (cur_row ed) (cur_col ed) = 0"
    using ed(3) by (simp_all add: doc_def buffer_doc_def)
  then have "cur_row ed = 0" by (cases "cur_row ed") (auto simp: offset_def ed(4))
  then have "editor_get_region ?ed \<noteq> None"
    by (simp add: editor_get_region_def set_mark_def pos_compare_def Let_def)
  from kill_region_yank_restores [OF r g this, of sample_os] ed(1,5) b \<open>flat _ = _\<close> show ?thesis
    by (auto elim: returns_mono)
qed

text \<open>
  C8. Backspace deletes exactly the character before the cursor (the newline at the start of a line).
  In an ASCII text the cursor is then where the character was, except at the start of a line, where
  it goes to the end of the merged line.
\<close>

theorem backspace_deletes:
  assumes "ready ed" "doc ed = Doc s p" "0 < p"
  shows "returns (editor_process_key os ed 127) (\<lambda>e. ready e \<and> d_text (doc e) = del (prev_char s p) p s \<and>
    (p = line_begin s p \<longrightarrow> d_point (doc e) = line_end (del (p - 1) p s) (p - 1)) \<and>
    (p \<noteq> line_begin s p \<longrightarrow> (\<forall>ch\<in>set s. \<not> utf8_is_continuation ch) \<longrightarrow> d_point (doc e) = p - 1))"
proof -
  obtain e where e: "key_backspace ed = Some e" "ready e" "d_text (doc e) = del (prev_char s p) p s"
    "p = line_begin s p \<longrightarrow> d_point (doc e) = line_end (del (p - 1) p s) (p - 1)"
    "p \<noteq> line_begin s p \<longrightarrow> (\<forall>ch\<in>set s. \<not> utf8_is_continuation ch) \<longrightarrow> d_point (doc e) = p - 1"
    using backspace_does [OF assms] by (elim returnsE conjE) (rule that)
  have "editor_process_key os ed 127 = Some (editor_done True True e)"
    by (simp add: process_key_idle [OF readyD(3) [OF assms(1)]] editor_switch_def ctrl_keys KEY_BACKSPACE_def e(1))
  with e(2-5) ready_done [OF e(2)] show ?thesis by simp
qed

theorem backspace_deletes_witness:
  "\<exists>ed. editor_start sample_os (Some sample_path) = Some ed \<and>
     returns (Option.bind (process_keys sample_os ed [5]) (\<lambda>e. editor_process_key sample_os e 127))
       (\<lambda>e. doc e = Doc (bytes_of ''foo ba'' @ [10] @ bytes_of ''baz'') 6)"
proof (rule sample_editor)
  fix ed assume ed: "editor_start sample_os (Some sample_path) = Some ed" "ready ed" "doc ed = Doc sample_doc 0"
  have k: "list_all doc_key [5]" by (simp add: doc_key_def)
  have f: "foldl (doc_step m) (Doc sample_doc 0) [5] = Doc sample_doc 7" for m by (cases m; code_simp)
  obtain e where e: "process_keys sample_os ed [5] = Some e" "ready e" "doc e = Doc sample_doc 7"
    using typing [OF ed(2) k, of sample_os] unfolding ed(3) f by (elim returnsE conjE) (rule that)
  have c: "line_begin sample_doc 7 = 0" "prev_char sample_doc 7 = 6" "del 6 7 sample_doc = bytes_of ''foo ba'' @ [10] @ bytes_of ''baz''"
    "\<forall>ch\<in>set sample_doc. \<not> utf8_is_continuation ch"
    by code_simp+
  from backspace_deletes [OF e(2,3), of sample_os] c ed(1) e(1) show ?thesis
    by (auto intro: doc.expand elim!: returns_mono)
qed

text \<open>
  C9. \<open>C-k\<close> at the end of a line, not after another kill, and then \<open>C-y\<close> do not give the text back: the
  next line is there twice, because the kill took the whole next line into the ring and only the newline out of the text.
\<close>

theorem kill_newline_yank_duplicates:
  assumes "ready ed" "doc ed = Doc (a @ nl # l @ r) (length a)" "nl \<notin> set l" "r = [] \<or> hd r = nl"
    "\<not> ed_last_was_kill ed"
  shows "returns (process_keys os ed [11, 25]) (\<lambda>e. doc e = Doc (a @ nl # l @ l @ r) (length a + 1 + length l))"
  using kill_yank_end [OF assms, of os] by (auto simp: does_def elim: returns_mono)

theorem kill_newline_yank_duplicates_witness:
  "\<exists>ed. editor_start sample_os (Some sample_path) = Some ed \<and>
     returns (Option.bind (process_keys sample_os ed [5]) (\<lambda>e. process_keys sample_os e [11, 25]))
       (\<lambda>e. doc e = Doc (bytes_of ''foo bar'' @ nl # bytes_of ''baz'' @ bytes_of ''baz'' @ []) 11)"
proof (rule sample_editor)
  fix ed assume ed: "editor_start sample_os (Some sample_path) = Some ed" "ready ed" "doc ed = Doc sample_doc 0"
    "\<not> ed_last_was_kill ed"
  have k: "list_all doc_key [5]" by (simp add: doc_key_def)
  have f: "foldl (doc_step m) (Doc sample_doc 0) [5] = Doc (bytes_of ''foo bar'' @ nl # bytes_of ''baz'' @ []) (length (bytes_of ''foo bar''))" for m
    by (cases m; code_simp)
  obtain e where e: "process_keys sample_os ed [5] = Some e" "ready e"
    "doc e = Doc (bytes_of ''foo bar'' @ nl # bytes_of ''baz'' @ []) (length (bytes_of ''foo bar''))"
    using typing [OF ed(2) k, of sample_os] unfolding ed(3) f by (elim returnsE conjE) (rule that)
  have "\<not> ed_last_was_kill e"
    using e(1) readyD(3) [OF ed(2)]
    by (auto simp: process_keys_def process_key_idle editor_switch_def ctrl_keys KEY_BACKSPACE_def editor_done_def
        bind_eq_Some_conv)
  moreover have "nl \<notin> set (bytes_of ''baz'')" "length (bytes_of ''foo bar'') + 1 + length (bytes_of ''baz'') = 11"
    by code_simp+
  ultimately show ?thesis
    using kill_newline_yank_duplicates [OF e(2,3), of sample_os] ed(1) e(1) by simp
qed

text \<open>
  C10. \<open>M-y\<close> never rotates the kill ring, and \<open>M-d\<close> never appends to a kill: the terminal sends a meta
  key as two bytes, and the first of them, ESC, is a key of its own that ends what a yank or a kill
  began. So \<open>M-y\<close> changes nothing but the two flags, also right after \<open>C-y\<close>; and \<open>M-d\<close> kills as it
  does after any other key.
\<close>

theorem meta_keys_forget_yank_and_kill:
  assumes "idle ed"
  shows "process_keys os ed [27, 121] = Some (ed\<lparr>ed_last_was_kill := False, ed_last_was_yank := False\<rparr>) \<and>
    process_keys os ed [27, 100] =
      process_keys os (ed\<lparr>ed_last_was_kill := False, ed_last_was_yank := False\<rparr>) [27, 100]"
proof -
  have esc: "editor_process_key os e 27 = Some (e\<lparr>ed_esc_state := ESC_SEEN, ed_last_was_kill := False,
      ed_last_was_yank := False\<rparr>)" if "idle e" for e
    using that by (simp add: idle_def editor_process_key_def editor_key_def isearch_handle_key_def editor_done_def Let_def)
  have "ed\<lparr>ed_esc_state := ESC_NONE, ed_last_was_kill := False, ed_last_was_yank := False\<rparr> =
      ed\<lparr>ed_last_was_kill := False, ed_last_was_yank := False\<rparr>"
    using assms by (cases ed) (simp add: idle_def)
  with assms esc [OF assms] esc [of "ed\<lparr>ed_last_was_kill := False, ed_last_was_yank := False\<rparr>"] show ?thesis
    by (simp add: process_keys_def)
       (simp add: editor_process_key_def handle_escape_def handle_meta_key_def KEY_BACKSPACE_def idle_def editor_done_def Let_def)
qed

theorem meta_keys_forget_yank_and_kill_witness:
  "\<exists>ed e. editor_start sample_os (Some sample_path) = Some ed \<and> process_keys sample_os ed [11, 25] = Some e \<and>
     returns (process_keys sample_os e [27, 121]) (\<lambda>e'. doc e' = Doc sample_doc 7)"
proof (rule sample_editor)
  fix ed assume ed: "editor_start sample_os (Some sample_path) = Some ed" "ready ed" "doc ed = Doc sample_doc 0"
    "\<not> ed_last_was_kill ed"
  have l: "line_end sample_doc 0 = 7" by code_simp
  obtain e where e: "process_keys sample_os ed [11, 25] = Some e" "ready e" "doc e = Doc sample_doc 7"
    using kill_yank_line [OF ed(2,3) _ ed(4), of sample_os] unfolding l by (auto simp: does_def elim!: returnsE)
  have "doc (e\<lparr>ed_last_was_kill := False, ed_last_was_yank := False\<rparr>) = Doc sample_doc 7"
    using e(3) by (simp add: doc_def)
  with ed(1) e(1) meta_keys_forget_yank_and_kill [of e sample_os] readyD(3) [OF e(2)] show ?thesis by auto
qed

section \<open>The screen\<close>

text \<open>
  C11. On a screen of at least 2 rows a refresh never fails (with a mark, if no line is longer than a
  \<open>size_t\<close> can say) and changes nothing of the text or the cursor. The cursor's row is among the rows
  shown. Each row shows the part of its line that fits, or a tilde behind the end of the text: a row
  without a selection is coloured by the spans, if there are any; in a row of the selection the selected
  part is in reverse video and nothing is coloured. What is written to the terminal is exactly one frame.
\<close>

theorem refresh_shows_cursor_row:
  assumes "wf_editor ed" "ed_mark_active ed \<longrightarrow> (\<forall>l\<in>set (texts (ed_buffer ed)). length l \<le> SIZE_MAX)"
    and "2 \<le> ed_screen_rows ed"
  shows "returns (editor_refresh_screen hl ed) (\<lambda>e. redrawn ed e \<and>
    ed_row_offset e \<le> cur_row ed \<and> cur_row ed < ed_row_offset e + screen_text_rows ed \<and>
    (\<exists>spans outs p. visible_spans hl e = Some spans \<and> length outs = screen_text_rows ed \<and>
      (\<forall>i < screen_text_rows ed. row_shown e spans (ed_row_offset e + i) (outs ! i)) \<and>
      cursor_position e (int (screen_text_rows ed)) = Some p \<and>
      ed_tty e = ed_tty ed @ frame_text e outs p))"
  by (rule returns_mono [OF refresh_screen_ok [OF assms(1,2)]]) (use assms(3) in auto)

theorem refresh_shows_cursor_row_witness:
  "\<exists>ed. editor_start sample_os (Some sample_path) = Some ed \<and>
     returns (editor_refresh_screen sample_hl (ed\<lparr>ed_screen_rows := 24, ed_screen_cols := 80\<rparr>))
       (\<lambda>e. ed_row_offset e = 0 \<and> ed_tty e \<noteq> [])"
proof (rule sample_editor)
  fix ed assume ed: "editor_start sample_os (Some sample_path) = Some ed" "ready ed" "\<not> ed_mark_active ed"
    "doc ed = Doc sample_doc 0" "texts (ed_buffer ed) = [bytes_of ''foo bar'', bytes_of ''baz'']"
  let ?ed = "ed\<lparr>ed_screen_rows := 24, ed_screen_cols := 80\<rparr>"
  have w: "wf_editor ?ed" using readyD(1) [OF ed(2)] by (simp add: wf_window)
  have "cur_row ed = 0" using ed(4,5) by (cases "cur_row ed") (auto simp: doc_def buffer_doc_def offset_def)
  then show ?thesis
    using refresh_shows_cursor_row [OF w, of sample_hl] ed(1,3)
    by (auto simp: frame_text_def Let_def csi_def elim!: returns_mono)
qed

text \<open>
  C12. In a line of single-byte characters without tabs the cursor's column is on the screen too.
\<close>

theorem scroll_shows_cursor:
  assumes "wf_editor ed" "calm ed" "2 \<le> ed_screen_rows ed" "0 < ed_screen_cols ed" "ed_screen_cols ed < 2 ^ 31"
    and "plain_text (ltext (ed_buffer ed) (cur_row ed))"
  shows "returns (editor_scroll ed) (\<lambda>e. ed_buffer e = ed_buffer ed \<and> ed_frame e = ed_frame ed \<and>
    ed_row_offset e \<le> cur_row ed \<and> cur_row ed < ed_row_offset e + screen_text_rows ed \<and>
    ed_col_offset e \<le> cur_col ed \<and> int (cur_col ed) < int (ed_col_offset e) + ed_screen_cols ed)"
proof -
  note d = wf_editorD [OF assms(1)]
  obtain e where e: "editor_scroll ed = Some e" "scrolled ed e" "ed_row_offset e \<le> cur_row ed"
    "cur_row ed < ed_row_offset e + screen_text_rows ed"
    using editor_scroll_ok [OF d(1,3)] assms(3) by (elim returnsE) simp
  have "returns (scroll_cols (scroll_rows ed)) (\<lambda>e. ed_col_offset e \<le> cur_col (scroll_rows ed) \<and>
      int (cur_col (scroll_rows ed)) < int (ed_col_offset e) + ed_screen_cols (scroll_rows ed))"
    by (rule scroll_cols_plain) (use d(1,3) assms(4-6) calm_col [OF assms(2)] in simp_all)
  then have "ed_col_offset e \<le> cur_col ed \<and> int (cur_col ed) < int (ed_col_offset e) + ed_screen_cols ed"
    using e(1) by (simp add: editor_scroll_def)
  moreover obtain r c where "e = ed\<lparr>ed_row_offset := r, ed_col_offset := c\<rparr>"
    using e(2) [unfolded scrolled_def] by (rule that)
  then have "ed_buffer e = ed_buffer ed" "ed_frame e = ed_frame ed" by simp_all
  ultimately show ?thesis using e by simp
qed

theorem scroll_shows_cursor_witness:
  "\<exists>ed. editor_start sample_os (Some sample_path) = Some ed \<and>
     returns (editor_scroll (ed\<lparr>ed_screen_rows := 2, ed_screen_cols := 10\<rparr>))
       (\<lambda>e. ed_row_offset e = 0 \<and> int (cur_col ed) < int (ed_col_offset e) + 10)"
proof (rule sample_editor)
  fix ed assume ed: "editor_start sample_os (Some sample_path) = Some ed" "ready ed" "doc ed = Doc sample_doc 0"
    "texts (ed_buffer ed) = [bytes_of ''foo bar'', bytes_of ''baz'']"
  let ?ed = "ed\<lparr>ed_screen_rows := 2, ed_screen_cols := 10\<rparr>"
  have w: "wf_editor ?ed" "calm ?ed" using readyD(1,2) [OF ed(2)] by (simp_all add: wf_window)
  have r: "cur_row ed = 0" using ed(3,4) by (cases "cur_row ed") (auto simp: doc_def buffer_doc_def offset_def)
  have "ltext (ed_buffer ed) 0 = bytes_of ''foo bar''"
    using texts_nth [of 0 "ed_buffer ed"] wf_buffer_count [OF readyD(5) [OF ed(2)]] unfolding ed(4) by simp
  moreover have "plain_text (bytes_of ''foo bar'')" by code_simp
  ultimately have "plain_text (ltext (ed_buffer ?ed) (cur_row ?ed))" by (simp add: r)
  from scroll_shows_cursor [OF w _ _ _ this] r ed(1) show ?thesis by (auto elim!: returns_mono)
qed

section \<open>The terminal and the end of the process\<close>

text \<open>
  C13. A session that started with file flags of the terminal that are not negative, as \<open>F_GETFL\<close> gives
  them, and runs without an access out of bounds (on a system with the POSIX limits on paths) leaves the terminal as it was before the start, by
  \<open>editor_destroy\<close> after a quit and by \<open>die\<close> (with status 1) on an error: the attributes are restored, or
  still the raw ones if the \<open>tcsetattr\<close> that restores them fails; the file flags are restored, or still
  non-blocking if the \<open>fcntl\<close> that restores them fails; and the escape sequences that switch the modes
  off follow those that switched them on. While it runs the attributes are those of raw mode.
\<close>

theorem session_restores_terminal:
  assumes "editor_create sy os arg ws tm = Some (Running p)" "0 \<le> sint (tm_flags tm)" "posix_paths os"
    and "editor_run sy os hl p evs = Some out"
  shows "case out of Running q \<Rightarrow> tm_attr (pr_tm q) = raw_termios (tm_attr tm)
    | Quit q \<Rightarrow> returns (editor_destroy sy q) (\<lambda>(g, t). g = Freed_editor \<and> left_raw sy tm t)
    | Died code t \<Rightarrow> code = 1 \<and> left_raw sy tm t"
  by (rule terminal_restored [OF assms])

theorem session_restores_terminal_witness:
  "\<exists>p t. editor_create all_ok sample_os (Some sample_path) (Some (24, 80)) sample_tm = Some (Running p) \<and>
     editor_run all_ok sample_os sample_hl p [Read_error] = Some (Died 1 t) \<and>
     tm_attr t = tm_attr sample_tm \<and> tm_flags t = tm_flags sample_tm"
proof -
  obtain p where p: "editor_create all_ok sample_os (Some sample_path) (Some (24, 80)) sample_tm = Some (Running p)"
    by (rule sample_process)
  obtain ed where "editor_refresh_screen sample_hl (pr_editor p) = Some ed"
    using quiet_refresh [OF create_quiet [OF sample_posix p], of sample_hl] by (rule returnsE)
  then obtain t where t: "editor_run all_ok sample_os sample_hl p [Read_error] = Some (Died 1 t)"
    using dies_returns [of all_ok "pr_saved p" "pr_tm p"] by (auto simp: editor_run_def loop_turn_def)
  have "0 \<le> sint (tm_flags sample_tm)" by (simp add: sample_tm_def)
  from session_restores_terminal [OF p this sample_posix t] p t show ?thesis
    by (auto simp: left_raw_def all_ok_def)
qed

text \<open>
  C14. Every session that is quit, after whatever events, ends in undefined behaviour: the editor is
  freed, and the exit handler \<open>disable_raw_mode\<close> then reads it through \<open>g_editor\<close> once more. The plain
  session \<open>C-x C-c\<close> is one.
\<close>

theorem quit_reads_freed_editor:
  assumes "posix_paths os" "editor_create sy os arg ws tm = Some (Running p)"
  shows "(\<forall>evs q. editor_run sy os hl p evs = Some (Quit q) \<longrightarrow>
      (\<exists>t. editor_destroy sy q = Some (Freed_editor, t) \<and> disable_raw_mode sy Freed_editor t = None) \<and>
      main_program sy os hl arg ws tm evs = None) \<and>
    (\<exists>q. editor_run sy os hl p [Input [24, 3] ws'] = Some (Quit q))"
  using quit_frees [OF assms(2,1)] main_uses_freed_editor [OF assms(2)] quit_run [OF assms]
  by (fastforce simp: disable_raw_mode_def)

theorem quit_reads_freed_editor_witness:
  "main_program all_ok sample_os sample_hl (Some sample_path) (Some (24, 80)) sample_tm [Input [24, 3] None] = None"
proof -
  obtain p where p: "editor_create all_ok sample_os (Some sample_path) (Some (24, 80)) sample_tm = Some (Running p)"
    by (rule sample_process)
  from quit_reads_freed_editor [OF sample_posix p, of sample_hl None] show ?thesis by blast
qed

text \<open>
  C15. A start whose window cannot be measured dies before raw mode is entered, and \<open>die\<close> then sets
  attributes that were never read: if \<open>tcsetattr\<close> succeeds, all of them are zero.
\<close>

theorem start_without_window_zeroes_terminal:
  assumes "sy_restore_attr sy"
  shows "returns (editor_create sy os arg None tm) (\<lambda>out. \<exists>t. out = Died 1 t \<and> tm_attr t = sv_termios zero_saved)"
  by (rule no_window_zeroes [OF assms])

theorem start_without_window_zeroes_terminal_witness:
  "returns (editor_create all_ok sample_os None None sample_tm)
     (\<lambda>out. \<exists>t. out = Died 1 t \<and> c_lflag (tm_attr t) = 0 \<and> c_lflag (tm_attr sample_tm) \<noteq> 0)"
  using start_without_window_zeroes_terminal [of all_ok sample_os None sample_tm]
  by (auto simp: all_ok_def sample_tm_def zero_saved_def elim!: returns_mono)

section \<open>The buffer\<close>

definition sample_buffer :: buffer where
  "sample_buffer = buffer_init\<lparr>b_lines := [bytes_of ''foo'' @ [0], bytes_of ''bar'' @ [0]], b_slots := 2\<rparr>"

lemma sample_buffer_facts:
  "wf_buffer sample_buffer" "texts sample_buffer = [bytes_of ''foo'', bytes_of ''bar'']"
  by (simp_all add: sample_buffer_def wf_buffer_def wf_block_def texts_def cstr_def bytes_of_def)

text \<open>
  C16. Inserting a byte in a line is inserting it in the text: in the flattened text it goes to the
  offset of the position, the position after it is one further, and what is before stays where it is.
\<close>

theorem insert_char_refines:
  assumes "wf_buffer buf" "in_text (texts buf) row col" "ch \<noteq> 0"
  shows "returns (buffer_insert_char buf row col ch) (\<lambda>b. wf_buffer b \<and>
    flat (texts b) = ins (offset (texts buf) row col) [ch] (flat (texts buf)) \<and>
    in_text (texts b) row (col + 1) \<and> offset (texts b) row (col + 1) = offset (texts buf) row col + 1 \<and>
    keeps_front (texts buf) (texts b) row col)"
  by (rule ved.put_law [OF assms])

theorem insert_char_refines_witness:
  "returns (buffer_insert_char sample_buffer 1 2 33) (\<lambda>b. flat (texts b) = bytes_of ''foo'' @ [10] @ bytes_of ''ba!r'')"
proof -
  have "in_text (texts sample_buffer) 1 2" by (simp add: sample_buffer_facts in_text_def bytes_of_def)
  from insert_char_refines [OF sample_buffer_facts(1) this, of 33] show ?thesis
    by (simp add: sample_buffer_facts offset_def ins_def nl_def bytes_of_def) (auto elim!: returns_mono)
qed

text \<open>C17. Breaking a line is inserting a newline in the text, and the cursor's place is after it.\<close>

theorem insert_newline_refines:
  assumes "wf_buffer buf" "in_text (texts buf) row col"
  shows "returns (buffer_insert_newline buf row col) (\<lambda>b. wf_buffer b \<and>
    flat (texts b) = ins (offset (texts buf) row col) [nl] (flat (texts buf)) \<and>
    in_text (texts b) (row + 1) 0 \<and> offset (texts b) (row + 1) 0 = offset (texts buf) row col + 1 \<and>
    keeps_front (texts buf) (texts b) row col)"
  by (rule ved.brk_law [OF assms])

theorem insert_newline_refines_witness:
  "returns (buffer_insert_newline sample_buffer 0 3) (\<lambda>b. flat (texts b) = bytes_of ''foo'' @ [10, 10] @ bytes_of ''bar'')"
proof -
  have "in_text (texts sample_buffer) 0 3" by (simp add: sample_buffer_facts in_text_def bytes_of_def)
  from insert_newline_refines [OF sample_buffer_facts(1) this] show ?thesis
    by (simp add: sample_buffer_facts offset_def ins_def nl_def bytes_of_def) (auto elim!: returns_mono)
qed

text \<open>C18. Deleting a region cuts exactly the text between its two positions, over any number of rows.\<close>

theorem delete_region_refines:
  assumes "wf_buffer buf" "in_text (texts buf) sr sc" "in_text (texts buf) er ec" "Pos sr sc \<le> Pos er ec"
  shows "returns (buffer_delete_region buf sr sc er ec) (\<lambda>b. wf_buffer b \<and>
    flat (texts b) = del (offset (texts buf) sr sc) (offset (texts buf) er ec) (flat (texts buf)) \<and>
    in_text (texts b) sr sc \<and> offset (texts b) sr sc = offset (texts buf) sr sc)"
  by (rule ved.cut_law [OF assms])

theorem delete_region_refines_witness:
  "returns (buffer_delete_region sample_buffer 0 2 1 1) (\<lambda>b. flat (texts b) = bytes_of ''foar'')"
proof -
  have "in_text (texts sample_buffer) 0 2" "in_text (texts sample_buffer) 1 1" "Pos 0 2 \<le> Pos 1 1"
    by (simp_all add: sample_buffer_facts in_text_def bytes_of_def less_eq_pos_def)
  from delete_region_refines [OF sample_buffer_facts(1) this] show ?thesis
    by (simp add: sample_buffer_facts offset_def del_def nl_def bytes_of_def) (auto elim!: returns_mono)
qed

text \<open>
  C19. Typing and taking back: the bytes of a yank, newlines included, are typed one by one, and
  deleting from where the typing began to where it ended leaves the text as it was.
\<close>

theorem type_then_cut:
  assumes "wf_buffer buf" "in_text (texts buf) row col" "0 \<notin> set data"
  shows "returns (do { (b, row', col') \<leftarrow> type_bytes buffer_insert_char buffer_insert_newline buf row col data;
                       buffer_delete_region b row col row' col' })
    (\<lambda>b. wf_buffer b \<and> flat (texts b) = flat (texts buf))"
  by (rule ved.type_bytes_cut [OF assms])

theorem type_then_cut_witness:
  "returns (do { (b, row', col') \<leftarrow> type_bytes buffer_insert_char buffer_insert_newline sample_buffer 0 1 [65, 10, 66];
                 buffer_delete_region b 0 1 row' col' })
    (\<lambda>b. wf_buffer b \<and> flat (texts b) = bytes_of ''foo'' @ [10] @ bytes_of ''bar'')"
proof -
  have i: "in_text (texts sample_buffer) 0 1" by (simp add: sample_buffer_facts in_text_def bytes_of_def)
  have f: "flat (texts sample_buffer) = bytes_of ''foo'' @ [10] @ bytes_of ''bar''"
    by (simp add: sample_buffer_facts nl_def)
  show ?thesis
    using type_then_cut [OF sample_buffer_facts(1) i, of "[65, 10, 66]"] unfolding f by simp
qed

section \<open>Files\<close>

text \<open>
  C20. What a successful save writes, the loader reads back as the same lines, provided that no line
  ends in a carriage return and none holds a newline (a loaded or typed one does not).
\<close>

theorem save_load_roundtrip:
  assumes "wf_buffer buf" "\<forall>l\<in>set (texts buf). plain_line l"
    and "buffer_write_file sv buf = Some (True, out)"
  shows "\<exists>bytes. out = Some bytes \<and> returns (buffer_load_file buf' path (Some bytes)) (\<lambda>b.
    wf_buffer b \<and> texts b = texts buf \<and> b_file_path b = Some path)"
proof -
  obtain bytes where b: "write_lines (sv_write sv) 0 (b_lines buf) [] = Some (True, bytes)" "out = Some bytes"
    using assms(3) by (auto simp: buffer_write_file_def bind_eq_Some_conv split: if_splits)
  have w: "\<forall>b\<in>set (b_lines buf). wf_block b" "texts buf \<noteq> []"
    using assms(1) by (simp_all add: wf_buffer_def texts_def)
  have "bytes = concat (map (\<lambda>l. l @ [nl]) (texts buf))"
    using write_lines_ok [OF w(1) b(1)] by (simp add: texts_def o_def)
  then have "file_lines bytes = texts buf" using file_lines_file_of [OF w(2) assms(2)] by simp
  with b(2) buffer_load_file_eq [of buf' path bytes] show ?thesis by (auto elim!: returns_mono)
qed

theorem save_load_roundtrip_witness:
  "\<exists>bytes. buffer_write_file (os_save sample_os []) sample_buffer = Some (True, Some bytes) \<and>
     returns (buffer_load_file buffer_init sample_path (Some bytes)) (\<lambda>b. texts b = [bytes_of ''foo'', bytes_of ''bar''])"
proof -
  have w: "buffer_write_file (os_save sample_os []) sample_buffer = Some (True, Some (bytes_of ''foo'' @ [10] @ bytes_of ''bar'' @ [10]))"
    by code_simp
  have "\<forall>l\<in>set (texts sample_buffer). plain_line l" unfolding sample_buffer_facts by code_simp
  from save_load_roundtrip [OF sample_buffer_facts(1) this w, of buffer_init sample_path] w show ?thesis
    by (auto simp: sample_buffer_facts elim: returns_mono)
qed

text \<open>
  C21. \<open>C-x C-s\<close> on a buffer with a file name never fails inside the editor and tells the truth: the
  save counts as done exactly when the file was opened, each write (of a line that is not empty, and of
  each newline) wrote all it was given, and the file was closed. Then the file holds every line with its
  newline, the buffer is clean and the status is "Saved". Otherwise the buffer stays dirty if it was, the
  status is "Save failed: " with the error, and the file holds an initial part of the text, or was not
  touched when it could not be opened.
\<close>

theorem save_reports_truth:
  assumes "wf_buffer (ed_buffer ed)" "b_file_path (ed_buffer ed) = Some path"
  shows "returns (editor_save os ed) (\<lambda>e. \<exists>ok out. ed_saves e = ed_saves ed @ [(path, ok, out)] \<and>
    (ok \<longleftrightarrow> sv_open (os_save os path) \<and> sv_close (os_save os path) \<and>
      full_writes (sv_write (os_save os path)) 0 (write_sizes (texts (ed_buffer ed)))) \<and>
    (if ok then out = Some (file_of (ed_buffer ed)) \<and> \<not> ed_dirty e \<and> ed_status_msg e = bytes_of ''Saved''
     else ed_dirty e = ed_dirty ed \<and> ed_status_msg e = take 127 (bytes_of ''Save failed: '' @ os_strerror os)) \<and>
    (out = None \<longleftrightarrow> \<not> sv_open (os_save os path)) \<and>
    (\<forall>bytes. out = Some bytes \<longrightarrow> (\<exists>rest. bytes @ rest = file_of (ed_buffer ed))))"
proof -
  obtain ok out where o: "buffer_write_file (os_save os path) (ed_buffer ed) = Some (ok, out)"
    "ok \<longleftrightarrow> sv_open (os_save os path) \<and> full_writes (sv_write (os_save os path)) 0 (write_sizes (texts (ed_buffer ed))) \<and>
      sv_close (os_save os path)"
    "ok \<longrightarrow> out = Some (file_of (ed_buffer ed))" "out = None \<longleftrightarrow> \<not> sv_open (os_save os path)"
    "\<forall>bytes. out = Some bytes \<longrightarrow> (\<exists>rest. bytes @ rest = file_of (ed_buffer ed))"
    using buffer_write_file_ok [OF assms(1), of "os_save os path"] by blast
  let ?e = "if ok then say ''Saved'' (ed\<lparr>ed_saves := ed_saves ed @ [(path, ok, out)], ed_dirty := False\<rparr>)
    else save_failed os (ed\<lparr>ed_saves := ed_saves ed @ [(path, ok, out)]\<rparr>)"
  have e: "editor_save os ed = Some ?e"
    using assms(2) o(1) by (simp add: editor_save_def editor_save_to_def)
  have f: "ed_saves ?e = ed_saves ed @ [(path, ok, out)]"
    "if ok then \<not> ed_dirty ?e \<and> ed_status_msg ?e = bytes_of ''Saved''
     else ed_dirty ?e = ed_dirty ed \<and> ed_status_msg ?e = take 127 (bytes_of ''Save failed: '' @ os_strerror os)"
    by (simp_all add: say_def status_def save_failed_def bytes_of_def)
  show ?thesis
    unfolding e returns_Some by (rule exI [of _ ok], rule exI [of _ out]) (use f o(2-5) in auto)
qed

theorem save_reports_truth_witness:
  "\<exists>ed. editor_start sample_os (Some sample_path) = Some ed \<and>
     returns (editor_save (sample_os\<lparr>os_save := \<lambda>_. \<lparr>sv_open = True, sv_write = \<lambda>_ n. int n, sv_close = False\<rparr>\<rparr>)
         (ed\<lparr>ed_buffer := sample_buffer\<lparr>b_file_path := Some sample_path\<rparr>, ed_dirty := True\<rparr>))
       (\<lambda>e. ed_dirty e \<and> ed_status_msg e = bytes_of ''Save failed: No such file'')"
proof (rule sample_editor)
  fix ed assume ed: "editor_start sample_os (Some sample_path) = Some ed"
  let ?ed = "ed\<lparr>ed_buffer := sample_buffer\<lparr>b_file_path := Some sample_path\<rparr>, ed_dirty := True\<rparr>"
  let ?os = "sample_os\<lparr>os_save := \<lambda>_. \<lparr>sv_open = True, sv_write = \<lambda>_ n. int n, sv_close = False\<rparr>\<rparr>"
  have "wf_buffer (ed_buffer ?ed)" "b_file_path (ed_buffer ?ed) = Some sample_path"
    using sample_buffer_facts(1) by (simp_all add: wf_buffer_def)
  from save_reports_truth [OF this, of ?os] have "returns (editor_save ?os ?ed)
      (\<lambda>e. ed_dirty e \<and> ed_status_msg e = take 127 (bytes_of ''Save failed: '' @ os_strerror ?os))"
    by (rule returns_mono) auto
  moreover have "take 127 (bytes_of ''Save failed: '' @ os_strerror ?os) = bytes_of ''Save failed: No such file''"
    by (simp add: sample_os_def bytes_of_def)
  ultimately show ?thesis using ed by simp
qed

section \<open>Searching\<close>

text \<open>
  C22. The forward search returns the first occurrence of the query at or after the position, in the
  order of the text and ignoring case, and none only when there is none.
\<close>

theorem search_forward_first:
  assumes "wf_buffer (ed_buffer ed)" "wf_field (query_field ed)" "ed_isearch_len ed \<noteq> 0"
  shows "returns (search_forward_from ed row col) (\<lambda>r. case r of
      Some (row', col') \<Rightarrow> imatch_at (cstr (ed_isearch_query ed)) (texts (ed_buffer ed)) (Pos row' col') \<and>
        Pos row col \<le> Pos row' col' \<and>
        (\<forall>x. imatch_at (cstr (ed_isearch_query ed)) (texts (ed_buffer ed)) x \<longrightarrow> Pos row col \<le> x \<longrightarrow> Pos row' col' \<le> x)
    | None \<Rightarrow> \<forall>x. imatch_at (cstr (ed_isearch_query ed)) (texts (ed_buffer ed)) x \<longrightarrow> \<not> Pos row col \<le> x)"
  by (rule returns_mono [OF search_forward_from_row [OF assms]]) (simp add: first_match_def)

definition query_of :: "byte list \<Rightarrow> block" where
  "query_of q = q @ replicate (FIELD_SIZE - length q) 0"

lemma query_editor:
  assumes "editor_start sample_os (Some sample_path) = Some ed" "ready ed"
    "length q < FIELD_SIZE" "0 \<notin> set q"
  shows "wf_field (query_field (ed\<lparr>ed_isearch_query := query_of q, ed_isearch_len := length q\<rparr>))"
    "cstr (query_of q) = q"
proof -
  obtain n where n: "FIELD_SIZE - length q = Suc n" using assms(3) by (cases "FIELD_SIZE - length q") simp_all
  show "wf_field (query_field (ed\<lparr>ed_isearch_query := query_of q, ed_isearch_len := length q\<rparr>))"
    using assms(3,4) n by (simp add: wf_field_def query_field_def query_of_def field_text_def nth_append)
  show "cstr (query_of q) = q" using assms(4) by (simp add: query_of_def n)
qed

theorem search_forward_first_witness:
  "\<exists>ed. editor_start sample_os (Some sample_path) = Some ed \<and>
     returns (search_forward_from (ed\<lparr>ed_isearch_query := query_of (bytes_of ''BA''), ed_isearch_len := 2\<rparr>) 0 5)
       (\<lambda>r. case r of Some (row, col) \<Rightarrow> imatch_at (bytes_of ''BA'') [bytes_of ''foo bar'', bytes_of ''baz''] (Pos row col) \<and>
          Pos 0 5 \<le> Pos row col | None \<Rightarrow> False)"
proof (rule sample_editor)
  fix ed assume ed: "editor_start sample_os (Some sample_path) = Some ed" "ready ed"
    "texts (ed_buffer ed) = [bytes_of ''foo bar'', bytes_of ''baz'']"
  let ?ed = "ed\<lparr>ed_isearch_query := query_of (bytes_of ''BA''), ed_isearch_len := 2\<rparr>"
  have l: "length (bytes_of ''BA'') = 2" by (simp add: bytes_of_def)
  have q: "0 \<notin> set (bytes_of ''BA'')" by code_simp
  have w: "wf_field (query_field ?ed)" "cstr (query_of (bytes_of ''BA'')) = bytes_of ''BA''"
    using query_editor [OF ed(1,2) _ q] by (simp_all add: l FIELD_SIZE_def)
  have m: "imatch_at (bytes_of ''BA'') [bytes_of ''foo bar'', bytes_of ''baz''] (Pos 1 0)" by code_simp
  have "Pos 0 5 \<le> Pos 1 0" by (simp add: less_eq_pos_def)
  with search_forward_first [of ?ed 0 5] readyD(5) [OF ed(2)] w m ed(1,3) show ?thesis
    by (auto elim!: returns_mono split: option.splits)
qed

text \<open>
  C23. The backward search returns the last occurrence that ends at or before the position.
\<close>

theorem search_backward_last:
  assumes "wf_buffer (ed_buffer ed)" "wf_field (query_field ed)" "ed_isearch_len ed \<noteq> 0"
    and "row < line_count (ed_buffer ed)" "\<forall>l\<in>set (texts (ed_buffer ed)). length l \<le> SIZE_MAX"
  shows "returns (search_backward_from ed row col)
    (last_match (cstr (ed_isearch_query ed)) (texts (ed_buffer ed)) (Pos row col))"
  by (rule search_backward_from_row [OF assms])

theorem search_backward_last_witness:
  "\<exists>ed. editor_start sample_os (Some sample_path) = Some ed \<and>
     returns (search_backward_from (ed\<lparr>ed_isearch_query := query_of (bytes_of ''BA''), ed_isearch_len := 2\<rparr>) 1 1)
       (last_match (bytes_of ''BA'') [bytes_of ''foo bar'', bytes_of ''baz''] (Pos 1 1))"
proof (rule sample_editor)
  fix ed assume ed: "editor_start sample_os (Some sample_path) = Some ed" "ready ed"
    "texts (ed_buffer ed) = [bytes_of ''foo bar'', bytes_of ''baz'']"
  let ?ed = "ed\<lparr>ed_isearch_query := query_of (bytes_of ''BA''), ed_isearch_len := 2\<rparr>"
  have l: "length (bytes_of ''BA'') = 2" by (simp add: bytes_of_def)
  have q: "0 \<notin> set (bytes_of ''BA'')" by code_simp
  have w: "wf_field (query_field ?ed)" "cstr (query_of (bytes_of ''BA'')) = bytes_of ''BA''"
    using query_editor [OF ed(1,2) _ q] by (simp_all add: l FIELD_SIZE_def)
  have c: "1 < line_count (ed_buffer ?ed)" using length_texts [of "ed_buffer ed"] unfolding ed(3) by simp
  have s: "\<forall>l\<in>set (texts (ed_buffer ?ed)). length l \<le> SIZE_MAX" by (simp add: ed(3) SIZE_MAX_def bytes_of_def)
  show ?thesis
    using search_backward_last [OF _ w(1) _ c s, of 1] readyD(5) [OF ed(2)] w(2) ed(1,3) by simp
qed

text \<open>
  C24. Canceling a search gives everything back: after \<open>C-s\<close> or \<open>C-r\<close>, any keys of the search, and
  \<open>C-g\<close>, the buffer and the cursor are what they were, and the editor is ready again.
\<close>

theorem search_cancel_restores:
  assumes "ready ed" "k = 18 \<or> k = 19" "list_all search_key keys"
  shows "returns (process_keys os ed (k # keys @ [7])) (\<lambda>e. ready e \<and> doc e = doc ed \<and> ed_buffer e = ed_buffer ed)"
  by (rule search_cancel [OF assms])

theorem search_cancel_restores_witness:
  "\<exists>ed. editor_start sample_os (Some sample_path) = Some ed \<and>
     returns (process_keys sample_os ed [19, 98, 97, 19, 127, 7]) (\<lambda>e. ready e \<and> doc e = Doc sample_doc 0)"
proof (rule sample_editor)
  fix ed assume ed: "editor_start sample_os (Some sample_path) = Some ed" "ready ed" "doc ed = Doc sample_doc 0"
  have "list_all search_key [98, 97, 19, 127]" by (simp add: search_key_def)
  from search_cancel_restores [OF ed(2) _ this, of 19 sample_os] ed(1,3) show ?thesis by (auto elim!: returns_mono)
qed

section \<open>The finder\<close>

text \<open>
  C25. A line of a \<open>.gitignore\<close> parses to the rule the reference reading gives it: white space off
  both ends, comments and empty lines to nothing, then the \<open>!\<close>, the leading and the trailing slash.
\<close>

theorem gitignore_line_parses:
  assumes "wf_block line"
  shows "parse_gitignore_line line base = Some (gitignore_rule base (cstr line))"
  by (rule parse_gitignore_line_eq [OF assms])

theorem gitignore_line_parses_witness:
  "parse_gitignore_line (bytes_of ''  !/out/ '' @ [0]) (bytes_of ''lib'') =
     Some (Some \<lparr>ir_pattern = bytes_of ''out'', ir_base = bytes_of ''lib'', ir_negated = True, ir_dir_only = True,
       ir_has_slash = False, ir_anchored = True\<rparr>)"
proof -
  have "wf_block (bytes_of ''  !/out/ '' @ [0])" by simp
  from gitignore_line_parses [OF this, of "bytes_of ''lib''"] show ?thesis
    by (simp add: gitignore_rule_def trim_text_def strip_mark_def cstr_def is_trim_def is_blank_def bytes_of_def)
qed

text \<open>
  C26. Among the rules that match a path the last one decides, a negated rule takes the path back in,
  and a path that no rule matches is not ignored.
\<close>

theorem last_rule_decides:
  "is_ignored fnmatch l path is_dir \<longleftrightarrow>
     (\<exists>A r B. il_rules l = A @ r # B \<and> rule_matches fnmatch r path is_dir \<and> \<not> ir_negated r \<and>
        (\<forall>x\<in>set B. \<not> rule_matches fnmatch x path is_dir))"
  by (simp add: is_ignored_def ignored_from_last find_rev_split)

theorem last_rule_decides_witness:
  "\<not> is_ignored (\<lambda>p s b. p = s) \<lparr>il_rules =
     [\<lparr>ir_pattern = bytes_of ''a'', ir_base = [], ir_negated = False, ir_dir_only = False, ir_has_slash = False, ir_anchored = False\<rparr>,
      \<lparr>ir_pattern = bytes_of ''a'', ir_base = [], ir_negated = True, ir_dir_only = False, ir_has_slash = False, ir_anchored = False\<rparr>],
     il_cap = 16\<rparr> (bytes_of ''a'') False"
  unfolding last_rule_decides by (auto simp: Cons_eq_append_conv append_eq_Cons_conv rule_matches_def path_basename_def bytes_of_def)

text \<open>
  C27. Loading a project lists exactly the files that are visible: regular files reached through
  directories, none of them (nor a directory on the way) hidden by the rules that hold there. The
  recursion ends because no path of \<open>PATH_MAX\<close> bytes or more can be inspected.
\<close>

theorem project_lists_visible_files:
  assumes "posix_paths os"
  shows "returns (finder_load_project os fd root) (\<lambda>fd'. set (fd_files fd') = {f. visible os root [] [] f} \<and>
    length (fd_files fd') \<le> fd_file_cap fd')"
  by (rule returns_mono [OF finder_load_project_ok [OF assms]]) simp

definition tree_os :: os where
  "tree_os = sample_os\<lparr>os_stat := \<lambda>p. if p = bytes_of ''/r/a'' then Some Regular else None,
     os_readdir := \<lambda>d. if d = bytes_of ''/r'' then Some [bytes_of ''.'', bytes_of ''a'', bytes_of ''b''] else None\<rparr>"

definition sample_finder :: finder where
  "sample_finder = \<lparr>fd_active = False, fd_query = field_empty, fd_project_root = None, fd_files = [],
     fd_file_cap = 0, fd_matches = [], fd_match_cap = 0, fd_scored_cap = 0, fd_selection = 0, fd_scroll = 0\<rparr>"

theorem project_lists_visible_files_witness:
  "returns (finder_load_project tree_os sample_finder (bytes_of ''/r'')) (\<lambda>fd'. bytes_of ''a'' \<in> set (fd_files fd'))"
proof -
  have p: "posix_paths tree_os"
    by (simp add: posix_paths_def tree_os_def PATH_MAX_def bytes_of_def)
  have "visible tree_os (bytes_of ''/r'') [] [] (entry_rel [] (bytes_of ''a''))"
    by (rule visible.visible_file [where names = "[bytes_of ''.'', bytes_of ''a'', bytes_of ''b'']"])
       (simp_all add: tree_os_def sample_os_def dir_path_def entry_rel_def path_join_def skipped_entry_def bytes_of_def
         hidden_def dir_rules_def path_is_file_def Let_def)
  then have "visible tree_os (bytes_of ''/r'') [] [] (bytes_of ''a'')" by (simp add: entry_rel_def)
  with project_lists_visible_files [OF p, of sample_finder "bytes_of ''/r''"] show ?thesis by (auto elim!: returns_mono)
qed



text \<open>
  C29. Whenever the query changes, the match list is the one ranking of the files: every file of score
  at least 0 once, best score first, the order of the file list among equals. There is no other.
\<close>

theorem matches_are_the_ranking:
  assumes "wf_field (fd_query fd)"
  shows "returns (finder_update_matches fd) (\<lambda>fd'. fd_files fd' = fd_files fd \<and> fd_selection fd' = 0 \<and>
    length (fd_matches fd') \<le> fd_match_cap fd' \<and>
    (\<forall>is. ranked (field_text (fd_query fd)) (fd_files fd) is \<longleftrightarrow> is = fd_matches fd'))"
  by (rule returns_mono [OF finder_update_matches_ok [OF assms]]) (auto intro: ranked_unique)

theorem matches_are_the_ranking_witness:
  "\<exists>ed. editor_start sample_os (Some sample_path) = Some ed \<and>
     returns (finder_update_matches ((ed_finder ed)\<lparr>fd_files := [bytes_of ''long'', bytes_of ''a'']\<rparr>))
       (\<lambda>fd'. ranked [] [bytes_of ''long'', bytes_of ''a''] (fd_matches fd'))"
proof (rule sample_editor)
  fix ed assume ed: "editor_start sample_os (Some sample_path) = Some ed" "ready ed"
  let ?fd = "(ed_finder ed)\<lparr>fd_files := [bytes_of ''long'', bytes_of ''a'']\<rparr>"
  have w: "wf_field (fd_query ?fd)" using wf_editorD(9) [OF readyD(1) [OF ed(2)]] by simp
  have "field_text (fd_query ?fd) = []"
    using ed(1) by (auto simp: editor_start_def bind_eq_Some_conv field_text_def field_empty_def)
  with matches_are_the_ranking [OF w] ed(1) show ?thesis by (auto elim!: returns_mono)
qed

text \<open>
  C30. In an open finder with matches, moving the selection by any number of rows clamps it to the matches and scrolls just as far as
  needed: the selected row is among the rows shown, and no other scroll position that shows it is nearer
  to the old one.
\<close>

theorem selection_stays_in_window:
  assumes "wf_finder (ed_finder ed)" "fd_active (ed_finder ed)" "fd_matches (ed_finder ed) \<noteq> []"
  shows "int (fd_selection (ed_finder (finder_move_selection ed d))) =
      max 0 (min (int (length (fd_matches (ed_finder ed))) - 1) (int (fd_selection (ed_finder ed)) + d)) \<and>
    fd_scroll (ed_finder (finder_move_selection ed d)) \<le> fd_selection (ed_finder (finder_move_selection ed d)) \<and>
    fd_selection (ed_finder (finder_move_selection ed d)) <
      fd_scroll (ed_finder (finder_move_selection ed d)) + finder_list_rows ed \<and>
    (\<forall>x. x \<le> fd_selection (ed_finder (finder_move_selection ed d)) \<longrightarrow>
      fd_selection (ed_finder (finder_move_selection ed d)) < x + finder_list_rows ed \<longrightarrow>
      \<bar>int (fd_scroll (ed_finder (finder_move_selection ed d))) - int (fd_scroll (ed_finder ed))\<bar>
        \<le> \<bar>int x - int (fd_scroll (ed_finder ed))\<bar>)"
proof -
  let ?fd = "ed_finder ed"
  have s: "fd_selection ?fd < length (fd_matches ?fd)" using assms by (simp add: wf_finder_def)
  define sel where "sel = (if d < 0 then (if fd_selection ?fd < nat (- d) then 0 else fd_selection ?fd - nat (- d))
    else if d > 0 then (if fd_selection ?fd + nat d > length (fd_matches ?fd) - 1 then length (fd_matches ?fd) - 1
      else fd_selection ?fd + nat d) else fd_selection ?fd)"
  have m: "finder_move_selection ed d = finder_adjust_scroll (ed\<lparr>ed_finder := ?fd\<lparr>fd_selection := sel\<rparr>\<rparr>)"
    using assms(2,3) by (simp add: finder_move_selection_def Let_def sel_def)
  have "int sel = max 0 (min (int (length (fd_matches ?fd)) - 1) (int (fd_selection ?fd) + d))"
    using s by (auto simp: sel_def of_nat_diff)
  moreover have "finder_list_rows (ed\<lparr>ed_finder := f\<rparr>) = finder_list_rows ed" for f by (simp add: finder_list_rows_def)
  ultimately show ?thesis
    using adjust_scroll_eq [of "ed\<lparr>ed_finder := ?fd\<lparr>fd_selection := sel\<rparr>\<rparr>"] assms(3) unfolding m by auto
qed

theorem selection_stays_in_window_witness:
  "\<exists>ed. editor_start sample_os (Some sample_path) = Some ed \<and>
     fd_selection (ed_finder (finder_move_selection (ed\<lparr>ed_finder := (ed_finder ed)\<lparr>fd_active := True,
       fd_project_root := Some [], fd_files := [[], []], fd_file_cap := 2, fd_matches := [1, 0], fd_match_cap := 2\<rparr>\<rparr>) 5)) = 1"
proof (rule sample_editor)
  fix ed assume ed: "editor_start sample_os (Some sample_path) = Some ed" "ready ed"
  let ?ed = "ed\<lparr>ed_finder := (ed_finder ed)\<lparr>fd_active := True, fd_project_root := Some [], fd_files := [[], []],
      fd_file_cap := 2, fd_matches := [1, 0], fd_match_cap := 2\<rparr>\<rparr>"
  have "fd_selection (ed_finder ed) = 0"
    using ed(1) by (auto simp: editor_start_def bind_eq_Some_conv)
  moreover have "wf_finder (ed_finder ?ed)"
    using wf_editorD(9) [OF readyD(1) [OF ed(2)]] \<open>fd_selection (ed_finder ed) = 0\<close> by (simp add: wf_finder_def)
  ultimately show ?thesis using selection_stays_in_window [of ?ed 5] ed(1) by simp
qed

section \<open>Characters, columns and bytes\<close>

text \<open>
  C31. From a character boundary, stepping to the next one and back (and the other way round) leads to
  the same place, and no boundary is stepped over.
\<close>

theorem char_steps_inverse:
  assumes "wf_block line" "is_bnd (cstr line) col" "col < length (cstr line)"
  shows "\<exists>n. utf8_next_boundary line (length (cstr line)) col = Some n \<and> utf8_prev_boundary line n = Some col \<and>
    col < n \<and> n \<le> length (cstr line) \<and> is_bnd (cstr line) n \<and> (\<forall>i. col < i \<longrightarrow> i < n \<longrightarrow> \<not> is_bnd (cstr line) i)"
proof -
  let ?s = "cstr line" and ?n = "next_bnd (cstr line) col"
  have l: "length ?s \<le> length line" "take (length ?s) line = ?s"
    using length_cstr_less [OF assms(1)] take_cstr [of "length ?s" line] by simp_all
  have n: "utf8_next_boundary line (length ?s) col = Some ?n" using utf8_next_boundary_eq [OF l(1), of col] l(2) by simp
  have le: "?n \<le> length ?s" by (rule next_bnd_le)
  have "utf8_prev_boundary line ?n = Some (prev_bnd ?s ?n)"
    using utf8_prev_boundary_eq [of ?n line] prev_bnd_cstr [OF le] le l(1) by simp
  then have "utf8_prev_boundary line ?n = Some col" using utf8_steps.prv_nxt [OF assms(3,2)] by simp
  with n le assms(3) utf8_steps.nxt_greater utf8_steps.nxt_stop utf8_steps.nxt_least show ?thesis by blast
qed

theorem char_steps_inverse_witness:
  "\<exists>n. utf8_next_boundary [97, 0xc3, 0xa9, 98, 0] 4 1 = Some n \<and> utf8_prev_boundary [97, 0xc3, 0xa9, 98, 0] n = Some 1 \<and> 1 < n"
proof -
  have c: "cstr [97, 0xc3, 0xa9, 98, 0] = [97, 0xc3, 0xa9, 98]" by (simp add: cstr_def)
  have "wf_block [97, 0xc3, 0xa9, 98, 0]" "is_bnd (cstr [97, 0xc3, 0xa9, 98, 0]) 1" "1 < length (cstr [97, 0xc3, 0xa9, 98, 0])"
    by (simp_all add: wf_block_def c is_bnd_def utf8_is_continuation_def)
  moreover have "length [97, 0xc3, 0xa9, 98 :: byte] = 4" by simp
  ultimately show ?thesis using char_steps_inverse [of "[97, 0xc3, 0xa9, 98, 0]" 1] unfolding c by metis
qed

text \<open>
  C32. A byte column, converted to its screen column and back, is the byte column again, tabs included.
\<close>

theorem columns_roundtrip:
  assumes "wf_block line" "col \<le> length (cstr line)"
  shows "\<exists>v. utf8_byte_to_vis_col line col = Some v \<and> utf8_vis_to_byte_col line (length (cstr line)) v = Some col \<and> col \<le> v"
proof -
  let ?v = "vis_width 0 (take col (cstr line))"
  have "fits (cstr line) ?v col"
    using assms(2) vis_width_take_strict [of col "Suc col" "cstr line" 0] by (auto simp: fits_def)
  with utf8_vis_to_byte_colI [OF assms(1)] utf8_byte_to_vis_col_eq [OF assms(1), of col]
    vis_width_ge [of 0 "take col (cstr line)"] assms(2) show ?thesis by auto
qed

theorem columns_roundtrip_witness:
  "\<exists>v. utf8_byte_to_vis_col [97, 9, 98, 0] 2 = Some v \<and> utf8_vis_to_byte_col [97, 9, 98, 0] 3 v = Some 2 \<and> 2 \<le> v"
proof -
  have c: "cstr [97, 9, 98, 0] = [97, 9, 98]" by (simp add: cstr_def)
  have "wf_block [97, 9, 98, 0]" "2 \<le> length (cstr [97, 9, 98, 0])" by (simp_all add: wf_block_def c)
  moreover have "length [97, 9, 98 :: byte] = 3" by simp
  ultimately show ?thesis using columns_roundtrip [of "[97, 9, 98, 0]" 2] unfolding c by metis
qed

text \<open>
  C33. Encoding a byte block for the clipboard sequence fills the block allocated for it exactly, and
  the standard decoding gives the bytes back.
\<close>

theorem base64_roundtrip:
  assumes "len \<le> length data"
  shows "\<exists>out. base64_encode data len = Some (out @ [0]) \<and> length out = ((len + 2) div 3) * 4 \<and>
    b64_decode out = take len data"
  using assms by (simp add: base64_encode_text length_b64_text b64_decode_text)

theorem base64_roundtrip_witness:
  "\<exists>out. base64_encode (bytes_of ''Ma'') 2 = Some (out @ [0]) \<and> length out = 4 \<and>
    b64_decode out = bytes_of ''Ma''"
  using base64_roundtrip [of 2 "bytes_of ''Ma''"] by (simp add: bytes_of_def)

text \<open>
  C34. A printable key (a byte from 32 on, except 127) in the prompt or in the finder goes into the field
  at its cursor; when 255 bytes are in it the field does not change, so its array of 256 bytes always
  keeps the closing NUL. In the finder the matches are then the ranking for the new query, and a key that
  did not fit changes nothing at all there.
\<close>

theorem field_insert_bounded:
  assumes "wf_editor ed" "32 \<le> key" "key \<noteq> 127"
  shows "(ed_prompt_active ed \<longrightarrow> returns (prompt_handle_key os ed key)
      (\<lambda>e. typed_into (ed_prompt ed) key (ed_prompt e))) \<and>
    (fd_active (ed_finder ed) \<longrightarrow> returns (finder_handle_key os ed key) (\<lambda>e.
      typed_into (fd_query (ed_finder ed)) key (fd_query (ed_finder e)) \<and>
      (if fl_len (fd_query (ed_finder ed)) < 255
       then ranked (field_text (fd_query (ed_finder e))) (fd_files (ed_finder ed)) (fd_matches (ed_finder e))
       else e = ed)))"
proof -
  have k: "key \<noteq> 0" using assms(2) by auto
  have c: "key \<notin> {1, 2, 4, 5, 6, 7, 8, 11, 13, 14, 16, 23, 27}" using assms(2) by (auto simp: word_le_nat_alt)
  have f: "finder_handle_key os ed key = finder_query_insert ed key" if "fd_active (ed_finder ed)"
    using that c assms(2,3) by (simp add: finder_handle_key_def ctrl_keys KEY_BACKSPACE_def)
  have p: "returns (prompt_handle_key os ed key) (\<lambda>e. typed_into (ed_prompt ed) key (ed_prompt e))"
    if "ed_prompt_active ed"
  proof -
    note w = wf_editorD(7) [OF assms(1) that]
    obtain g where "field_insert (ed_prompt ed) key = Some g" "typed_into (ed_prompt ed) key g"
      using field_insert_eq [OF w k] unfolding typed_into_def by (rule returnsE)
    then show ?thesis
      using c assms(2,3) by (simp add: prompt_handle_key_def with_prompt_def ctrl_keys KEY_BACKSPACE_def)
  qed
  show ?thesis using p finder_query_insert_ok [OF assms(1) k] by (simp add: f)
qed

theorem field_insert_bounded_witness:
  "\<exists>ed. editor_start sample_os (Some sample_path) = Some ed \<and>
     returns (prompt_handle_key sample_os (ed\<lparr>ed_prompt_active := True, ed_prompt := field_empty\<rparr>) 65)
       (\<lambda>e. field_text (ed_prompt e) = [65] \<and> fl_col (ed_prompt e) = 1)"
proof (rule sample_editor)
  fix ed assume ed: "editor_start sample_os (Some sample_path) = Some ed" "ready ed"
  let ?ed = "ed\<lparr>ed_prompt_active := True, ed_prompt := field_empty\<rparr>"
  have w: "wf_editor ?ed"
    using readyD(1) [OF ed(2)] wf_field_empty by (simp add: state_defs wf_field_def)
  have e: "field_text field_empty = []" "fl_col field_empty = 0" "fl_len field_empty = 0"
    by (simp_all add: field_text_def field_empty_def)
  show ?thesis
    using field_insert_bounded [OF w, of 65 sample_os] ed(1)
    by (auto simp: typed_into_def e ins_def elim!: returns_mono)
qed

section \<open>What is drawn\<close>

text \<open>
  C35. The colour of a byte is that of the span of highest priority over it, the last one among equals;
  a byte under no span has none. Spans may reach over many rows, end inside the line, or lie elsewhere.
\<close>

theorem spans_colour_by_priority:
  "returns (paint_spans row n spans (replicate n None) (replicate n 0)) (\<lambda>(colors, prio). length colors = n \<and>
    (\<forall>j<n. case colors ! j of
        None \<Rightarrow> \<forall>sp\<in>set spans. \<not> covers row sp j
      | Some c \<Rightarrow> \<exists>A sp B. spans = A @ sp # B \<and> c = hs_color sp \<and> covers row sp j \<and>
          (\<forall>x\<in>set A. covers row x j \<longrightarrow> hs_priority x \<le> hs_priority sp) \<and>
          (\<forall>x\<in>set B. covers row x j \<longrightarrow> hs_priority x < hs_priority sp)))"
  by (rule returns_mono [OF paint_all]) (use span_color_best in auto)

theorem spans_colour_by_priority_witness:
  "returns (paint_spans 0 3 [\<lparr>hs_start_row = 0, hs_start_col = 1, hs_end_row = 0, hs_end_col = 9, hs_color = [52], hs_priority = 2\<rparr>]
      (replicate 3 None) (replicate 3 0)) (\<lambda>(colors, prio). colors ! 0 = None \<and> colors ! 1 = Some [52])"
proof -
  let ?sp = "\<lparr>hs_start_row = 0, hs_start_col = 1, hs_end_row = 0, hs_end_col = 9, hs_color = [52 :: byte], hs_priority = 2\<rparr>"
  have c: "\<not> covers 0 ?sp 0" "covers 0 ?sp 1" by (simp_all add: covers_def less_eq_pos_def less_pos_def)
  show ?thesis
  proof (rule returns_mono [OF spans_colour_by_priority [of 0 3 "[?sp]"]], clarify, intro conjI)
    fix colors :: "byte list option list" and prio
    assume j: "\<forall>j<3. case colors ! j of None \<Rightarrow> \<forall>sp\<in>set [?sp]. \<not> covers 0 sp j
      | Some c \<Rightarrow> \<exists>A sp B. [?sp] = A @ sp # B \<and> c = hs_color sp \<and> covers 0 sp j \<and>
          (\<forall>x\<in>set A. covers 0 x j \<longrightarrow> hs_priority x \<le> hs_priority sp) \<and>
          (\<forall>x\<in>set B. covers 0 x j \<longrightarrow> hs_priority x < hs_priority sp)"
    show "colors ! 0 = None" using j [rule_format, of 0] c(1)
      by (cases "colors ! 0") (auto simp: Cons_eq_append_conv)
    show "colors ! 1 = Some [52]" using j [rule_format, of 1] c(2)
      by (cases "colors ! 1") (auto simp: Cons_eq_append_conv)
  qed
qed

text \<open>
  C36. The parser is given the document: the lines joined by newlines and nothing else, in a block of
  the right size; and the offset computed for a row is where that row begins in it.
\<close>

theorem parser_reads_document:
  assumes "wf_buffer buf" "last_row < line_count buf"
  shows "build_buffer_text buf = Some (flat (texts buf) @ [0], length (flat (texts buf))) \<and>
    returns (build_line_offsets buf last_row) (\<lambda>os. length os = last_row + 1 \<and>
      (\<forall>r\<le>last_row. os ! r = offset (texts buf) r 0))"
  using build_buffer_text_eq [OF assms(1)] build_line_offsets_ok [OF assms] by simp

theorem parser_reads_document_witness:
  "build_buffer_text sample_buffer = Some (bytes_of ''foo'' @ [10] @ bytes_of ''bar'' @ [0], 7) \<and>
   returns (build_line_offsets sample_buffer 1) (\<lambda>os. os ! 1 = 4)"
proof -
  have l: "1 < line_count sample_buffer" by (simp add: sample_buffer_def)
  have f: "flat (texts sample_buffer) = bytes_of ''foo'' @ [10] @ bytes_of ''bar''" "offset (texts sample_buffer) (Suc 0) 0 = 4"
    by (simp_all add: sample_buffer_facts nl_def offset_def bytes_of_def)
  from parser_reads_document [OF sample_buffer_facts(1) l] show ?thesis
    unfolding f(1) by (auto simp: f(2) bytes_of_def elim!: returns_mono)
qed

text \<open>
  C37. The status line is as many bytes long as the screen has columns, whatever file name and message it
  shows: the mode at the right end, cut off at the screen's width, and before it the name, the row and
  the message, cut off or filled with spaces. Bytes are counted, not columns: only for single-byte
  characters is the line as wide as the screen.
\<close>

theorem status_line_width:
  assumes "wf_ab ab"
  shows "returns (draw_status ed ab) (\<lambda>ab'. wf_ab ab' \<and>
    (let cols = size_of_int (ed_screen_cols ed); right = take cols (status_right ed);
       left = take (cols - length right) (status_left ed);
       line = left @ replicate (cols - length right - length left) 32 @ right
     in ab_text ab' = ab_text ab @ line \<and> length line = cols))"
proof -
  have "(let cols = size_of_int (ed_screen_cols ed); right = take cols (status_right ed);
       left = take (cols - length right) (status_left ed);
       line = left @ replicate (cols - length right - length left) 32 @ right
     in status_text ed = line \<and> length line = cols)"
    by (auto simp: status_text_def Let_def padded_def min_def)
  then show ?thesis
    by (intro returns_mono [OF ab_sink.emitsD [OF emits_status assms]]) (auto simp: Let_def)
qed

theorem status_line_width_witness:
  "\<exists>ed. editor_start sample_os (Some sample_path) = Some ed \<and>
     returns (draw_status (ed\<lparr>ed_screen_cols := 20\<rparr>) ab_init) (\<lambda>ab. length (ab_text ab) = 20)"
proof (rule sample_editor)
  fix ed assume ed: "editor_start sample_os (Some sample_path) = Some ed"
  have "size_of_int 20 = 20" by (simp add: size_of_int_def)
  with status_line_width [OF wf_ab_init(1), of "ed\<lparr>ed_screen_cols := 20\<rparr>"] ed show ?thesis
    by (auto simp: wf_ab_init(2) Let_def elim!: returns_mono)
qed

text \<open>
  C38. On a screen of at least 7 rows and 12 columns the window of the finder, frame included, lies
  within the screen.
\<close>

theorem finder_window_fits:
  assumes "finder_modal_geometry ed (ed_screen_rows ed - 1) = (row, col, width, list_rows)"
    and "7 \<le> ed_screen_rows ed" "12 \<le> ed_screen_cols ed"
  shows "1 \<le> row \<and> row + int list_rows + 3 \<le> ed_screen_rows ed \<and> 1 \<le> col \<and> col + int width + 1 \<le> ed_screen_cols ed"
  by (rule finder_modal_fits [OF assms])

theorem finder_window_fits_witness:
  "\<exists>ed row col width n. editor_start sample_os None = Some ed \<and>
     finder_modal_geometry (ed\<lparr>ed_screen_rows := 8, ed_screen_cols := 20\<rparr>) 7 = (row, col, width, n) \<and>
     row + int n + 3 \<le> 8 \<and> col + int width + 1 \<le> 20"
proof -
  obtain ed where ed: "editor_start sample_os None = Some ed" using editor_start_ok [of sample_os None] by (auto elim: returnsE)
  let ?ed = "ed\<lparr>ed_screen_rows := 8, ed_screen_cols := 20\<rparr>"
  obtain row col width n where g: "finder_modal_geometry ?ed 7 = (row, col, width, n)" by (metis prod_cases4)
  then have "finder_modal_geometry ?ed (ed_screen_rows ?ed - 1) = (row, col, width, n)" by simp
  from finder_window_fits [OF this] ed g show ?thesis by auto
qed

text \<open>
  C39. Writing to the terminal goes on over short writes, signals and a full pipe until every byte is
  out, if the calls that make progress add up to the length and none fails.
\<close>

theorem write_all_completes:
  assumes "Write_error \<notin> set ws" "Wrote 0 \<notin> set ws" "min len (length data) \<le> progress ws"
  shows "write_all ws data len = Some (take len data)"
  using write_all_loop_complete [OF assms(1,2), of "take len data" 0] assms(3)
  by (simp add: write_all_def min.commute)

theorem write_all_completes_witness:
  "write_all [Wrote 1, Interrupted, Would_block, Wrote 2] [65, 66, 67, 0] 3 = Some [65, 66, 67]"
  using write_all_completes [of "[Wrote 1, Interrupted, Would_block, Wrote 2]" 3 "[65, 66, 67, 0]"] by simp

text \<open>
  C40. Outside a search, a report of the left button on column x and row y of the text area (numbers that
  fit a \<open>long\<close>) puts the cursor into the text: on the row under the pointer, or the last row when the
  pointer is below the text, and there on the last start of a character (or the end of the line) that is
  not behind the pointer's byte column. The buffer is not changed. A press sets the mark where the
  pointer is; a release at the mark takes it away.
\<close>

theorem click_in_text:
  assumes "wf_editor ed" "\<not> ed_isearch_active ed"
    and "1 \<le> x" "1 \<le> y" "int x \<le> LONG_MAX" "int y \<le> LONG_MAX" "int y < ed_screen_rows ed"
  shows "returns (handle_mouse_event ed (report_text 0 x y @ 0 # rest) type) (\<lambda>(e, handled). handled \<and> wf_editor e \<and>
    ed_buffer e = ed_buffer ed \<and> cur_row e = min (ed_row_offset ed + y - 1) (line_count (ed_buffer ed) - 1) \<and>
    (let l = ltext (ed_buffer ed) (cur_row e); col = ed_col_offset ed + x - 1 in
      is_bnd l (cur_col e) \<and> cur_col e \<le> length l \<and> cur_col e \<le> col \<and>
      (\<forall>i. is_bnd l i \<longrightarrow> i \<le> length l \<longrightarrow> i \<le> col \<longrightarrow> i \<le> cur_col e) \<and>
      (if type = 77 then ed_mark_active e \<and> ed_mark_row e = cur_row e \<and> ed_mark_col e = col
       else ed_mark_active e \<longleftrightarrow> ed_mark_active ed \<and> (ed_mark_row ed \<noteq> cur_row e \<or> ed_mark_col ed \<noteq> col))))"
proof -
  have r: "mouse_row ed (int y) = min (ed_row_offset ed + y - 1) (line_count (ed_buffer ed) - 1)"
    using wf_buffer_count [OF wf_editorD(1) [OF assms(1)]] assms(4)
    by (auto simp: mouse_row_def Let_def nat_diff_distrib)
  have c: "mouse_col ed (int x) = ed_col_offset ed + x - 1" using assms(3) by (simp add: mouse_col_def nat_diff_distrib)
  have h: "handle_mouse_event ed (report_text 0 x y @ 0 # rest) type =
      map_option (\<lambda>e. (e, True)) (mouse_button ed (int x) (int y) (type = 77))"
    using mouse_report [of 0 x y ed rest type] assms(3-7) by (cases "mouse_button ed (int x) (int y) (type = 77)") (auto simp: LONG_MAX_def)
  obtain e where e: "mouse_button ed (int x) (int y) (type = 77) = Some e" "wf_editor e"
    using mouse_button_ok(1) [OF assms(1,2), of "int x" "int y" "type = 77"] by (auto elim: returnsE)
  show ?thesis
    using mouse_button_cursor [OF assms(1), of "int x" "int y" "type = 77"] e
      clamp_bnd_is_bnd clamp_bnd_below clamp_bnd_greatest clamp_bnd_le
    unfolding h r [symmetric] c [symmetric] by (auto simp: Let_def)
qed

theorem click_in_text_witness:
  "\<exists>ed. editor_start sample_os None = Some ed \<and>
     returns (handle_mouse_event (ed\<lparr>ed_screen_rows := 24, ed_col_offset := 0,
         ed_buffer := buffer_init\<lparr>b_lines := [[97, 0xc3, 0xa9, 98, 0]]\<rparr>\<rparr>) (bytes_of ''0;3;9'' @ 0 # []) 77)
       (\<lambda>(e, handled). handled \<and> cur_row e = 0 \<and> cur_col e = 1)"
proof -
  obtain ed where st: "editor_start sample_os None = Some ed" "ready ed" "doc ed = Doc (flat (start_lines sample_os None)) 0"
    using editor_start_ready [of sample_os None] by (auto elim!: returnsE)
  let ?line = "[97, 0xc3, 0xa9, 98, 0] :: byte list"
  let ?ed = "ed\<lparr>ed_screen_rows := 24, ed_col_offset := 0, ed_buffer := buffer_init\<lparr>b_lines := [?line]\<rparr>\<rparr>"
  have t: "bytes_of ''0;3;9'' = report_text 0 3 9" by code_simp
  have "cur_row ed = 0 \<and> cur_col ed = 0" using st(1) by (auto simp: editor_start_def bind_eq_Some_conv)
  then have w: "wf_editor ?ed" "\<not> ed_isearch_active ?ed"
    using readyD(1,7) [OF st(2)] by (auto simp: state_defs wf_buffer_def wf_block_def buffer_init_def)
  have l: "ltext (ed_buffer ?ed) 0 = [97, 0xc3, 0xa9, 98]" "line_count (ed_buffer ?ed) = 1"
    by (simp_all add: ltext_def cstr_def)
  have b: "is_bnd [97, 0xc3, 0xa9, 98] 1" "\<not> is_bnd [97, 0xc3, 0xa9, 98] 2" by code_simp+
  from click_in_text [OF w(1,2), of 3 9 "[]" 77] have "returns (handle_mouse_event ?ed (report_text 0 3 9 @ 0 # []) 77)
      (\<lambda>(e, handled). handled \<and> cur_row e = 0 \<and> is_bnd [97, 0xc3, 0xa9, 98] (cur_col e) \<and> cur_col e \<le> 2 \<and> 1 \<le> cur_col e)"
    by (rule returns_mono) (use l b in \<open>auto simp: Let_def LONG_MAX_def\<close>)
  moreover have "c = 1" if "is_bnd [97, 0xc3, 0xa9, 98] c" "c \<le> 2" "1 \<le> c" for c
    using that b(2) by (cases "c = 2") auto
  ultimately have "returns (handle_mouse_event ?ed (report_text 0 3 9 @ 0 # []) 77)
      (\<lambda>(e, handled). handled \<and> cur_row e = 0 \<and> cur_col e = 1)"
    by (auto simp del: One_nat_def elim!: returns_mono)
  with st(1) show ?thesis unfolding t by blast
qed

end
